(* ===== verification/Opa_Prelude.thy ===== *)
theory Opa_Prelude
  imports Main "HOL-Library.Word" "HOL-Library.Char_ord" "HOL-Library.List_Lexorder"
    "HOL-Library.Product_Lexorder" "HOL-Library.Multiset"
begin

text \<open>
  Shared vocabulary of the development.

  Go's three-way comparison functions return an \<open>int\<close> whose sign orders the arguments:
  \<open>cmpi\<close> is that function on a linearly ordered type, \<open>lexcmp\<close> is the loop over the common
  prefix of two slices followed by the comparison of their lengths, and \<open>sort_by\<close> is the
  effect of \<open>sort.Sort\<close> with a \<open>Less\<close> method derived from a comparison function.  The
  locale \<open>total_cmp\<close> is the contract that such a function promises, and its lemmas are what
  the clients of a comparison function rely on.
\<close>

named_theorems cmp_simps "sign facts on comparison functions"

section \<open>Three-way comparison\<close>

type_synonym 'a cmp = "'a \<Rightarrow> 'a \<Rightarrow> int"

definition cmpi :: "'a::linorder \<Rightarrow> 'a \<Rightarrow> int" where
  "cmpi a b = (if a < b then -1 else if b < a then 1 else 0)"

fun lexcmp :: "'a cmp \<Rightarrow> 'a list \<Rightarrow> 'a list \<Rightarrow> int" where
  "lexcmp f [] [] = 0"
| "lexcmp f [] (y # ys) = -1"
| "lexcmp f (x # xs) [] = 1"
| "lexcmp f (x # xs) (y # ys) = (if f x y \<noteq> 0 then f x y else lexcmp f xs ys)"

fun insort_by :: "'a cmp \<Rightarrow> 'a \<Rightarrow> 'a list \<Rightarrow> 'a list" where
  "insort_by f x [] = [x]"
| "insort_by f x (y # ys) = (if f y x < 0 then y # insort_by f x ys else x # y # ys)"

fun sort_by :: "'a cmp \<Rightarrow> 'a list \<Rightarrow> 'a list" where
  "sort_by f [] = []"
| "sort_by f (x # xs) = insort_by f x (sort_by f xs)"

text \<open>Running one comparison after another: the second decides where the first is zero.\<close>

definition cmp_then :: "int \<Rightarrow> int \<Rightarrow> int" where
  "cmp_then c d = (if c \<noteq> 0 then c else d)"

lemma lexcmp_cong [fundef_cong]:
  assumes "xs = xs'" and "ys = ys'"
    and "\<And>x y. x \<in> set xs' \<Longrightarrow> y \<in> set ys' \<Longrightarrow> f x y = g x y"
  shows "lexcmp f xs ys = lexcmp g xs' ys'"
  unfolding assms(1,2) using assms(3) by (induction g xs' ys' rule: lexcmp.induct) auto

lemma set_insort_by [simp]: "set (insort_by f x xs) = insert x (set xs)"
  by (induction xs) auto

lemma set_sort_by [simp]: "set (sort_by f xs) = set xs"
  by (induction xs) auto

lemma mset_insort_by [simp]: "mset (insort_by f x xs) = add_mset x (mset xs)"
  by (induction xs) auto

lemma mset_sort_by [simp]: "mset (sort_by f xs) = mset xs"
  by (induction xs) auto

lemma length_sort_by [simp]: "length (sort_by f xs) = length xs"
  by (metis mset_sort_by size_mset)

lemma insort_by_cong:
  assumes "\<And>y. y \<in> set xs \<Longrightarrow> f y x = g y x"
  shows "insort_by f x xs = insort_by g x xs"
  using assms by (induction xs) auto

lemma sort_by_cong [fundef_cong]:
  assumes "xs = ys" and "\<And>x y. x \<in> set ys \<Longrightarrow> y \<in> set ys \<Longrightarrow> f x y = g x y"
  shows "sort_by f xs = sort_by g ys"
  unfolding assms(1) using assms(2)
proof (induction ys)
  case (Cons y ys)
  have "sort_by f ys = sort_by g ys"
    by (rule Cons.IH) (use Cons.prems in auto)
  moreover have "insort_by f y (sort_by g ys) = insort_by g y (sort_by g ys)"
    by (rule insort_by_cong) (use Cons.prems in auto)
  ultimately show ?case by simp
qed simp

lemma insort_by_map: "insort_by f (h x) (map h xs) = map h (insort_by (\<lambda>a b. f (h a) (h b)) x xs)"
  by (induction xs) auto

lemma sort_by_map: "sort_by f (map h xs) = map h (sort_by (\<lambda>a b. f (h a) (h b)) xs)"
  by (induction xs) (auto simp: insort_by_map)

lemma lexcmp_map: "lexcmp f (map h xs) (map h ys) = lexcmp (\<lambda>a b. f (h a) (h b)) xs ys"
  by (induction "\<lambda>a b. f (h a) (h b)" xs ys rule: lexcmp.induct) auto

subsection \<open>The contract of a comparison function\<close>

text \<open>
  A comparison function on a carrier is a total preorder given by signs: swapping the
  arguments flips the sign, and \<open>\<le>\<close> is transitive.
\<close>

locale total_cmp =
  fixes cmp :: "'a cmp" and dom :: "'a \<Rightarrow> bool"
  assumes cmp_swap: "dom a \<Longrightarrow> dom b \<Longrightarrow> cmp b a = - cmp a b"
    and cmp_trans: "dom a \<Longrightarrow> dom b \<Longrightarrow> dom c \<Longrightarrow> cmp a b \<le> 0 \<Longrightarrow> cmp b c \<le> 0 \<Longrightarrow> cmp a c \<le> 0"
begin

lemma cmp_refl: "dom a \<Longrightarrow> cmp a a = 0"
  using cmp_swap [of a a] by linarith

lemma cmp_eq_sym: "dom a \<Longrightarrow> dom b \<Longrightarrow> cmp a b = 0 \<Longrightarrow> cmp b a = 0"
  using cmp_swap [of a b] by linarith

lemma cmp_eq_trans: "dom a \<Longrightarrow> dom b \<Longrightarrow> dom c \<Longrightarrow> cmp a b = 0 \<Longrightarrow> cmp b c = 0 \<Longrightarrow> cmp a c = 0"
  using cmp_trans [of a b c] cmp_trans [of c b a] cmp_swap [of a b] cmp_swap [of b c]
    cmp_swap [of a c] by linarith

lemma cmp_less_trans: "dom a \<Longrightarrow> dom b \<Longrightarrow> dom c \<Longrightarrow> cmp a b < 0 \<Longrightarrow> cmp b c \<le> 0 \<Longrightarrow> cmp a c < 0"
  using cmp_trans [of a b c] cmp_trans [of b c a] cmp_swap [of a b] cmp_swap [of a c] by linarith

lemma cmp_total: "dom a \<Longrightarrow> dom b \<Longrightarrow> cmp a b \<le> 0 \<or> cmp b a \<le> 0"
  using cmp_swap [of a b] by linarith

lemma insort_by_sorted:
  assumes "dom x" and "\<forall>y \<in> set xs. dom y" and "sorted_wrt (\<lambda>a b. cmp a b \<le> 0) xs"
  shows "sorted_wrt (\<lambda>a b. cmp a b \<le> 0) (insort_by cmp x xs)"
  using assms
proof (induction xs)
  case (Cons y ys)
  show ?case
  proof (cases "cmp y x < 0")
    case True
    with Cons show ?thesis by auto
  next
    case False
    then have "cmp x y \<le> 0" using Cons.prems cmp_swap [of y x] by simp
    with False Cons.prems show ?thesis by (auto intro: cmp_trans [of x y])
  qed
qed simp

lemma sort_by_sorted:
  "\<forall>y \<in> set xs. dom y \<Longrightarrow> sorted_wrt (\<lambda>a b. cmp a b \<le> 0) (sort_by cmp xs)"
  by (induction xs) (auto intro!: insort_by_sorted)

end

lemma cmpi_simps [cmp_simps, simp]:
  "cmpi a b < 0 \<longleftrightarrow> a < b" "0 < cmpi a b \<longleftrightarrow> b < a" "cmpi a b = 0 \<longleftrightarrow> a = b"
  "cmpi a b \<le> 0 \<longleftrightarrow> a \<le> b" "0 \<le> cmpi a b \<longleftrightarrow> b \<le> a" "cmpi a a = 0"
  by (auto simp: cmpi_def)

lemma cmpi_swap: "cmpi b a = - cmpi a b"
  by (auto simp: cmpi_def)

interpretation cmpi: total_cmp "cmpi :: 'a::linorder cmp" "\<lambda>_. True"
  by unfold_locales (auto simp: cmpi_def split: if_splits)

lemma cmp_then_simps [cmp_simps, simp]:
  "cmp_then c d = 0 \<longleftrightarrow> c = 0 \<and> d = 0" "cmp_then 0 d = d"
  "c \<noteq> 0 \<Longrightarrow> cmp_then c d = c" "cmp_then c 0 = c"
  by (auto simp: cmp_then_def)

lemma lexcmp_cmpi: "lexcmp cmpi xs ys = cmpi xs (ys :: 'a::linorder list)"
  by (induction "cmpi :: 'a cmp" xs ys rule: lexcmp.induct) (auto simp: cmpi_def)

lemma lexcmp_eq_0:
  "lexcmp f xs ys = 0 \<longleftrightarrow> list_all2 (\<lambda>x y. f x y = 0) xs ys"
  by (induction f xs ys rule: lexcmp.induct) auto

lemma insort_by_cmpi: "insort_by (\<lambda>a b. cmpi (k a) (k b)) x xs = insort_key k x xs"
  by (induction xs) (auto simp: not_less)

lemma sort_by_cmpi: "sort_by (\<lambda>a b. cmpi (k a) (k b)) xs = sort_key k xs"
  by (induction xs) (auto simp: insort_by_cmpi)

section \<open>Results\<close>

text \<open>
  Fallible operations return a sum with the error on the left.  A Go \<open>panic\<close> is the error
  value \<open>Panic\<close> of the component's own error type, or \<open>None\<close> where a panic is the only way
  to fail.
\<close>

type_synonym hash = "64 word"

definition bind_result :: "'e + 'a \<Rightarrow> ('a \<Rightarrow> 'e + 'b) \<Rightarrow> 'e + 'b" where
  "bind_result r f = (case r of Inl e \<Rightarrow> Inl e | Inr x \<Rightarrow> f x)"

lemma bind_result_simps [simp]:
  "bind_result (Inl e) f = Inl e" "bind_result (Inr x) f = f x"
  by (simp_all add: bind_result_def)

lemma bind_result_eq_Inr: "bind_result r f = Inr y \<longleftrightarrow> (\<exists>x. r = Inr x \<and> f x = Inr y)"
  by (cases r) auto

section \<open>Iteration\<close>

text \<open>A loop over a slice whose body may not return (\<open>None\<close>).\<close>

fun foldM :: "('a \<Rightarrow> 's \<Rightarrow> 's option) \<Rightarrow> 'a list \<Rightarrow> 's \<Rightarrow> 's option" where
  "foldM f [] s = Some s"
| "foldM f (x # xs) s = (case f x s of None \<Rightarrow> None | Some s' \<Rightarrow> foldM f xs s')"

lemma foldM_append: "foldM f (xs @ ys) s = Option.bind (foldM f xs s) (foldM f ys)"
  by (induction xs arbitrary: s) (auto split: option.split)

lemma foldM_cong [fundef_cong]:
  assumes "xs = ys" and "s = t" and "\<And>x u. x \<in> set ys \<Longrightarrow> f x u = g x u"
  shows "foldM f xs s = foldM g ys t"
  using assms by (induction ys arbitrary: s t xs) (auto split: option.split)

lemma foldM_filter:
  assumes "\<And>x s. x \<in> set xs \<Longrightarrow> f x s = (if P x then g x s else Some s)"
  shows "foldM f xs s = foldM g (filter P xs) s"
  using assms by (induction xs arbitrary: s) (auto split: option.split)

lemma foldM_total: "foldM (\<lambda>x s. Some (f x s)) xs s = Some (fold f xs s)"
  by (induction xs arbitrary: s) simp_all

text \<open>A loop whose body may return an error, which stops it.\<close>

fun foldE :: "('a \<Rightarrow> 's \<Rightarrow> 'e + 's) \<Rightarrow> 'a list \<Rightarrow> 's \<Rightarrow> 'e + 's" where
  "foldE f [] s = Inr s"
| "foldE f (x # xs) s = bind_result (f x s) (foldE f xs)"

lemma foldE_cong [fundef_cong]:
  assumes "xs = ys" and "s = t" and "\<And>x u. x \<in> set ys \<Longrightarrow> f x u = g x u"
  shows "foldE f xs s = foldE g ys t"
  using assms by (induction ys arbitrary: s t xs) (auto simp: bind_result_def split: sum.split)

end
