(* ===== verification/Ast_Number.thy ===== *)
theory Ast_Number
  imports Opa_Prelude Complex_Main
begin

text \<open>
  Numbers of the AST (\<open>type Number json.Number\<close> in ast/term.go): the text of a JSON number.

  A legal text is an optional minus sign, an integer part, an optional fraction and an
  optional exponent; \<open>json_number\<close> keeps these parts, the fraction as the count of its digits
  and their value.  So \<open>1\<close>, \<open>1.0\<close> and \<open>10e-1\<close> are three different numbers of this type, as
  they are three different strings in Go, and \<open>num_rat\<close> gives all of them the value 1.

  \<open>num_int64\<close> is \<open>json.Number.Int64\<close>, which parses a text with no fraction and no exponent
  whose value is in the range of int64.  \<open>num_rat\<close> is \<open>big.Rat.SetString\<close>.  Texts whose
  exponent is beyond a million are outside the model: \<open>big.Rat.SetString\<close> refuses them and the
  Go code panics.  For every other text \<open>big.Float.SetString\<close> is zero exactly when the value
  is, so the special case for numbers close to zero agrees with the general one.
\<close>

datatype json_number = Num (num_neg: bool) (num_int: nat) (num_frac: "(nat \<times> nat) option") (num_exp: "int option")

definition int64_min :: int where "int64_min = - (2 ^ 63)"
definition int64_max :: int where "int64_max = 2 ^ 63 - 1"

fun num_int64 :: "json_number \<Rightarrow> int option" where
  "num_int64 (Num s n None None) =
     (let v = (if s then - int n else int n)
      in if int64_min \<le> v \<and> v \<le> int64_max then Some v else None)"
| "num_int64 _ = None"

text \<open>The scale 10 to the power of an integer exponent.\<close>

definition pow10 :: "int \<Rightarrow> rat" where
  "pow10 e = (if 0 \<le> e then 10 ^ nat e else 1 / 10 ^ nat (- e))"

fun num_rat :: "json_number \<Rightarrow> rat" where
  "num_rat (Num s n f e) =
     (let m = of_nat n + (case f of None \<Rightarrow> 0 | Some (k, d) \<Rightarrow> of_nat d / 10 ^ k);
          v = m * (case e of None \<Rightarrow> 1 | Some x \<Rightarrow> pow10 x)
      in if s then - v else v)"

text \<open>The case \<open>Number\<close> of \<open>Compare\<close>: int64 comparison when both texts parse, rationals otherwise.\<close>

definition num_compare :: "json_number cmp" where
  "num_compare a b =
     (case num_int64 a of
        Some ai \<Rightarrow> (case num_int64 b of
            Some bi \<Rightarrow> (if ai = bi then 0 else if ai < bi then -1 else 1)
          | None \<Rightarrow> cmpi (num_rat a) (num_rat b))
      | None \<Rightarrow> cmpi (num_rat a) (num_rat b))"

text \<open>Number of an integer (\<open>intNumber\<close>, \<open>IntNumberTerm\<close>, \<open>UIntNumberTerm\<close>: decimal digits).\<close>

definition intNumber :: "int \<Rightarrow> json_number" where
  "intNumber i = Num (i < 0) (nat \<bar>i\<bar>) None None"

lemma num_int64_rat: "num_int64 n = Some i \<Longrightarrow> num_rat n = of_int i"
  by (cases n rule: num_int64.cases) (auto simp: Let_def split: if_splits)

lemma num_compare_rat: "num_compare a b = cmpi (num_rat a) (num_rat b)"
  by (auto simp: num_compare_def cmpi_def num_int64_rat split: option.split)

lemma num_int64_range: "num_int64 n = Some i \<Longrightarrow> int64_min \<le> i \<and> i \<le> int64_max"
  by (cases n rule: num_int64.cases) (auto simp: Let_def split: if_splits)

lemma num_rat_intNumber [simp]: "num_rat (intNumber i) = of_int i"
  by (auto simp: intNumber_def Let_def)

lemma num_int64_intNumber:
  "num_int64 (intNumber i) = (if int64_min \<le> i \<and> i \<le> int64_max then Some i else None)"
  by (auto simp: intNumber_def Let_def)

end
