(* ===== verification/Ast_Value.thy ===== *)
theory Ast_Value
  imports Ast_Number
begin

text \<open>
  Values, terms and expressions of the AST (ast/term.go, ast/policy.go) and their order
  (ast/compare.go).

  A term is identified with its value: source locations and JSON options take no part in
  any operation below.  A nil \<open>*Term\<close> is \<open>None\<close>.  Sets and objects are given by their
  \<open>keys\<close> slice in its current order; their hash index is the subject of other theories.  A
  lazy object stands for the object it is forced to.
\<close>

datatype val =
    Null
  | Boolean bool
  | Number json_number
  | String string
  | Var string
  | Ref "val list"
  | Array "val list"
  | Object "(val \<times> val) list"
  | Set "val list"
  | ArrayComprehension val "expr list"
  | ObjectComprehension val val "expr list"
  | SetComprehension val "expr list"
  | Call "val list"
and expr = Expr (Terms: terms) (Index: int) (Negated: bool) (Withs: "modifier list")
and terms =
    OneTerm val
  | TermList "val list"
  | SomeDecl "val list"
  | Every "val option" val val "expr list"
and modifier = With val val

type_synonym body = "expr list"
type_synonym ref = "val list"

fun sortOrder :: "val \<Rightarrow> nat" where
  "sortOrder Null = 0"
| "sortOrder (Boolean _) = 1"
| "sortOrder (Number _) = 2"
| "sortOrder (String _) = 3"
| "sortOrder (Var _) = 4"
| "sortOrder (Ref _) = 5"
| "sortOrder (Array _) = 6"
| "sortOrder (Object _) = 7"
| "sortOrder (Set _) = 8"
| "sortOrder (ArrayComprehension _ _) = 9"
| "sortOrder (ObjectComprehension _ _ _) = 10"
| "sortOrder (SetComprehension _ _) = 11"
| "sortOrder (Call _) = 12"

fun expr_sortOrder :: "terms \<Rightarrow> nat" where
  "expr_sortOrder (SomeDecl _) = 0"
| "expr_sortOrder (OneTerm _) = 1"
| "expr_sortOrder (TermList _) = 2"
| "expr_sortOrder (Every _ _ _ _) = 3"

lemma size_elem_le: "x \<in> set xs \<Longrightarrow> size x < Suc (size_list size xs)"
  by (induction xs) auto

lemma size_pair_le:
  "(k, v) \<in> set kvs \<Longrightarrow> size k < Suc (size_list (size_prod size size) kvs) \<and>
     size v < Suc (size_list (size_prod size size) kvs)"
  by (induction kvs) auto

function compare :: "val \<Rightarrow> val \<Rightarrow> int"
  and expr_compare :: "expr \<Rightarrow> expr \<Rightarrow> int"
  and with_compare :: "modifier \<Rightarrow> modifier \<Rightarrow> int" where
  "compare a b =
     (if sortOrder a < sortOrder b then -1
      else if sortOrder b < sortOrder a then 1
      else case a of
        Null \<Rightarrow> 0
      | Boolean x \<Rightarrow> (case b of Boolean y \<Rightarrow> (if x = y then 0 else if \<not> x then -1 else 1) | _ \<Rightarrow> 0)
      | Number x \<Rightarrow> (case b of Number y \<Rightarrow> num_compare x y | _ \<Rightarrow> 0)
      | String x \<Rightarrow> (case b of String y \<Rightarrow> (if x = y then 0 else if x < y then -1 else 1) | _ \<Rightarrow> 0)
      | Var x \<Rightarrow> (case b of Var y \<Rightarrow> (if x = y then 0 else if x < y then -1 else 1) | _ \<Rightarrow> 0)
      | Ref x \<Rightarrow> (case b of Ref y \<Rightarrow> lexcmp compare x y | _ \<Rightarrow> 0)
      | Array x \<Rightarrow> (case b of Array y \<Rightarrow> lexcmp compare x y | _ \<Rightarrow> 0)
      | Object x \<Rightarrow> (case b of Object y \<Rightarrow>
            lexcmp (\<lambda>p q. cmp_then (compare (fst p) (fst q)) (compare (snd p) (snd q)))
              (sort_by (\<lambda>p q. compare (fst p) (fst q)) x)
              (sort_by (\<lambda>p q. compare (fst p) (fst q)) y) | _ \<Rightarrow> 0)
      | Set x \<Rightarrow> (case b of Set y \<Rightarrow> lexcmp compare (sort_by compare x) (sort_by compare y) | _ \<Rightarrow> 0)
      | ArrayComprehension t u \<Rightarrow> (case b of ArrayComprehension t' u' \<Rightarrow>
            cmp_then (compare t t') (lexcmp expr_compare u u') | _ \<Rightarrow> 0)
      | ObjectComprehension k v u \<Rightarrow> (case b of ObjectComprehension k' v' u' \<Rightarrow>
            cmp_then (compare k k') (cmp_then (compare v v') (lexcmp expr_compare u u')) | _ \<Rightarrow> 0)
      | SetComprehension t u \<Rightarrow> (case b of SetComprehension t' u' \<Rightarrow>
            cmp_then (compare t t') (lexcmp expr_compare u u') | _ \<Rightarrow> 0)
      | Call x \<Rightarrow> (case b of Call y \<Rightarrow> lexcmp compare x y | _ \<Rightarrow> 0))"
| "expr_compare (Expr t i n w) (Expr t' i' n' w') =
     (if expr_sortOrder t < expr_sortOrder t' then -1
      else if expr_sortOrder t' < expr_sortOrder t then 1
      else if i < i' then -1
      else if i' < i then 1
      else if n \<and> \<not> n' then 1
      else if \<not> n \<and> n' then -1
      else cmp_then
        (case t of
           OneTerm x \<Rightarrow> (case t' of OneTerm y \<Rightarrow> compare x y | _ \<Rightarrow> 0)
         | TermList x \<Rightarrow> (case t' of TermList y \<Rightarrow> lexcmp compare x y | _ \<Rightarrow> 0)
         | SomeDecl x \<Rightarrow> (case t' of SomeDecl y \<Rightarrow> lexcmp compare x y | _ \<Rightarrow> 0)
         | Every k v d u \<Rightarrow> (case t' of Every k' v' d' u' \<Rightarrow>
              cmp_then
                (case k of
                   None \<Rightarrow> (case k' of None \<Rightarrow> 0 | Some _ \<Rightarrow> -1)
                 | Some x \<Rightarrow> (case k' of None \<Rightarrow> 1 | Some y \<Rightarrow> compare x y))
                (cmp_then (compare v v') (cmp_then (compare d d') (lexcmp expr_compare u u')))
            | _ \<Rightarrow> 0))
        (lexcmp with_compare w w'))"
| "with_compare (With t v) (With t' v') = cmp_then (compare t t') (compare v v')"
  by pat_completeness auto

termination
  by (relation "measure (\<lambda>x. case x of Inl (a, b) \<Rightarrow> max (size a) (size b)
       | Inr (Inl (e, f)) \<Rightarrow> max (size e) (size f) | Inr (Inr (w, u)) \<Rightarrow> max (size w) (size u))")
    (auto dest!: size_elem_le size_pair_le simp: less_max_iff_disj)

declare compare.simps [simp del] expr_compare.simps [simp del]

end
