(* ===== verification/Ordered_Tree.thy ===== *)
theory Ordered_Tree
  imports Opa_Prelude
begin

text \<open>
  Finitely branching trees with linearly ordered labels, ordered by their label and then
  lexicographically by their children.  They are the canonical forms into which the values of
  the AST are mapped: the order is an instance of \<open>linorder\<close>, so a comparison function that
  agrees with it on canonical forms inherits every law of a linear order.
\<close>

datatype 'l otree = OT 'l "'l otree list"

fun otcmp :: "'l::linorder otree \<Rightarrow> 'l otree \<Rightarrow> int" where
  "otcmp (OT l ts) (OT m us) = cmp_then (cmpi l m) (lexcmp otcmp ts us)"

lemma lexcmp_swap:
  assumes "\<And>x y. x \<in> set xs \<Longrightarrow> f y x = - f x (y :: 'a)"
  shows "lexcmp f ys xs = - lexcmp f xs ys"
  using assms
proof (induction f xs ys rule: lexcmp.induct)
  case (4 f x xs y ys)
  have "f y x = - f x y" by (rule "4.prems") simp
  then show ?case using "4" by (cases "f x y = 0") simp_all
qed simp_all

lemma otcmp_swap: "otcmp u t = - otcmp t u"
proof (induction t arbitrary: u)
  case (OT l ts)
  obtain m us where u: "u = OT m us" by (cases u)
  have "lexcmp otcmp us ts = - lexcmp otcmp ts us"
    by (rule lexcmp_swap) (rule OT.IH)
  then show ?case
    using cmpi_swap [of m l] unfolding u by (simp add: cmp_then_def)
qed

lemma otcmp_eq_0 [simp]: "otcmp t u = 0 \<longleftrightarrow> t = u"
proof (induction t arbitrary: u)
  case (OT l ts)
  obtain m us where u: "u = OT m us" by (cases u)
  have "list_all2 (\<lambda>x y. otcmp x y = 0) ts us \<longleftrightarrow> ts = us"
    using OT.IH by (induction ts arbitrary: us) (auto simp: list_all2_Cons1)
  then show ?case by (simp add: u lexcmp_eq_0)
qed

lemma otcmp_refl [simp]: "otcmp t t = 0"
  by simp

lemma lexcmp_trans:
  assumes "\<And>x y z. x \<in> set xs \<Longrightarrow> f x y \<le> 0 \<Longrightarrow> f y z \<le> 0 \<Longrightarrow> f x z \<le> 0"
    and "\<And>x y. f x y = 0 \<longleftrightarrow> x = y" and "\<And>x y. f y x = - f x y"
    and "lexcmp f xs ys \<le> 0" and "lexcmp f ys zs \<le> 0"
  shows "lexcmp f xs zs \<le> 0"
  using assms(1,4,5)
proof (induction xs arbitrary: ys zs)
  case Nil
  then show ?case by (cases zs) auto
next
  case (Cons x xs)
  from Cons.prems(2) obtain y ys' where ys: "ys = y # ys'" by (cases ys) auto
  from Cons.prems(3) ys obtain z zs' where zs: "zs = z # zs'" by (cases zs) auto
  have xy: "f x y \<le> 0" and yz: "f y z \<le> 0"
    using Cons.prems(2,3) by (auto simp: ys zs split: if_splits)
  have xz: "f x z \<le> 0" using Cons.prems(1) xy yz by force
  show ?case
  proof (cases "f x z = 0")
    case True
    then have "x = z" using assms(2) by simp
    then have eq: "x = y" "y = z" using xy yz assms(2) assms(3) [of x y] by force+
    have "lexcmp f xs zs' \<le> 0"
      by (rule Cons.IH [of ys']) (use Cons.prems eq assms(2) in \<open>auto simp: ys zs\<close>)
    then show ?thesis using True by (simp add: zs)
  next
    case False
    then show ?thesis using xz by (simp add: zs)
  qed
qed

lemma otcmp_trans: "otcmp t u \<le> 0 \<Longrightarrow> otcmp u v \<le> 0 \<Longrightarrow> otcmp t v \<le> 0"
proof (induction t arbitrary: u v)
  case (OT l ts)
  obtain m us where u: "u = OT m us" by (cases u)
  obtain n vs where v: "v = OT n vs" by (cases v)
  have lm: "l \<le> m" "m \<le> n" using OT.prems
    by (auto simp: u v cmp_then_def cmpi_def split: if_splits)
  show ?case
  proof (cases "l = n")
    case True
    then have eq: "l = m" "m = n" using lm by auto
    have "lexcmp otcmp ts vs \<le> 0"
      by (rule lexcmp_trans [of ts otcmp us vs])
        (use OT in \<open>auto simp: u v eq otcmp_swap [symmetric]\<close>)
    then show ?thesis by (simp add: v eq)
  next
    case False
    then have "l < n" using lm by simp
    then show ?thesis by (simp add: v cmp_then_def cmpi_def)
  qed
qed

instantiation otree :: (linorder) linorder
begin

definition less_eq_otree :: "'a otree \<Rightarrow> 'a otree \<Rightarrow> bool" where
  "t \<le> u \<longleftrightarrow> otcmp t u \<le> 0"

definition less_otree :: "'a otree \<Rightarrow> 'a otree \<Rightarrow> bool" where
  "t < u \<longleftrightarrow> otcmp t u < 0"

instance
proof
  fix t u v :: "'a otree"
  show "t < u \<longleftrightarrow> t \<le> u \<and> \<not> u \<le> t"
    using otcmp_swap [of t u] by (auto simp: less_eq_otree_def less_otree_def)
  show "t \<le> t" by (simp only: less_eq_otree_def otcmp_refl order_refl)
  show "t \<le> u \<Longrightarrow> u \<le> v \<Longrightarrow> t \<le> v"
    unfolding less_eq_otree_def by (rule otcmp_trans)
  show "t \<le> u \<Longrightarrow> u \<le> t \<Longrightarrow> t = u"
    using otcmp_swap [of t u] otcmp_eq_0 [of t u] by (simp add: less_eq_otree_def)
  show "t \<le> u \<or> u \<le> t"
    using otcmp_swap [of t u] by (auto simp: less_eq_otree_def)
qed

end

lemma otcmp_sign: "otcmp t u < 0 \<longleftrightarrow> t < u" "0 < otcmp t u \<longleftrightarrow> u < t"
  using otcmp_swap [of t u] by (simp_all add: less_otree_def)

lemma otcmp_range: "otcmp t u \<in> {-1, 0, 1}"
proof (induction t arbitrary: u)
  case (OT l ts)
  obtain m us where u: "u = OT m us" by (cases u)
  have "lexcmp otcmp ts us \<in> {-1, 0, 1}"
    using OT.IH by (induction "otcmp :: 'a otree cmp" ts us rule: lexcmp.induct) auto
  then show ?case by (auto simp: u cmp_then_def cmpi_def)
qed

lemma otcmp_cmpi: "otcmp = cmpi"
proof (intro ext)
  fix t u :: "'a otree"
  show "otcmp t u = cmpi t u"
    using otcmp_range [of t u] otcmp_sign [of t u] by (auto simp: cmpi_def)
qed

end
