(* ===== verification/Ast_Compare.thy ===== *)
theory Ast_Compare
  imports Ast_Value Ordered_Tree
begin

text \<open>
  \<open>Compare\<close> (ast/compare.go) is a total preorder on values.

  Every value has a canonical form \<open>canon\<close>, a tree whose root label starts with the sort order of
  the value and in which sets and objects are sorted.  \<open>Compare\<close> agrees with the linear order on
  canonical forms, so the laws of a total preorder follow, and two values are equal for
  \<open>Compare\<close> exactly when their canonical forms are the same.
\<close>

type_synonym label = "nat \<times> rat \<times> string"
type_synonym ctree = "label otree"

definition node :: "nat \<Rightarrow> ctree list \<Rightarrow> ctree" where
  "node n ts = OT (n, 0, []) ts"

fun canon :: "val \<Rightarrow> ctree"
  and canon_expr :: "expr \<Rightarrow> ctree"
  and canon_terms :: "terms \<Rightarrow> ctree"
  and canon_with :: "modifier \<Rightarrow> ctree" where
  "canon Null = node 0 []"
| "canon (Boolean b) = OT (1, if b then 1 else 0, []) []"
| "canon (Number n) = OT (2, num_rat n, []) []"
| "canon (String s) = OT (3, 0, s) []"
| "canon (Var s) = OT (4, 0, s) []"
| "canon (Ref xs) = node 5 (map canon xs)"
| "canon (Array xs) = node 6 (map canon xs)"
| "canon (Object kvs) =
     node 7 (map (\<lambda>p. node 300 [fst p, snd p])
       (sort_key fst (map (\<lambda>p. (canon (fst p), canon (snd p))) kvs)))"
| "canon (Set xs) = node 8 (sort (map canon xs))"
| "canon (ArrayComprehension t u) = node 9 [canon t, node 200 (map canon_expr u)]"
| "canon (ObjectComprehension k v u) = node 10 [canon k, canon v, node 200 (map canon_expr u)]"
| "canon (SetComprehension t u) = node 11 [canon t, node 200 (map canon_expr u)]"
| "canon (Call xs) = node 12 (map canon xs)"
| "canon_expr (Expr t i n w) =
     OT (100 + expr_sortOrder t, of_int i, if n then ''1'' else [])
       [canon_terms t, node 110 (map canon_with w)]"
| "canon_terms (OneTerm x) = canon x"
| "canon_terms (TermList xs) = node 301 (map canon xs)"
| "canon_terms (SomeDecl xs) = node 302 (map canon xs)"
| "canon_terms (Every k v d u) =
     node 303 [case k of None \<Rightarrow> OT (0, -1, []) [] | Some x \<Rightarrow> canon x,
       canon v, canon d, node 200 (map canon_expr u)]"
| "canon_with (With t v) = node 304 [canon t, canon v]"

section \<open>Agreement with the order on canonical forms\<close>

lemma otcmp_node [simp]: "otcmp (node m ts) (node n us) = cmp_then (cmpi m n) (lexcmp otcmp ts us)"
  by (auto simp: node_def cmpi_def cmp_then_def)

lemma lexcmp_agree:
  assumes "\<And>x y. x \<in> set xs \<Longrightarrow> y \<in> set ys \<Longrightarrow> f x y = otcmp (c x) (c y)"
  shows "lexcmp f xs ys = lexcmp otcmp (map c xs) (map c ys)"
  unfolding lexcmp_map by (rule lexcmp_cong) (use assms in auto)

lemma sort_agree:
  assumes "\<And>x y. x \<in> set xs \<Longrightarrow> y \<in> set xs \<Longrightarrow> f x y = otcmp (c x) (c y)"
  shows "map c (sort_by f xs) = sort (map c xs)"
proof -
  have "sort_by f xs = sort_by (\<lambda>x y. otcmp (c x) (c y)) xs"
    by (rule sort_by_cong) (use assms in auto)
  then have "map c (sort_by f xs) = sort_by otcmp (map c xs)" by (simp add: sort_by_map)
  then show ?thesis using sort_by_cmpi [of "\<lambda>x. x"] by (simp add: otcmp_cmpi)
qed

definition pair_canon :: "val \<times> val \<Rightarrow> ctree \<times> ctree" where
  "pair_canon p = (canon (fst p), canon (snd p))"

definition pair_node :: "ctree \<times> ctree \<Rightarrow> ctree" where
  "pair_node p = node 300 [fst p, snd p]"

lemma sort_pairs_agree:
  assumes "\<And>p q. p \<in> set xs \<Longrightarrow> q \<in> set xs \<Longrightarrow> f (fst p) (fst q) = otcmp (canon (fst p)) (canon (fst q))"
  shows "map pair_canon (sort_by (\<lambda>p q. f (fst p) (fst q)) xs) = sort_key fst (map pair_canon xs)"
proof -
  have "sort_by (\<lambda>p q. f (fst p) (fst q)) xs
      = sort_by (\<lambda>p q. cmpi (fst (pair_canon p)) (fst (pair_canon q))) xs"
    by (rule sort_by_cong) (use assms in \<open>auto simp: pair_canon_def otcmp_cmpi\<close>)
  then have "map pair_canon (sort_by (\<lambda>p q. f (fst p) (fst q)) xs)
      = sort_by (\<lambda>p q. cmpi (fst p) (fst q)) (map pair_canon xs)" by (simp add: sort_by_map)
  then show ?thesis by (simp add: sort_by_cmpi)
qed

lemma canon_Object:
  "canon (Object kvs) = node 7 (map pair_node (sort_key fst (map pair_canon kvs)))"
  by (simp add: pair_canon_def pair_node_def cong: map_cong)

lemma object_agree:
  assumes xx: "\<And>p q. p \<in> set x \<Longrightarrow> q \<in> set x \<Longrightarrow> f (fst p) (fst q) = otcmp (canon (fst p)) (canon (fst q))"
    and yy: "\<And>p q. p \<in> set y \<Longrightarrow> q \<in> set y \<Longrightarrow> f (fst p) (fst q) = otcmp (canon (fst p)) (canon (fst q))"
    and xy: "\<And>p q. p \<in> set x \<Longrightarrow> q \<in> set y \<Longrightarrow> f (fst p) (fst q) = otcmp (canon (fst p)) (canon (fst q))"
    and xy2: "\<And>p q. p \<in> set x \<Longrightarrow> q \<in> set y \<Longrightarrow> f (snd p) (snd q) = otcmp (canon (snd p)) (canon (snd q))"
  shows "lexcmp (\<lambda>p q. cmp_then (f (fst p) (fst q)) (f (snd p) (snd q)))
       (sort_by (\<lambda>p q. f (fst p) (fst q)) x) (sort_by (\<lambda>p q. f (fst p) (fst q)) y)
     = otcmp (canon (Object x)) (canon (Object y))"
proof -
  let ?s = "sort_by (\<lambda>p q. f (fst p) (fst q))"
  have "lexcmp (\<lambda>p q. cmp_then (f (fst p) (fst q)) (f (snd p) (snd q))) (?s x) (?s y)
      = lexcmp (\<lambda>p q. otcmp (pair_node (pair_canon p)) (pair_node (pair_canon q))) (?s x) (?s y)"
  proof (rule lexcmp_cong [OF refl refl])
    fix p q assume "p \<in> set (?s x)" "q \<in> set (?s y)"
    then have "p \<in> set x" "q \<in> set y" by simp_all
    then have "f (fst p) (fst q) = otcmp (canon (fst p)) (canon (fst q))"
        "f (snd p) (snd q) = otcmp (canon (snd p)) (canon (snd q))"
      by (rule xy, rule xy2)
    then show "cmp_then (f (fst p) (fst q)) (f (snd p) (snd q)) = otcmp (pair_node (pair_canon p)) (pair_node (pair_canon q))"
      by (simp add: pair_node_def pair_canon_def cmp_then_def)
  qed
  also have "\<dots> = lexcmp otcmp (map pair_node (map pair_canon (?s x))) (map pair_node (map pair_canon (?s y)))"
    by (simp add: lexcmp_map o_def)
  also have "map pair_canon (?s x) = sort_key fst (map pair_canon x)"
    by (rule sort_pairs_agree) (rule xx)
  also have "map pair_canon (?s y) = sort_key fst (map pair_canon y)"
    by (rule sort_pairs_agree) (rule yy)
  finally show ?thesis by (simp add: canon_Object del: canon.simps)
qed

lemma set_agree:
  assumes "\<And>a b. a \<in> set x \<Longrightarrow> b \<in> set x \<Longrightarrow> f a b = otcmp (canon a) (canon b)"
    and "\<And>a b. a \<in> set y \<Longrightarrow> b \<in> set y \<Longrightarrow> f a b = otcmp (canon a) (canon b)"
    and "\<And>a b. a \<in> set x \<Longrightarrow> b \<in> set y \<Longrightarrow> f a b = otcmp (canon a) (canon b)"
  shows "lexcmp f (sort_by f x) (sort_by f y) = otcmp (canon (Set x)) (canon (Set y))"
proof -
  have "lexcmp f (sort_by f x) (sort_by f y)
      = lexcmp otcmp (map canon (sort_by f x)) (map canon (sort_by f y))"
    by (rule lexcmp_agree) (simp add: assms(3))
  also have "map canon (sort_by f x) = sort (map canon x)"
    by (rule sort_agree) (rule assms(1))
  also have "map canon (sort_by f y) = sort (map canon y)"
    by (rule sort_agree) (rule assms(2))
  finally show ?thesis by simp
qed

definition root_order :: "ctree \<Rightarrow> nat" where
  "root_order t = (case t of OT l _ \<Rightarrow> fst l)"

lemma root_order_canon: "root_order (canon a) = sortOrder a"
  by (cases a) (simp_all add: node_def root_order_def)

lemma otcmp_root: "root_order t < root_order u \<Longrightarrow> otcmp t u = -1" "root_order u < root_order t \<Longrightarrow> otcmp t u = 1"
  by (cases t; cases u; auto simp: root_order_def cmpi_def cmp_then_def less_prod_def)+

lemma compare_diff: "sortOrder a \<noteq> sortOrder b \<Longrightarrow> compare a b = otcmp (canon a) (canon b)"
  using otcmp_root [of "canon a" "canon b"] otcmp_root [of "canon b" "canon a"]
  by (auto simp: compare.simps [of a b] root_order_canon)

lemma compare_same:
  "compare Null Null = 0"
  "compare (Boolean p) (Boolean q) = (if p = q then 0 else if \<not> p then -1 else 1)"
  "compare (Number m) (Number n) = num_compare m n"
  "compare (String s) (String t) = (if s = t then 0 else if s < t then -1 else 1)"
  "compare (Var s) (Var t) = (if s = t then 0 else if s < t then -1 else 1)"
  "compare (Ref x) (Ref y) = lexcmp compare x y"
  "compare (Array x) (Array y) = lexcmp compare x y"
  "compare (Object xs) (Object ys) =
     lexcmp (\<lambda>p q. cmp_then (compare (fst p) (fst q)) (compare (snd p) (snd q)))
       (sort_by (\<lambda>p q. compare (fst p) (fst q)) xs) (sort_by (\<lambda>p q. compare (fst p) (fst q)) ys)"
  "compare (Set x) (Set y) = lexcmp compare (sort_by compare x) (sort_by compare y)"
  "compare (ArrayComprehension k u) (ArrayComprehension k' u') =
     cmp_then (compare k k') (lexcmp expr_compare u u')"
  "compare (ObjectComprehension k v u) (ObjectComprehension k' v' u') =
     cmp_then (compare k k') (cmp_then (compare v v') (lexcmp expr_compare u u'))"
  "compare (SetComprehension k u) (SetComprehension k' u') =
     cmp_then (compare k k') (lexcmp expr_compare u u')"
  "compare (Call x) (Call y) = lexcmp compare x y"
  by (simp_all add: compare.simps)

definition agree_upto :: "nat \<Rightarrow> bool" where
  "agree_upto n \<longleftrightarrow>
     (\<forall>a b. size a < n \<longrightarrow> size b < n \<longrightarrow> compare a b = otcmp (canon a) (canon b)) \<and>
     (\<forall>e f. size e < n \<longrightarrow> size f < n \<longrightarrow> expr_compare e f = otcmp (canon_expr e) (canon_expr f)) \<and>
     (\<forall>w u. size w < n \<longrightarrow> size u < n \<longrightarrow> with_compare w u = otcmp (canon_with w) (canon_with u))"

lemma agree_uptoD:
  assumes "agree_upto n"
  shows "size a < n \<Longrightarrow> size b < n \<Longrightarrow> compare a b = otcmp (canon a) (canon b)"
    and "size e < n \<Longrightarrow> size f < n \<Longrightarrow> expr_compare e f = otcmp (canon_expr e) (canon_expr f)"
    and "size w < n \<Longrightarrow> size u < n \<Longrightarrow> with_compare w u = otcmp (canon_with w) (canon_with u)"
  using assms by (simp_all add: agree_upto_def)

lemma agree_lists:
  assumes "agree_upto n"
  shows "size_list size xs < n \<Longrightarrow> size_list size ys < n \<Longrightarrow>
      lexcmp compare xs ys = lexcmp otcmp (map canon xs) (map canon ys)"
    and "size_list size us < n \<Longrightarrow> size_list size vs < n \<Longrightarrow>
      lexcmp expr_compare us vs = lexcmp otcmp (map canon_expr us) (map canon_expr vs)"
    and "size_list size ws < n \<Longrightarrow> size_list size zs < n \<Longrightarrow>
      lexcmp with_compare ws zs = lexcmp otcmp (map canon_with ws) (map canon_with zs)"
  by (rule lexcmp_agree, rule agree_uptoD [OF assms]; auto dest: size_elem_le)+

lemma agree_set:
  assumes "agree_upto n" and "size_list size xs < n" and "size_list size ys < n"
  shows "compare (Set xs) (Set ys) = otcmp (canon (Set xs)) (canon (Set ys))"
  unfolding compare_same
  by (rule set_agree; rule agree_uptoD [OF assms(1)]; use assms(2,3) in \<open>auto dest: size_elem_le\<close>)

lemma size_pair_parts:
  "p \<in> set kvs \<Longrightarrow> size (fst p) < Suc (size_list (size_prod size size) kvs)"
  "p \<in> set kvs \<Longrightarrow> size (snd p) < Suc (size_list (size_prod size size) kvs)"
  by (cases p; auto dest: size_pair_le)+

lemma agree_object:
  assumes "agree_upto n" and "size_list (size_prod size size) xs < n"
    and "size_list (size_prod size size) ys < n"
  shows "compare (Object xs) (Object ys) = otcmp (canon (Object xs)) (canon (Object ys))"
  unfolding compare_same
  by (rule object_agree; rule agree_uptoD [OF assms(1)];
      use assms(2,3) in \<open>auto dest: size_pair_parts\<close>)

lemma agree_val:
  assumes n: "agree_upto n" and "size a < Suc n" and "size b < Suc n"
  shows "compare a b = otcmp (canon a) (canon b)"
proof (cases "sortOrder a = sortOrder b")
  case True
  show ?thesis
  proof (cases a)
    case (Set x)
    then obtain y where "b = Set y" using True by (cases b) auto
    with Set show ?thesis using assms by (simp add: agree_set del: canon.simps)
  next
    case (Object x)
    then obtain y where "b = Object y" using True by (cases b) auto
    with Object show ?thesis using assms by (simp add: agree_object del: canon.simps)
  qed (use True assms in \<open>cases b; simp add: compare_same agree_uptoD [OF n] agree_lists [OF n]
      num_compare_rat node_def cmpi_def cmp_then_def less_prod_def\<close>)+
qed (rule compare_diff)

lemma otcmp_nil:
  "otcmp (OT (0, -1, []) []) (canon x) = -1" "otcmp (canon x) (OT (0, -1, []) []) = 1"
  by (cases x; simp add: node_def cmpi_def cmp_then_def less_prod_def)+

lemma agree_key:
  assumes "agree_upto n" and "size_option size k < n" and "size_option size k' < n"
  shows "(case k of None \<Rightarrow> (case k' of None \<Rightarrow> 0 | Some _ \<Rightarrow> -1)
           | Some x \<Rightarrow> (case k' of None \<Rightarrow> 1 | Some y \<Rightarrow> compare x y))
       = otcmp (case k of None \<Rightarrow> OT (0, -1, []) [] | Some x \<Rightarrow> canon x)
           (case k' of None \<Rightarrow> OT (0, -1, []) [] | Some x \<Rightarrow> canon x)"
  using assms by (cases k; cases k') (simp_all add: otcmp_nil agree_uptoD)

lemma agree_expr:
  assumes n: "agree_upto n" and "size e < Suc n" and "size f < Suc n"
  shows "expr_compare e f = otcmp (canon_expr e) (canon_expr f)"
proof -
  obtain t i m w where e: "e = Expr t i m w" by (cases e)
  obtain t' i' m' w' where f: "f = Expr t' i' m' w'" by (cases f)
  have w: "lexcmp with_compare w w' = lexcmp otcmp (map canon_with w) (map canon_with w')"
    by (rule agree_lists [OF n]) (use assms in \<open>auto simp: e f\<close>)
  show ?thesis
  proof (cases "expr_sortOrder t = expr_sortOrder t'")
    case True
    then show ?thesis
      by (cases t; cases t'; use assms in \<open>simp add: e f expr_compare.simps w agree_key [OF n]
          agree_uptoD [OF n] agree_lists [OF n] node_def cmpi_def cmp_then_def less_prod_def\<close>)
  next
    case False
    then show ?thesis by (auto simp: e f expr_compare.simps cmpi_def cmp_then_def less_prod_def)
  qed
qed

lemma agree_all: "agree_upto n"
proof (induction n)
  case 0
  show ?case by (simp add: agree_upto_def)
next
  case (Suc n)
  have "with_compare w u = otcmp (canon_with w) (canon_with u)"
    if "size w < Suc n" "size u < Suc n" for w u
    using that by (cases w; cases u) (simp add: agree_uptoD [OF Suc] cmp_then_def)
  then show ?case
    unfolding agree_upto_def using agree_val [OF Suc] agree_expr [OF Suc] by blast
qed

lemma compare_canon: "compare a b = cmpi (canon a) (canon b)"
  using agree_uptoD(1) [OF agree_all [of "Suc (max (size a) (size b))"]] by (simp add: otcmp_cmpi)

lemma expr_compare_canon: "expr_compare a b = cmpi (canon_expr a) (canon_expr b)"
  using agree_uptoD(2) [OF agree_all [of "Suc (max (size a) (size b))"]] by (simp add: otcmp_cmpi)

lemma with_compare_canon: "with_compare a b = cmpi (canon_with a) (canon_with b)"
  using agree_uptoD(3) [OF agree_all [of "Suc (max (size a) (size b))"]] by (simp add: otcmp_cmpi)

interpretation val_cmp: total_cmp compare "\<lambda>_. True"
  by unfold_locales (auto simp: compare_canon cmpi_def split: if_splits)

interpretation expr_cmp: total_cmp expr_compare "\<lambda>_. True"
  by unfold_locales (auto simp: expr_compare_canon cmpi_def split: if_splits)

section \<open>Properties\<close>

text \<open>
  C1.  \<open>Compare\<close> is a total order on values up to its own equality: it returns -1, 0 or 1, swapping
  the arguments negates it, a value equals itself, and it is transitive.  Its equality is a
  congruence: values that compare equal compare alike with every third value.
\<close>

theorem compare_total_order:
  "compare a b \<in> {-1, 0, 1} \<and> compare a a = 0 \<and> compare b a = - compare a b \<and>
   (compare a b \<le> 0 \<longrightarrow> compare b c \<le> 0 \<longrightarrow> compare a c \<le> 0) \<and>
   (compare a b = 0 \<longrightarrow> compare a c = compare b c)"
proof (intro conjI impI)
  show "compare a b \<in> {-1, 0, 1}" by (auto simp: compare_canon cmpi_def)
  show "compare a c = compare b c" if "compare a b = 0" using that by (simp add: compare_canon)
qed (rule val_cmp.cmp_refl val_cmp.cmp_swap val_cmp.cmp_trans [of a b c]; simp)+

theorem compare_total_order_witness:
  "compare (Array [Null]) (Array [Null, String ''x'']) = -1 \<and>
   compare (Array [Null, String ''x'']) (Set []) = -1 \<and> compare (Array [Null]) (Set []) \<le> 0"
proof -
  have l: "compare (Array [Null]) (Array [Null, String ''x'']) = -1"
    "compare (Array [Null, String ''x'']) (Set []) = -1" by code_simp+
  then show ?thesis
    using compare_total_order [of "Array [Null]" "Array [Null, String ''x'']" "Set []"] by simp
qed

text \<open>
  C14.  Sets and objects compare by content: two sets whose key slices are permutations of each
  other compare equal, and so do two objects that list the same pairs in another order, provided
  no two of the keys compare equal.
\<close>

theorem compare_order_independent:
  "(mset xs = mset ys \<longrightarrow> compare (Set xs) (Set ys) = 0) \<and>
   (mset kvs = mset lws \<longrightarrow> distinct (map (canon \<circ> fst) kvs) \<longrightarrow> compare (Object kvs) (Object lws) = 0)"
proof (intro conjI impI)
  assume "mset xs = mset ys"
  then have "sort (map canon xs) = sort (map canon ys)" by (intro properties_for_sort) simp_all
  then show "compare (Set xs) (Set ys) = 0" by (simp add: compare_canon)
next
  assume m: "mset kvs = mset lws" and d: "distinct (map (canon \<circ> fst) kvs)"
  then have "distinct (map fst (map pair_canon kvs))" by (simp add: pair_canon_def comp_def)
  then have "inj_on fst (set (map pair_canon kvs))" by (simp only: distinct_map)
  then have "sort_key fst (map pair_canon kvs) = sort_key fst (map pair_canon lws)"
    using m by (intro sort_key_inj_key_eq) simp_all
  then show "compare (Object kvs) (Object lws) = 0"
    by (simp only: compare_canon canon_Object cmpi_simps)
qed

theorem compare_order_independent_witness:
  "compare (Object [(String ''a'', Null), (String ''b'', Set [])]) (Object [(String ''b'', Set []), (String ''a'', Null)]) = 0"
  using compare_order_independent [of "[]" "[]" "[(String ''a'', Null), (String ''b'', Set [])]"
      "[(String ''b'', Set []), (String ''a'', Null)]"]
  by (simp add: node_def add_mset_commute)

end
