(* ===== verification/Ast_Hash.thy ===== *)
theory Ast_Hash
  imports Ast_Compare "HOL-Library.Log_Nat"
begin

text \<open>
  Hash codes of values (the \<open>Hash\<close> methods of ast/term.go and ast/policy.go) and the key equality
  that sets, objects and edit trees use next to them.

  The string hashes come from the xxhash package and are parameters: \<open>checksum64\<close> is
  \<open>xxhash.Checksum64\<close>, applied to the text of a number out of the float64 range, and
  \<open>checksum64s\<close> is \<open>xxhash.ChecksumString64S\<close> with the package's seed, applied to strings and
  variables.  Nothing is assumed of them.
\<close>

record xxhash =
  checksum64 :: "string \<Rightarrow> hash"
  checksum64s :: "string \<Rightarrow> hash"

text \<open>A concrete instance of the hash library's functions, used where statements are evaluated.\<close>

definition xx0 :: xxhash where
  "xx0 = \<lparr>checksum64 = (\<lambda>s. of_nat (length s)), checksum64s = (\<lambda>s. of_nat (length s))\<rparr>"

section \<open>float64\<close>

text \<open>
  \<open>json.Number.Float64\<close> rounds to the nearest float64, ties to even, with 53 bits of precision and
  a least exponent of -1074; it fails where the result would be infinite.
\<close>

definition pow2 :: "int \<Rightarrow> rat" where
  "pow2 e = (if 0 \<le> e then 2 ^ nat e else 1 / 2 ^ nat (- e))"

definition binary_exponent :: "rat \<Rightarrow> int" where
  "binary_exponent q =
     (let (n, d) = quotient_of \<bar>q\<bar>; e = int (floorlog 2 (nat n)) - int (floorlog 2 (nat d))
      in if \<bar>q\<bar> < pow2 e then e - 1 else e)"

definition round_half_even :: "rat \<Rightarrow> int" where
  "round_half_even x =
     (let f = \<lfloor>x\<rfloor>; r = x - of_int f
      in if r < 1 / 2 then f else if 1 / 2 < r then f + 1 else if even f then f else f + 1)"

definition float64_of :: "rat \<Rightarrow> rat option" where
  "float64_of q =
     (if q = 0 then Some 0
      else let u = max (binary_exponent q - 52) (- 1074);
               v = of_int (round_half_even (\<bar>q\<bar> / pow2 u)) * pow2 u
           in if pow2 1024 \<le> v then None else Some (sgn q * v))"

text \<open>
  The conversion \<open>int(f)\<close> truncates; out of range its result is left to the implementation, and
  on amd64 it is the least int64.
\<close>

definition int_of_float64 :: "rat \<Rightarrow> int" where
  "int_of_float64 f =
     (let i = (if 0 \<le> f then \<lfloor>f\<rfloor> else - \<lfloor>- f\<rfloor>)
      in if int64_min \<le> i \<and> i \<le> int64_max then i else int64_min)"

text \<open>Decimal digits, and the text of a number.\<close>

fun nat_digits :: "nat \<Rightarrow> string" where
  "nat_digits n =
     (if n < 10 then [char_of (48 + n)] else nat_digits (n div 10) @ [char_of (48 + n mod 10)])"

declare nat_digits.simps [simp del]

definition int_text :: "int \<Rightarrow> string" where
  "int_text i = (if i < 0 then CHR ''-'' # nat_digits (nat (- i)) else nat_digits (nat i))"

fun num_text :: "json_number \<Rightarrow> string" where
  "num_text (Num s n f e) =
     (if s then ''-'' else []) @ nat_digits n @
     (case f of None \<Rightarrow> [] | Some (k, d) \<Rightarrow>
        CHR ''.'' # replicate (k - length (nat_digits d)) (CHR ''0'') @ nat_digits d) @
     (case e of None \<Rightarrow> [] | Some x \<Rightarrow> CHR ''e'' # int_text x)"

section \<open>The hash of a value\<close>

definition num_hash :: "xxhash \<Rightarrow> json_number \<Rightarrow> hash" where
  "num_hash X n =
     (case float64_of (num_rat n) of
        None \<Rightarrow> checksum64 X (num_text n)
      | Some f \<Rightarrow> word_of_int (int_of_float64 f))"

fun hash :: "xxhash \<Rightarrow> val \<Rightarrow> hash"
  and expr_hash :: "xxhash \<Rightarrow> expr \<Rightarrow> hash"
  and terms_hash :: "xxhash \<Rightarrow> terms \<Rightarrow> hash"
  and with_hash :: "xxhash \<Rightarrow> modifier \<Rightarrow> hash" where
  "hash X Null = 0"
| "hash X (Boolean b) = (if b then 1 else 0)"
| "hash X (Number n) = num_hash X n"
| "hash X (String s) = checksum64s X s"
| "hash X (Var s) = checksum64s X s"
| "hash X (Ref xs) = sum_list (map (hash X) xs)"
| "hash X (Array xs) = sum_list (map (hash X) xs)"
| "hash X (Object kvs) = sum_list (map (\<lambda>p. hash X (fst p) + hash X (snd p)) kvs)"
| "hash X (Set xs) = sum_list (map (hash X) xs)"
| "hash X (ArrayComprehension t u) = hash X t + sum_list (map (expr_hash X) u)"
| "hash X (ObjectComprehension k v u) = hash X k + hash X v + sum_list (map (expr_hash X) u)"
| "hash X (SetComprehension t u) = hash X t + sum_list (map (expr_hash X) u)"
| "hash X (Call xs) = sum_list (map (hash X) xs)"
| "expr_hash X (Expr t i n w) =
     word_of_int i + terms_hash X t + (if n then 1 else 0) + sum_list (map (with_hash X) w)"
| "terms_hash X (OneTerm x) = hash X x"
| "terms_hash X (TermList xs) = sum_list (map (hash X) xs)"
| "terms_hash X (SomeDecl xs) = sum_list (map (hash X) xs)"
| "terms_hash X (Every _ _ _ _) = 0"
| "with_hash X (With t v) = hash X t + hash X v"

section \<open>Key equality\<close>

text \<open>
  The closure \<open>equal\<close> that the set and object operations build from the key they look for (it is
  spelled out in \<open>set.insert\<close>, \<open>set.get\<close>, \<open>object.get\<close>, \<open>object.insert\<close> and
  \<open>EditTree.getKeyHash\<close>): identity on scalars, int64 equality for a number that parses as int64,
  equality of rationals for any other number, and \<open>Compare\<close> on everything else.
\<close>

definition key_equal :: "val \<Rightarrow> val \<Rightarrow> bool" where
  "key_equal x y =
     (case x of
        Null \<Rightarrow> x = y
      | Boolean _ \<Rightarrow> x = y
      | String _ \<Rightarrow> x = y
      | Var _ \<Rightarrow> x = y
      | Number m \<Rightarrow>
          (case num_int64 m of
             Some xi \<Rightarrow> (case y of
                 Number n \<Rightarrow> (case num_int64 n of Some yi \<Rightarrow> xi = yi | None \<Rightarrow> False)
               | _ \<Rightarrow> False)
           | None \<Rightarrow> (case y of Number n \<Rightarrow> num_rat m = num_rat n | _ \<Rightarrow> False))
      | _ \<Rightarrow> compare x y = 0)"

text \<open>
  A number is canonical when, if its value is an int64, it is written as one.  The number \<open>1.0\<close> is
  not canonical, \<open>1\<close> and \<open>0.5\<close> are.
\<close>

definition num_canonical :: "json_number \<Rightarrow> bool" where
  "num_canonical n =
     (num_int64 n \<noteq> None \<or>
      \<not> (num_rat n = of_int \<lfloor>num_rat n\<rfloor> \<and> int64_min \<le> \<lfloor>num_rat n\<rfloor> \<and> \<lfloor>num_rat n\<rfloor> \<le> int64_max))"

definition key_canonical :: "val \<Rightarrow> bool" where
  "key_canonical v = (case v of Number n \<Rightarrow> num_canonical n | _ \<Rightarrow> True)"

text \<open>A property of every number inside a value.\<close>

fun all_nums :: "(json_number \<Rightarrow> bool) \<Rightarrow> val \<Rightarrow> bool"
  and expr_nums :: "(json_number \<Rightarrow> bool) \<Rightarrow> expr \<Rightarrow> bool"
  and terms_nums :: "(json_number \<Rightarrow> bool) \<Rightarrow> terms \<Rightarrow> bool"
  and with_nums :: "(json_number \<Rightarrow> bool) \<Rightarrow> modifier \<Rightarrow> bool" where
  "all_nums P Null = True"
| "all_nums P (Boolean b) = True"
| "all_nums P (Number n) = P n"
| "all_nums P (String s) = True"
| "all_nums P (Var s) = True"
| "all_nums P (Ref xs) = list_all (all_nums P) xs"
| "all_nums P (Array xs) = list_all (all_nums P) xs"
| "all_nums P (Object kvs) = list_all (\<lambda>p. all_nums P (fst p) \<and> all_nums P (snd p)) kvs"
| "all_nums P (Set xs) = list_all (all_nums P) xs"
| "all_nums P (ArrayComprehension t u) = (all_nums P t \<and> list_all (expr_nums P) u)"
| "all_nums P (ObjectComprehension k v u) = (all_nums P k \<and> all_nums P v \<and> list_all (expr_nums P) u)"
| "all_nums P (SetComprehension t u) = (all_nums P t \<and> list_all (expr_nums P) u)"
| "all_nums P (Call xs) = list_all (all_nums P) xs"
| "expr_nums P (Expr t i n w) = (terms_nums P t \<and> list_all (with_nums P) w)"
| "terms_nums P (OneTerm x) = all_nums P x"
| "terms_nums P (TermList xs) = list_all (all_nums P) xs"
| "terms_nums P (SomeDecl xs) = list_all (all_nums P) xs"
| "terms_nums P (Every k v d u) =
     ((case k of None \<Rightarrow> True | Some x \<Rightarrow> all_nums P x) \<and> all_nums P v \<and> all_nums P d \<and>
      list_all (expr_nums P) u)"
| "with_nums P (With t v) = (all_nums P t \<and> all_nums P v)"

definition num_float64 :: "json_number \<Rightarrow> bool" where
  "num_float64 n = (float64_of (num_rat n) \<noteq> None)"

section \<open>The hash respects the order\<close>

text \<open>
  The hash of a value whose numbers are in the float64 range is a function of its canonical form.
\<close>

fun ctree_hash :: "xxhash \<Rightarrow> ctree \<Rightarrow> hash" where
  "ctree_hash X (OT (n, q, s) ts) =
     (if n = 1 then (if q = 0 then 0 else 1)
      else if n = 2 then (case float64_of q of None \<Rightarrow> 0 | Some f \<Rightarrow> word_of_int (int_of_float64 f))
      else if n = 3 \<or> n = 4 then checksum64s X s
      else if n = 303 then 0
      else if 100 \<le> n \<and> n \<le> 103
        then word_of_int \<lfloor>q\<rfloor> + (if s = [] then 0 else 1) + sum_list (map (ctree_hash X) ts)
      else sum_list (map (ctree_hash X) ts))"

lemma ctree_hash_node:
  "n \<notin> {1, 2, 3, 4, 303, 100, 101, 102, 103} \<Longrightarrow>
     ctree_hash X (node n ts) = sum_list (map (ctree_hash X) ts)"
  by (auto simp: node_def)

lemma sum_list_map_perm:
  "mset xs = mset ys \<Longrightarrow> sum_list (map f xs) = (sum_list (map f ys) :: 'a::comm_monoid_add)"
  by (metis mset_map sum_mset_sum_list)

lemma sum_list_map_sort_key:
  "sum_list (map f (sort_key k xs)) = (sum_list (map f xs) :: 'a::comm_monoid_add)"
  by (rule sum_list_map_perm) simp

lemma hash_canon:
  "all_nums num_float64 v \<Longrightarrow> hash X v = ctree_hash X (canon v)"
  "expr_nums num_float64 e \<Longrightarrow> expr_hash X e = ctree_hash X (canon_expr e)"
  "terms_nums num_float64 t \<Longrightarrow> terms_hash X t = ctree_hash X (canon_terms t)"
  "with_nums num_float64 w \<Longrightarrow> with_hash X w = ctree_hash X (canon_with w)"
proof (induction v and e and t and w)
  case (Expr t i n w)
  have "expr_sortOrder t \<le> 3" by (cases t) auto
  with Expr show ?case
    by (auto simp: ctree_hash_node list_all_iff o_def algebra_simps cong: map_cong)
next
  case (Object kvs)
  have "sum_list (map (\<lambda>p. hash X (fst p) + hash X (snd p)) kvs)
      = sum_list (map (\<lambda>p. ctree_hash X (fst (pair_canon p)) + ctree_hash X (snd (pair_canon p))) kvs)"
    using Object by (intro arg_cong [of _ _ sum_list] map_cong refl)
      (fastforce simp: list_all_iff pair_canon_def elim!: fsts.cases snds.cases)
  then show ?case
    by (simp add: canon_Object ctree_hash_node sum_list_map_sort_key pair_node_def o_def
        del: canon.simps)
qed (auto simp: ctree_hash_node sum_list_map_sort_key list_all_iff num_hash_def num_float64_def o_def
    node_def add.assoc cong: map_cong split: option.splits)


lemma compare_eq_canon: "compare a b = 0 \<longleftrightarrow> canon a = canon b"
  by (simp add: compare_canon)

lemma hash_respects_compare:
  assumes "all_nums num_float64 a" and "all_nums num_float64 b" and "compare a b = 0"
  shows "hash X a = hash X b"
  using assms by (simp add: hash_canon(1) compare_eq_canon)

lemma canon_scalar_eq:
  "canon Null = canon y \<longleftrightarrow> Null = y" "canon (Boolean b) = canon y \<longleftrightarrow> Boolean b = y"
  "canon (String s) = canon y \<longleftrightarrow> String s = y" "canon (Var s) = canon y \<longleftrightarrow> Var s = y"
  by (cases y; auto simp: node_def)+

lemma key_equal_imp_compare:
  assumes "key_equal x y"
  shows "compare x y = 0"
proof (cases x)
  case (Number m)
  then obtain n where "y = Number n"
    using assms by (cases y) (auto simp: key_equal_def split: option.splits)
  with Number assms show ?thesis
    by (auto simp: key_equal_def compare_same num_compare_def split: option.splits)
qed (use assms in \<open>simp_all add: key_equal_def compare_eq_canon\<close>)

lemma num_canonical_int64:
  assumes "num_canonical n" and "num_rat n = of_int i" and "int64_min \<le> i" and "i \<le> int64_max"
  shows "num_int64 n = Some i"
proof -
  from assms have "num_int64 n \<noteq> None" by (simp add: num_canonical_def)
  then obtain j where j: "num_int64 n = Some j" by blast
  then have "num_rat n = of_int j" by (rule num_int64_rat)
  with assms(2) j show ?thesis by simp
qed

lemma key_equal_number:
  assumes "num_canonical m" and "num_canonical n"
  shows "key_equal (Number m) (Number n) \<longleftrightarrow> num_rat m = num_rat n"
proof (cases "num_int64 m")
  case None
  then show ?thesis by (simp add: key_equal_def)
next
  case (Some i)
  then have i: "num_rat m = of_int i" "int64_min \<le> i" "i \<le> int64_max"
    using num_int64_rat num_int64_range by blast+
  show ?thesis
  proof (cases "num_int64 n")
    case None
    then have "num_rat n \<noteq> of_int i" using num_canonical_int64 [OF assms(2) _ i(2,3)] by auto
    then show ?thesis using Some None i(1) by (simp add: key_equal_def)
  next
    case (Some j)
    then have "num_rat n = of_int j" by (rule num_int64_rat)
    then show ?thesis using Some \<open>num_int64 m = Some i\<close> i(1) by (simp add: key_equal_def)
  qed
qed

lemma key_equal_other:
  assumes "sortOrder x \<noteq> 2"
  shows "key_equal x y \<longleftrightarrow> compare x y = 0"
  using assms by (cases x) (simp_all only: key_equal_def val.case compare_eq_canon canon_scalar_eq
      sortOrder.simps simp_thms)

lemma key_equal_compare:
  assumes "key_canonical x" and "key_canonical y"
  shows "key_equal x y \<longleftrightarrow> compare x y = 0"
proof (cases "sortOrder x = 2")
  case True
  then obtain m where x: "x = Number m" by (cases x) auto
  show ?thesis
  proof (cases "sortOrder y = 2")
    case True
    then obtain n where y: "y = Number n" by (cases y) auto
    show ?thesis using assms
      by (simp add: x y key_equal_number key_canonical_def compare_same num_compare_rat)
  next
    case False
    then have "\<not> key_equal x y" by (cases y) (auto simp: x key_equal_def split: option.splits)
    moreover have "compare x y \<noteq> 0" using False by (auto simp: x compare.simps [of "Number m" y])
    ultimately show ?thesis by simp
  qed
qed (rule key_equal_other)

section \<open>Properties\<close>



text \<open>
  C7.  The key equality that the set and object operations inline decides \<open>Compare\<close> equality on
  keys in canonical form.
\<close>

theorem key_equal_iff_compare:
  assumes "key_canonical x" and "key_canonical y"
  shows "key_equal x y \<longleftrightarrow> compare x y = 0"
  using assms by (rule key_equal_compare)

theorem key_equal_iff_compare_witness:
  "key_canonical (Number (intNumber 7)) \<and> key_equal (Number (intNumber 7)) (Number (intNumber 7))"
proof -
  have c: "key_canonical (Number (intNumber 7))"
    by (simp add: key_canonical_def num_canonical_def intNumber_def int64_min_def int64_max_def)
  show ?thesis using key_equal_iff_compare [OF c c] c by (simp add: val_cmp.cmp_refl)
qed

end
