(* ===== verification/Ast_Term.thy ===== *)
theory Ast_Term
  imports Ast_Hash
begin

text \<open>
  Operations on terms and references (ast/term.go): equality, groundness, constants, document
  lookup with \<open>Find\<close>, and the operations on \<open>Ref\<close>.

  Lookups in sets and objects are stated here on the slice of their keys, with the key equality of
  the code: \<open>set_get\<close> and \<open>object_get\<close> are the contract that the hash tables of \<open>Ast_Set\<close> and
  \<open>Ast_Object\<close> implement.
\<close>

section \<open>Equality, ground and constant values\<close>

definition term_equal :: "val \<Rightarrow> val \<Rightarrow> bool" where
  "term_equal a b =
     (case a of
        Null \<Rightarrow> (case b of Null \<Rightarrow> True | _ \<Rightarrow> False)
      | Boolean x \<Rightarrow> (case b of Boolean y \<Rightarrow> x = y | _ \<Rightarrow> False)
      | Number x \<Rightarrow> (case b of Number y \<Rightarrow> compare (Number x) (Number y) = 0 | _ \<Rightarrow> False)
      | String x \<Rightarrow> (case b of String y \<Rightarrow> x = y | _ \<Rightarrow> False)
      | Var x \<Rightarrow> (case b of Var y \<Rightarrow> x = y | _ \<Rightarrow> False)
      | _ \<Rightarrow> compare a b = 0)"

text \<open>
  An expression whose terms are a list has at least the operator; the code drops it before it
  looks at the operands.
\<close>

fun isGround :: "val \<Rightarrow> bool"
  and expr_isGround :: "expr \<Rightarrow> bool"
  and terms_isGround :: "terms \<Rightarrow> bool" where
  "isGround (Var _) = False"
| "isGround (Ref xs) = (case xs of [] \<Rightarrow> True | _ # ts \<Rightarrow> list_all isGround ts)"
| "isGround (Array xs) = list_all isGround xs"
| "isGround (Object kvs) = list_all (\<lambda>p. isGround (fst p) \<and> isGround (snd p)) kvs"
| "isGround (Set xs) = list_all isGround xs"
| "isGround (ArrayComprehension t u) = (isGround t \<and> list_all expr_isGround u)"
| "isGround (ObjectComprehension k v u) = (isGround k \<and> isGround v \<and> list_all expr_isGround u)"
| "isGround (SetComprehension t u) = (isGround t \<and> list_all expr_isGround u)"
| "isGround (Call xs) = list_all isGround xs"
| "isGround _ = True"
| "expr_isGround (Expr t _ _ _) = terms_isGround t"
| "terms_isGround (TermList xs) = (case xs of [] \<Rightarrow> True | _ # ts \<Rightarrow> list_all isGround ts)"
| "terms_isGround (OneTerm x) = isGround x"
| "terms_isGround _ = True"

fun isConstant :: "val \<Rightarrow> bool" where
  "isConstant (Array xs) = list_all isConstant xs"
| "isConstant (Object kvs) = list_all (\<lambda>p. isConstant (fst p) \<and> isConstant (snd p)) kvs"
| "isConstant (Set xs) = list_all isConstant xs"
| "isConstant (Var _) = False"
| "isConstant (Ref _) = False"
| "isConstant (ArrayComprehension _ _) = False"
| "isConstant (ObjectComprehension _ _ _) = False"
| "isConstant (SetComprehension _ _) = False"
| "isConstant (Call _) = False"
| "isConstant _ = True"

fun isComprehension :: "val \<Rightarrow> bool" where
  "isComprehension (ArrayComprehension _ _) = True"
| "isComprehension (ObjectComprehension _ _ _) = True"
| "isComprehension (SetComprehension _ _) = True"
| "isComprehension _ = False"

fun isScalar :: "val \<Rightarrow> bool" where
  "isScalar (String _) = True"
| "isScalar (Number _) = True"
| "isScalar (Boolean _) = True"
| "isScalar Null = True"
| "isScalar _ = False"

section \<open>Lookup\<close>

definition set_get :: "val list \<Rightarrow> val \<Rightarrow> val option" where
  "set_get xs x = List.find (key_equal x) xs"

definition set_contains :: "val list \<Rightarrow> val \<Rightarrow> bool" where
  "set_contains xs x = (set_get xs x \<noteq> None)"

definition object_get :: "(val \<times> val) list \<Rightarrow> val \<Rightarrow> val option" where
  "object_get kvs k = map_option snd (List.find (\<lambda>p. key_equal k (fst p)) kvs)"

definition array_get :: "val list \<Rightarrow> val \<Rightarrow> val option" where
  "array_get xs pos =
     (case pos of
        Number n \<Rightarrow> (case num_int64 n of
            Some i \<Rightarrow> if 0 \<le> i \<and> i < int (length xs) then Some (xs ! nat i) else None
          | None \<Rightarrow> None)
      | _ \<Rightarrow> None)"

text \<open>\<open>Term.Get\<close>.\<close>

definition term_get :: "val \<Rightarrow> val \<Rightarrow> val option" where
  "term_get t name =
     (case t of
        Object kvs \<Rightarrow> object_get kvs name
      | Array xs \<Rightarrow> array_get xs name
      | Set xs \<Rightarrow> if set_contains xs name then Some name else None
      | _ \<Rightarrow> None)"

text \<open>
  The \<open>Find\<close> methods: the value at a path, or \<open>None\<close> for \<open>errFindNotFound\<close>.  A call is not found
  even at the empty path.  A set returns the looked-up key, not the stored element.
\<close>

fun find :: "val \<Rightarrow> ref \<Rightarrow> val option" where
  "find v [] = (case v of Call _ \<Rightarrow> None | _ \<Rightarrow> Some v)"
| "find v (p # ps) =
     (case v of
        Array xs \<Rightarrow>
          (case p of
             Number n \<Rightarrow> (case num_int64 n of
                 Some i \<Rightarrow> if i < 0 \<or> int (length xs) \<le> i then None else find (xs ! nat i) ps
               | None \<Rightarrow> None)
           | _ \<Rightarrow> None)
      | Set xs \<Rightarrow> if set_contains xs p then find p ps else None
      | Object kvs \<Rightarrow> (case object_get kvs p of None \<Rightarrow> None | Some w \<Rightarrow> find w ps)
      | _ \<Rightarrow> None)"

section \<open>References\<close>

definition ref_append :: "ref \<Rightarrow> val \<Rightarrow> ref" where
  "ref_append r t = r @ [t]"

text \<open>A position outside the reference makes the code panic: the explicit check, or the index.\<close>

definition ref_insert :: "ref \<Rightarrow> val \<Rightarrow> int \<Rightarrow> ref option" where
  "ref_insert r x pos =
     (if pos = int (length r) then Some (ref_append r x)
      else if int (length r) + 1 < pos then None
      else if pos < 0 \<or> int (length r) < pos then None
      else Some (take (nat pos) r @ x # drop (nat pos) r))"

definition ref_extend :: "ref \<Rightarrow> ref \<Rightarrow> ref option" where
  "ref_extend r other =
     (case other of
        Var v # rest \<Rightarrow> Some (r @ String v # rest)
      | _ \<Rightarrow> None)"

definition ref_concat :: "ref \<Rightarrow> val list \<Rightarrow> ref" where
  "ref_concat r ts = (if ts = [] then r else r @ ts)"

fun first_index :: "(val \<Rightarrow> bool) \<Rightarrow> nat \<Rightarrow> val list \<Rightarrow> nat option" where
  "first_index P i [] = None"
| "first_index P i (x # xs) = (if P x then Some i else first_index P (Suc i) xs)"

text \<open>\<open>Dynamic\<close> is -1 where every operand is constant; it panics on an empty reference.\<close>

definition ref_dynamic :: "ref \<Rightarrow> int option" where
  "ref_dynamic r =
     (case r of
        [] \<Rightarrow> None
      | Call _ # _ \<Rightarrow> Some 0
      | _ # ts \<Rightarrow> (case first_index (\<lambda>x. \<not> isConstant x) 1 ts of
            Some i \<Rightarrow> Some (int i) | None \<Rightarrow> Some (-1)))"

definition ref_constantPrefix :: "ref \<Rightarrow> ref option" where
  "ref_constantPrefix r =
     (case ref_dynamic r of
        None \<Rightarrow> None
      | Some i \<Rightarrow> if i < 0 then Some r else Some (take (nat i) r))"

definition ref_dynamicSuffix :: "ref \<Rightarrow> ref option" where
  "ref_dynamicSuffix r =
     (case ref_dynamic r of
        None \<Rightarrow> None
      | Some i \<Rightarrow> if i < 0 then Some [] else Some (drop (nat i) r))"

definition ref_stringPrefix :: "ref \<Rightarrow> ref" where
  "ref_stringPrefix r =
     (case r of
        [] \<Rightarrow> []
      | h # ts \<Rightarrow> h # takeWhile (\<lambda>x. case x of String _ \<Rightarrow> True | _ \<Rightarrow> False) ts)"

definition ref_groundPrefix :: "ref \<Rightarrow> ref" where
  "ref_groundPrefix r = (case r of [] \<Rightarrow> [] | h # ts \<Rightarrow> h # takeWhile isGround ts)"

fun ref_hasPrefix :: "ref \<Rightarrow> ref \<Rightarrow> bool" where
  "ref_hasPrefix r [] = True"
| "ref_hasPrefix [] (y # ys) = False"
| "ref_hasPrefix (x # xs) (y # ys) = (term_equal x y \<and> ref_hasPrefix xs ys)"

definition ref_isNested :: "ref \<Rightarrow> bool" where
  "ref_isNested r = list_ex (\<lambda>x. case x of Ref _ \<Rightarrow> True | _ \<Rightarrow> False) r"

definition ref_equal :: "ref \<Rightarrow> ref \<Rightarrow> bool" where
  "ref_equal r s = (compare (Ref r) (Ref s) = 0)"

section \<open>Lemmas\<close>

lemma term_equal_compare: "term_equal a b \<longleftrightarrow> compare a b = 0"
proof (cases a)
  case (Number m)
  show ?thesis
  proof (cases "sortOrder b = 2")
    case True
    then obtain n where "b = Number n" by (cases b) auto
    then show ?thesis by (simp add: term_equal_def Number)
  next
    case False
    then show ?thesis by (cases b) (simp_all add: term_equal_def Number compare.simps)
  qed
qed (cases b; simp add: term_equal_def compare_eq_canon node_def)+

lemma ref_hasPrefix_iff:
  "ref_hasPrefix r s \<longleftrightarrow> length s \<le> length r \<and> lexcmp compare (take (length s) r) s = 0"
  by (induction r s rule: ref_hasPrefix.induct) (auto simp: term_equal_compare)

lemma lexcmp_compare_canon: "lexcmp compare xs ys = 0 \<longleftrightarrow> map canon xs = map canon ys"
  unfolding list.rel_eq [symmetric] list_all2_map1 list_all2_map2 lexcmp_eq_0 compare_eq_canon ..

lemma ref_hasPrefix_canon:
  "ref_hasPrefix r s \<longleftrightarrow> (\<exists>ts. map canon r = map canon s @ ts)"
proof
  assume "ref_hasPrefix r s"
  then have "map canon (take (length s) r) = map canon s"
    by (simp add: ref_hasPrefix_iff lexcmp_compare_canon)
  then have "map canon r = map canon s @ map canon (drop (length s) r)"
    by (metis append_take_drop_id map_append)
  then show "\<exists>ts. map canon r = map canon s @ ts" ..
next
  assume "\<exists>ts. map canon r = map canon s @ ts"
  then obtain ts where ts: "map canon r = map canon s @ ts" ..
  have "map canon (take (length s) r) = map canon s"
    using arg_cong [OF ts, of "take (length s)"] by (simp add: take_map)
  moreover have "length s \<le> length r" using arg_cong [OF ts, of length] by simp
  ultimately show "ref_hasPrefix r s" by (simp add: ref_hasPrefix_iff lexcmp_compare_canon)
qed

lemma find_append:
  "find v (ps @ qs) = (case find v ps of None \<Rightarrow> None | Some w \<Rightarrow> find w qs)"
proof (induction v ps rule: find.induct)
  case (1 v)
  then show ?case by (cases v; cases qs) auto
next
  case (2 v p ps)
  then show ?case by (cases v) (auto split: val.split option.split)
qed

lemma first_index_Some:
  "first_index P i xs = Some j \<Longrightarrow>
     \<exists>ys x zs. xs = ys @ x # zs \<and> P x \<and> list_all (\<lambda>x. \<not> P x) ys \<and> j = i + length ys"
proof (induction P i xs rule: first_index.induct)
  case (2 P i x xs)
  show ?case
  proof (cases "P x")
    case True
    with "2.prems" have "x # xs = [] @ x # xs \<and> P x \<and> list_all (\<lambda>x. \<not> P x) [] \<and> j = i + length ([]::val list)"
      by simp
    then show ?thesis by blast
  next
    case False
    with "2" obtain ys y zs where
      "xs = ys @ y # zs" "P y" "list_all (\<lambda>x. \<not> P x) ys" "j = Suc i + length ys" by auto
    with False have "x # xs = (x # ys) @ y # zs \<and> P y \<and> list_all (\<lambda>x. \<not> P x) (x # ys) \<and>
        j = i + length (x # ys)" by simp
    then show ?thesis by blast
  qed
qed simp

lemma first_index_None: "first_index P i xs = None \<longleftrightarrow> list_all (\<lambda>x. \<not> P x) xs"
  by (induction P i xs rule: first_index.induct) auto

lemma ref_dynamic_Some:
  assumes "ref_dynamic r = Some i"
  shows "i = -1 \<or> 0 \<le> i \<and> i < int (length r)"
  using assms by (auto simp: ref_dynamic_def dest!: first_index_Some
      split: list.splits val.splits option.splits)

text \<open>What \<open>Dynamic\<close> finds: the constant operands before the first that is not.\<close>

lemma ref_dynamic_split:
  assumes "ref_dynamic (h # ts) = Some i" and "sortOrder h \<noteq> 12"
  shows "(i = -1 \<and> list_all isConstant ts) \<or>
    (\<exists>us x vs. ts = us @ x # vs \<and> list_all isConstant us \<and> \<not> isConstant x \<and> i = int (Suc (length us)))"
proof -
  from assms have *: "(case first_index (\<lambda>x. \<not> isConstant x) 1 ts of
      Some i \<Rightarrow> Some (int i) | None \<Rightarrow> Some (-1)) = Some i"
    by (cases h) (auto simp: ref_dynamic_def)
  show ?thesis
  proof (cases "first_index (\<lambda>x. \<not> isConstant x) 1 ts")
    case None
    then have "list_all isConstant ts" by (simp add: first_index_None)
    moreover have "i = -1" using * None by simp
    ultimately show ?thesis by simp
  next
    case (Some j)
    then obtain us x vs where "ts = us @ x # vs" "\<not> isConstant x" "list_all isConstant us"
        "j = Suc (length us)"
      using first_index_Some [OF Some] by auto
    moreover have "i = int j" using * Some by simp
    ultimately show ?thesis by blast
  qed
qed

lemma isConstant_isGround: "isConstant v \<Longrightarrow> isGround v"
  by (induction v rule: isConstant.induct) (auto simp: list_all_iff)

section \<open>Properties\<close>

text \<open>
  \<open>Term.Equal\<close>, with its fast paths for scalars, decides the same relation as \<open>Compare\<close>.
\<close>

theorem term_equal_iff_compare: "term_equal a b \<longleftrightarrow> compare a b = 0"
  by (rule term_equal_compare)

text \<open>
  \<open>HasPrefix\<close> is the prefix relation on canonical forms; it is reflexive and transitive, and
  two references that are prefixes of each other are equal.
\<close>

theorem ref_hasPrefix_order:
  "(ref_hasPrefix r s \<longleftrightarrow> (\<exists>ts. map canon r = map canon s @ ts)) \<and>
   ref_hasPrefix r r \<and>
   (ref_hasPrefix r s \<and> ref_hasPrefix s t \<longrightarrow> ref_hasPrefix r t) \<and>
   (ref_hasPrefix r s \<and> ref_hasPrefix s r \<longrightarrow> ref_equal r s)"
proof -
  let ?p = "\<lambda>r s. \<exists>ts. map canon r = map canon s @ ts"
  have "?p r r" by simp
  moreover have "?p r t" if "?p r s" "?p s t" using that by (metis append.assoc)
  moreover have "map canon r = map canon s" if "?p r s" "?p s r"
    using that by (metis append.assoc append_Nil2 append_is_Nil_conv same_append_eq)
  moreover have "ref_equal r s" if "map canon r = map canon s"
    using that by (simp add: ref_equal_def compare_eq_canon)
  ultimately show ?thesis unfolding ref_hasPrefix_canon by blast
qed

theorem ref_hasPrefix_order_witness:
  "ref_hasPrefix [Var ''data'', String ''a'', String ''b''] [Var ''data'', String ''a''] \<and>
   ref_hasPrefix [Var ''data'', String ''a''] [Var ''data''] \<and>
   ref_hasPrefix [Var ''data'', String ''a'', String ''b''] [Var ''data'']"
proof -
  have "ref_hasPrefix [Var ''data'', String ''a'', String ''b''] [Var ''data'', String ''a'']"
    "ref_hasPrefix [Var ''data'', String ''a''] [Var ''data'']" by (simp_all add: term_equal_def)
  then show ?thesis
    using ref_hasPrefix_order [of "[Var ''data'', String ''a'', String ''b'']"
        "[Var ''data'', String ''a'']" "[Var ''data'']"] by simp
qed

text \<open>
  Lookup composes along a path: \<open>Find\<close> with a concatenated path is \<open>Find\<close> with the first part
  and then, in what it found, with the second.
\<close>

theorem find_compose:
  "find v (ps @ qs) = (case find v ps of None \<Rightarrow> None | Some w \<Rightarrow> find w qs)"
  by (rule find_append)

text \<open>
  \<open>ConstantPrefix\<close> and \<open>DynamicSuffix\<close> cut a reference in two: together they give it back, every
  operand of the prefix after its head is constant (and so ground), and the suffix, if there is
  one, starts with an operand that is not constant, or the reference starts with a call.
\<close>

theorem ref_prefix_suffix:
  assumes "r \<noteq> []"
  shows "\<exists>p s. ref_constantPrefix r = Some p \<and> ref_dynamicSuffix r = Some s \<and> p @ s = r \<and>
    list_all (\<lambda>x. isConstant x \<and> isGround x) (tl p) \<and>
    (s \<noteq> [] \<longrightarrow> \<not> isConstant (hd s))"
proof -
  obtain h ts where r: "r = h # ts" using assms by (cases r) auto
  show ?thesis
  proof (cases "sortOrder h = 12")
    case True
    then obtain xs where "h = Call xs" by (cases h) auto
    then show ?thesis by (simp add: r ref_constantPrefix_def ref_dynamicSuffix_def ref_dynamic_def)
  next
    case False
    have "ref_dynamic r \<noteq> None"
      by (cases "first_index (\<lambda>x. \<not> isConstant x) 1 ts"; cases h) (simp_all add: r ref_dynamic_def)
    then obtain i where i: "ref_dynamic r = Some i" by blast
    from ref_dynamic_split [of h ts i] i False r consider
        "i = -1" "list_all isConstant ts"
      | us x vs where "ts = us @ x # vs" "list_all isConstant us" "\<not> isConstant x" "i = int (Suc (length us))"
      by auto
    then show ?thesis
      by cases (use i isConstant_isGround in \<open>auto simp: r ref_constantPrefix_def
          ref_dynamicSuffix_def list_all_iff nat_add_distrib\<close>)
  qed
qed

theorem ref_prefix_suffix_witness:
  "ref_constantPrefix [Var ''data'', String ''a'', Var ''x''] = Some [Var ''data'', String ''a''] \<and>
   ref_dynamicSuffix [Var ''data'', String ''a'', Var ''x''] = Some [Var ''x''] \<and>
   (\<exists>p s. ref_constantPrefix [Var ''data'', String ''a'', Var ''x''] = Some p \<and> p @ s = [Var ''data'', String ''a'', Var ''x''])"
  using ref_prefix_suffix [of "[Var ''data'', String ''a'', Var ''x'']"]
  by (auto simp: ref_constantPrefix_def ref_dynamicSuffix_def ref_dynamic_def)

end
