(* ===== verification/Hash_Table.thy ===== *)
theory Hash_Table
  imports Opa_Prelude
begin

text \<open>
  The hash index of \<open>ast.set\<close>: a Go map from hash codes to elements with linear probing.

  \<open>probe\<close> is the loop that \<open>set.insert\<close>, \<open>set.get\<close> and \<open>EditTree.getKeyHash\<close> share: from the
  hash of a key, step to the next hash code (with wrap-around) until a free slot or an element
  that equals the key is met.  The loop may run forever on a full table, so it is a partial
  function; \<open>probe_terminates\<close> shows that it returns as long as a slot is free.

  The locale \<open>hash_keys\<close> is what the table asks of its keys: on the carrier, key equality is
  an equivalence that the hash respects.
\<close>

partial_function (option) probe :: "('a \<Rightarrow> bool) \<Rightarrow> (hash \<rightharpoonup> 'a) \<Rightarrow> hash \<Rightarrow> (hash \<times> 'a option) option" where
  "probe eq m h =
     (case m h of
        None \<Rightarrow> Some (h, None)
      | Some c \<Rightarrow> if eq c then Some (h, Some c) else probe eq m (h + 1))"

declare probe.simps [code]

text \<open>Slots from a start slot on, as natural-number offsets.\<close>

lemma probe_steps:
  assumes "\<And>j. j < k \<Longrightarrow> \<exists>c. m (h + of_nat j) = Some c \<and> \<not> eq c"
  shows "probe eq m h = probe eq m (h + of_nat k)"
  using assms
proof (induction k arbitrary: h)
  case (Suc k)
  obtain c where c: "m h = Some c" "\<not> eq c" using Suc.prems [of 0] by auto
  have "probe eq m h = probe eq m (h + 1)" by (subst probe.simps) (simp add: c)
  also have "\<dots> = probe eq m (h + 1 + of_nat k)"
  proof (rule Suc.IH)
    fix j assume "j < k"
    then show "\<exists>c. m (h + 1 + of_nat j) = Some c \<and> \<not> eq c"
      using Suc.prems [of "Suc j"] by (simp add: add.assoc)
  qed
  finally show ?case by (simp add: add.assoc)
qed simp

lemma probe_found:
  assumes "\<And>j. j < k \<Longrightarrow> \<exists>c. m (h + of_nat j) = Some c \<and> \<not> eq c"
    and "m (h + of_nat k) = Some c" and "eq c"
  shows "probe eq m h = Some (h + of_nat k, Some c)"
proof -
  have "probe eq m h = probe eq m (h + of_nat k)" by (rule probe_steps) (rule assms(1))
  then show ?thesis using assms(2,3) by (simp add: probe.simps [of eq m "h + of_nat k"])
qed

lemma probe_free:
  assumes "\<And>j. j < k \<Longrightarrow> \<exists>c. m (h + of_nat j) = Some c \<and> \<not> eq c"
    and "m (h + of_nat k) = None"
  shows "probe eq m h = Some (h + of_nat k, None)"
proof -
  have "probe eq m h = probe eq m (h + of_nat k)" by (rule probe_steps) (rule assms(1))
  then show ?thesis using assms(2) by (simp add: probe.simps [of eq m "h + of_nat k"])
qed

lemma free_slot:
  fixes m :: "hash \<rightharpoonup> 'a"
  assumes "m s = None"
  obtains k where "m (h + of_nat k) = None" and "\<And>j. j < k \<Longrightarrow> m (h + of_nat j) \<noteq> None"
proof -
  have "m (h + of_nat (unat (s - h))) = None" using assms by simp
  then have "\<exists>k. m (h + of_nat k) = None" ..
  then obtain k where "m (h + of_nat k) = None" "\<And>j. j < k \<Longrightarrow> m (h + of_nat j) \<noteq> None"
    using exists_least_iff [of "\<lambda>k. m (h + of_nat k) = None"] by blast
  then show thesis by (rule that)
qed

text \<open>The loop returns whenever the table has a free slot, and says what it found.\<close>

lemma probe_terminates:
  fixes m :: "hash \<rightharpoonup> 'a"
  assumes "m s = None"
  shows "\<exists>k r. probe eq m h = Some (h + of_nat k, r) \<and>
    (\<forall>j<k. \<exists>c. m (h + of_nat j) = Some c \<and> \<not> eq c) \<and> m (h + of_nat k) = r \<and>
    (case r of None \<Rightarrow> True | Some c \<Rightarrow> eq c)"
proof -
  obtain n where n: "m (h + of_nat n) = None" "\<And>j. j < n \<Longrightarrow> m (h + of_nat j) \<noteq> None"
    using free_slot [where m = m and s = s and h = h, OF assms] by blast
  show ?thesis
  proof (cases "\<exists>j<n. \<exists>c. m (h + of_nat j) = Some c \<and> eq c")
    case True
    define P where "P k \<longleftrightarrow> (\<exists>c. m (h + of_nat k) = Some c \<and> eq c)" for k
    define k where "k = (LEAST j. P j)"
    from True obtain i where i: "i < n" "P i" by (auto simp: P_def)
    have k: "P k" "k \<le> i" unfolding k_def using i(2) by (rule LeastI, rule Least_le)
    have before: "\<exists>c. m (h + of_nat j) = Some c \<and> \<not> eq c" if "j < k" for j
    proof -
      have "\<not> P j" using not_less_Least [of j P] that unfolding k_def .
      moreover have "m (h + of_nat j) \<noteq> None" using n(2) [of j] that k(2) i(1) by simp
      ultimately show ?thesis unfolding P_def by blast
    qed
    from k(1) obtain c where c: "m (h + of_nat k) = Some c" "eq c" by (auto simp: P_def)
    have "probe eq m h = Some (h + of_nat k, Some c)"
      by (rule probe_found) (use before c in auto)
    with before c show ?thesis by (intro exI [of _ k] exI [of _ "Some c"]) auto
  next
    case False
    then have before: "\<exists>c. m (h + of_nat j) = Some c \<and> \<not> eq c" if "j < n" for j
      using n(2) that by fastforce
    have "probe eq m h = Some (h + of_nat n, None)"
      by (rule probe_free) (use before n in auto)
    with before n(1) show ?thesis by (intro exI [of _ n] exI [of _ None]) auto
  qed
qed

lemma card_hash: "card (UNIV :: hash set) = 2 ^ 64"
  by (simp add: card_word)

lemma free_slot_exists:
  fixes m :: "hash \<rightharpoonup> 'a"
  assumes "card (dom m) < 2 ^ 64"
  shows "\<exists>s. m s = None"
proof (rule ccontr)
  assume "\<not> (\<exists>s. m s = None)"
  then have "dom m = UNIV" by auto
  then show False using assms card_hash by (simp only: less_irrefl)
qed

section \<open>What the table asks of its keys\<close>

locale hash_keys =
  fixes hashf :: "'a \<Rightarrow> hash" and eq :: "'a \<Rightarrow> 'a \<Rightarrow> bool" and carrier :: "'a \<Rightarrow> bool"
  assumes eq_refl: "carrier x \<Longrightarrow> eq x x"
    and eq_sym: "carrier x \<Longrightarrow> carrier y \<Longrightarrow> eq x y \<Longrightarrow> eq y x"
    and eq_trans: "carrier x \<Longrightarrow> carrier y \<Longrightarrow> carrier z \<Longrightarrow> eq x y \<Longrightarrow> eq y z \<Longrightarrow> eq x z"
    and eq_hash: "carrier x \<Longrightarrow> carrier y \<Longrightarrow> eq x y \<Longrightarrow> hashf x = hashf y"
begin

text \<open>
  The table invariant: the index holds exactly the listed keys, each once; no two keys are equal;
  and every slot between the hash of a key and the slot of that key is in use.
\<close>

definition table_ok :: "(hash \<rightharpoonup> 'a) \<Rightarrow> 'a list \<Rightarrow> bool" where
  "table_ok m ks \<longleftrightarrow>
     (\<forall>k \<in> set ks. carrier k) \<and>
     sorted_wrt (\<lambda>a b. \<not> eq a b) ks \<and>
     ran m = set ks \<and> inj_on m (dom m) \<and>
     (\<forall>s k. m s = Some k \<longrightarrow>
        (\<exists>d. s = hashf k + of_nat d \<and> (\<forall>j<d. m (hashf k + of_nat j) \<noteq> None)))"

lemma table_okD:
  assumes "table_ok m ks"
  shows "\<forall>k \<in> set ks. carrier k" and "sorted_wrt (\<lambda>a b. \<not> eq a b) ks" and "ran m = set ks"
    and "inj_on m (dom m)"
  using assms unfolding table_ok_def by blast+

lemma table_ok_empty: "table_ok (\<lambda>_. None) []"
  by (simp add: table_ok_def)

lemma keys_unique:
  assumes "\<forall>k \<in> set ks. carrier k" and "sorted_wrt (\<lambda>a b. \<not> eq a b) ks"
    and "x \<in> set ks" and "y \<in> set ks" and "eq x y"
  shows "x = y"
  using assms
proof (induction ks)
  case (Cons k ks)
  have no: "\<not> eq k z" "\<not> eq z k" if "z \<in> set ks" for z
    using Cons.prems(1,2) eq_sym [of z k] that by auto
  show ?case
  proof (cases "x = k \<or> y = k")
    case True
    then show ?thesis using no Cons.prems(3-5) by auto
  next
    case False
    then show ?thesis using Cons by auto
  qed
qed simp

lemma probe_key:
  assumes ok: "table_ok m ks" and "carrier x" and "k \<in> set ks" and "eq x k"
  shows "\<exists>s. probe (eq x) m (hashf x) = Some (s, Some k)"
proof -
  note ks = table_okD [OF ok]
  have ck: "carrier k" using ks(1) assms(3) by blast
  obtain s where s: "m s = Some k" using assms(3) ks(3) by (auto simp: ran_def)
  then obtain d where d: "s = hashf k + of_nat d" "\<And>j. j < d \<Longrightarrow> m (hashf k + of_nat j) \<noteq> None"
    using ok unfolding table_ok_def by blast
  have h: "hashf x = hashf k" using assms(2,4) ck by (intro eq_hash)
  define P where "P j \<longleftrightarrow> (\<exists>c. m (hashf x + of_nat j) = Some c \<and> eq x c)" for j
  have Pd: "P d" using s d(1) h assms(4) by (auto simp: P_def)
  define e where "e = (LEAST j. P j)"
  have e: "P e" "e \<le> d" unfolding e_def using Pd by (rule LeastI, rule Least_le)
  obtain c where c: "m (hashf x + of_nat e) = Some c" "eq x c" using e(1) by (auto simp: P_def)
  have before: "\<exists>c. m (hashf x + of_nat j) = Some c \<and> \<not> eq x c" if "j < e" for j
  proof -
    have "\<not> P j" using not_less_Least [of j P] that unfolding e_def .
    moreover have "m (hashf x + of_nat j) \<noteq> None" using d(2) [of j] that e(2) h by simp
    ultimately show ?thesis unfolding P_def by blast
  qed
  have cin: "c \<in> set ks" using c(1) ks(3) by (auto simp: ran_def)
  then have "carrier c" using ks(1) by blast
  then have "eq k c" using eq_trans [OF ck assms(2)] eq_sym assms(2,4) ck c(2) by blast
  then have "k = c" using keys_unique [OF ks(1,2) assms(3) cin] by simp
  have "probe (eq x) m (hashf x) = Some (hashf x + of_nat e, Some c)"
    by (rule probe_found) (use before c in auto)
  then show ?thesis using \<open>k = c\<close> by blast
qed

lemma probe_new:
  assumes ok: "table_ok m ks" and "carrier x" and "\<forall>k \<in> set ks. \<not> eq x k" and "m s = None"
  shows "\<exists>d. probe (eq x) m (hashf x) = Some (hashf x + of_nat d, None) \<and>
    m (hashf x + of_nat d) = None \<and> (\<forall>j<d. m (hashf x + of_nat j) \<noteq> None)"
proof -
  obtain d r where d: "probe (eq x) m (hashf x) = Some (hashf x + of_nat d, r)"
      "\<forall>j<d. \<exists>c. m (hashf x + of_nat j) = Some c \<and> \<not> eq x c" "m (hashf x + of_nat d) = r"
      "case r of None \<Rightarrow> True | Some c \<Rightarrow> eq x c"
    using probe_terminates [where m = m and s = s and eq = "eq x" and h = "hashf x", OF assms(4)] by blast
  have "r = None"
  proof (cases r)
    case (Some c)
    then have "c \<in> set ks" using d(3) ranI [of m "hashf x + of_nat d" c] table_okD(3) [OF ok] by simp
    then show ?thesis using Some d(4) assms(3) by simp
  qed simp
  then show ?thesis using d(1-3) by (metis option.distinct(1))
qed

lemma table_ok_insert:
  assumes ok: "table_ok m ks" and "carrier x" and new: "\<forall>k \<in> set ks. \<not> eq x k"
    and free: "m (hashf x + of_nat d) = None" and "\<forall>j<d. m (hashf x + of_nat j) \<noteq> None"
  shows "table_ok (m(hashf x + of_nat d \<mapsto> x)) (ks @ [x])"
proof -
  let ?s = "hashf x + of_nat d"
  note ks = table_okD [OF ok]
  have "x \<notin> set ks" using new eq_refl [OF assms(2)] by blast
  have sorted: "sorted_wrt (\<lambda>a b. \<not> eq a b) (ks @ [x])"
    using ks(1,2) new assms(2) eq_sym by (auto simp: sorted_wrt_append)
  have ran: "ran (m(?s \<mapsto> x)) = set (ks @ [x])" using ks(3) free by (auto simp: ran_map_upd)
  have inj: "inj_on (m(?s \<mapsto> x)) (dom (m(?s \<mapsto> x)))"
    using ks(3,4) \<open>x \<notin> set ks\<close> by (auto simp: inj_on_def ran_def)
  have slots: "\<exists>e. s = hashf k + of_nat e \<and> (\<forall>j<e. (m(?s \<mapsto> x)) (hashf k + of_nat j) \<noteq> None)"
    if "(m(?s \<mapsto> x)) s = Some k" for s k
  proof (cases "s = ?s")
    case True
    with that assms(5) show ?thesis by (intro exI [of _ d]) auto
  next
    case False
    with that have "m s = Some k" by simp
    with ok obtain e where "s = hashf k + of_nat e" "\<forall>j<e. m (hashf k + of_nat j) \<noteq> None"
      unfolding table_ok_def by blast
    then show ?thesis by (intro exI [of _ e]) auto
  qed
  have "\<forall>k \<in> set (ks @ [x]). carrier k" using ks(1) assms(2) by simp
  then show ?thesis unfolding table_ok_def using sorted ran inj slots by blast
qed

lemma table_dom_card:
  assumes "table_ok m ks"
  shows "card (dom m) \<le> length ks"
proof -
  have "inj_on m (dom m)" by (rule table_okD [OF assms])
  then have "inj_on (\<lambda>s. the (m s)) (dom m)"
    by (auto simp: inj_on_def domIff option.expand)
  moreover have "(\<lambda>s. the (m s)) ` dom m \<subseteq> set ks"
    using table_okD(3) [OF assms] by (auto simp: ran_def)
  ultimately have "card (dom m) \<le> card (set ks)" by (intro card_inj_on_le) auto
  also have "\<dots> \<le> length ks" by (rule card_length)
  finally show ?thesis .
qed

lemma table_free:
  "table_ok m ks \<Longrightarrow> length ks < 2 ^ 64 \<Longrightarrow> \<exists>s. m s = None"
  using table_dom_card [of m ks] by (intro free_slot_exists) simp

end

end
