(* ===== verification/Map_Contract.thy ===== *)
theory Map_Contract
  imports Opa_Prelude
begin

text \<open>
  The contract of a map from keys to values as the clients of \<open>util.HashMap\<close> and of \<open>ast.Object\<close>
  use it: keys are identified up to an equivalence, an insertion overwrites, and an iteration
  meets every entry once.  \<open>enum m kvs\<close> says that an iteration of m may meet the entries kvs in
  this order; the order need not be determined by the map.

  Copying, updating, merging and comparing maps are loops over an iteration; what they compute is
  derived once here.
\<close>

locale map_contract =
  fixes emp :: 'm
    and put :: "'k \<Rightarrow> 'v \<Rightarrow> 'm \<Rightarrow> 'm"
    and get :: "'m \<Rightarrow> 'k \<Rightarrow> 'v option"
    and enum :: "'m \<Rightarrow> ('k \<times> 'v) list \<Rightarrow> bool"
    and len :: "'m \<Rightarrow> int"
    and inv :: "'m \<Rightarrow> bool"
    and carrier :: "'k \<Rightarrow> bool"
    and eq :: "'k \<Rightarrow> 'k \<Rightarrow> bool"
  assumes inv_emp: "inv emp"
    and get_emp: "get emp k = None"
    and inv_put: "inv m \<Longrightarrow> carrier k \<Longrightarrow> inv (put k v m)"
    and get_put: "inv m \<Longrightarrow> carrier k \<Longrightarrow> carrier k' \<Longrightarrow>
      get (put k v m) k' = (if eq k k' then Some v else get m k')"
    and enum_ex: "inv m \<Longrightarrow> \<exists>kvs. enum m kvs"
    and enum_carrier: "inv m \<Longrightarrow> enum m kvs \<Longrightarrow> (k, v) \<in> set kvs \<Longrightarrow> carrier k"
    and enum_distinct: "inv m \<Longrightarrow> enum m kvs \<Longrightarrow> sorted_wrt (\<lambda>p q. \<not> eq (fst p) (fst q)) kvs"
    and enum_get: "inv m \<Longrightarrow> enum m kvs \<Longrightarrow> carrier k \<Longrightarrow>
      get m k = Some v \<longleftrightarrow> (\<exists>k'. (k', v) \<in> set kvs \<and> eq k' k)"
    and enum_len: "inv m \<Longrightarrow> enum m kvs \<Longrightarrow> len m = int (length kvs)"
    and eq_refl: "carrier k \<Longrightarrow> eq k k"
    and eq_sym: "carrier k \<Longrightarrow> carrier k' \<Longrightarrow> eq k k' \<Longrightarrow> eq k' k"
    and eq_trans: "carrier a \<Longrightarrow> carrier b \<Longrightarrow> carrier c \<Longrightarrow> eq a b \<Longrightarrow> eq b c \<Longrightarrow> eq a c"
begin

definition same_map :: "'m \<Rightarrow> 'm \<Rightarrow> bool" where
  "same_map m m' \<longleftrightarrow> (\<forall>k. carrier k \<longrightarrow> get m k = get m' k)"

lemma get_eq:
  assumes "inv m" and "carrier k" and "carrier k'" and "eq k k'"
  shows "get m k = get m k'"
proof -
  obtain kvs where kvs: "enum m kvs" using enum_ex assms(1) by blast
  have "get m k = Some v \<longleftrightarrow> get m k' = Some v" for v
  proof -
    have "eq x k \<longleftrightarrow> eq x k'" if "(x, v) \<in> set kvs" for x
      using eq_trans eq_sym assms enum_carrier [OF assms(1) kvs that] by blast
    then show ?thesis using enum_get [OF assms(1) kvs] assms(2,3) by blast
  qed
  then show ?thesis by (metis not_None_eq)
qed

lemma enum_member: "inv m \<Longrightarrow> enum m kvs \<Longrightarrow> (k, v) \<in> set kvs \<Longrightarrow> get m k = Some v"
  using enum_get enum_carrier eq_refl by blast

lemma enum_missing:
  "inv m \<Longrightarrow> enum m kvs \<Longrightarrow> carrier k \<Longrightarrow> get m k = None \<longleftrightarrow> (\<forall>(k', v) \<in> set kvs. \<not> eq k' k)"
  using enum_get [of m kvs k] by (cases "get m k") (auto, blast)

text \<open>Inserting a list of entries with distinct keys, as the loops over an iteration do.\<close>

lemma put_all:
  assumes "inv m" and "\<forall>(k, v) \<in> set kvs. carrier k" and "sorted_wrt (\<lambda>p q. \<not> eq (fst p) (fst q)) kvs"
  shows "inv (fold (\<lambda>(k, v). put k v) kvs m)" and
    "carrier k \<Longrightarrow> get (fold (\<lambda>(k, v). put k v) kvs m) k =
       (case List.find (\<lambda>p. eq (fst p) k) kvs of Some p \<Rightarrow> Some (snd p) | None \<Rightarrow> get m k)"
  using assms
proof (induction kvs arbitrary: m)
  case Nil
  { case 1 then show ?case by simp next case 2 then show ?case by simp }
next
  case (Cons p kvs)
  obtain a b where p: "p = (a, b)" by (cases p)
  { case 1
    then show ?case using Cons.IH(1) inv_put by (simp add: p)
  next
    case 2
    have c: "carrier a" "\<forall>(k, v) \<in> set kvs. carrier k" using 2 by (auto simp: p)
    have IH: "get (fold (\<lambda>(k, v). put k v) kvs (put a b m)) k =
       (case List.find (\<lambda>p. eq (fst p) k) kvs of Some p \<Rightarrow> Some (snd p) | None \<Rightarrow> get (put a b m) k)"
      using 2 Cons.IH(2) inv_put by (simp add: p)
    have "List.find (\<lambda>p. eq (fst p) k) kvs = None" if "eq a k"
    proof -
      have "\<not> eq (fst q) k" if "q \<in> set kvs" for q
      proof
        assume q: "eq (fst q) k"
        have "carrier (fst q)" using c(2) that by auto
        then have "eq a (fst q)" using eq_trans eq_sym c(1) q \<open>eq a k\<close> 2(1) by blast
        then show False using 2(4) that by (auto simp: p)
      qed
      then show ?thesis unfolding find_None_iff by blast
    qed
    then show ?case using IH get_put [OF 2(2) c(1) 2(1)] by (simp add: p split: option.splits)
  }
qed

lemma find_enum:
  assumes "inv m" and "enum m kvs" and "carrier k"
  shows "map_option snd (List.find (\<lambda>p. eq (fst p) k) kvs) = get m k"
proof (cases "List.find (\<lambda>p. eq (fst p) k) kvs")
  case None
  then show ?thesis using enum_missing [OF assms] by (auto simp: find_None_iff)
next
  case (Some p)
  then have "p \<in> set kvs" "eq (fst p) k" by (auto simp: find_Some_iff)
  then have "get m k = Some (snd p)" using enum_get [OF assms, of "snd p"] by (metis prod.collapse)
  then show ?thesis using Some by simp
qed

lemma put_enum:
  assumes "inv m" and "inv m'" and "enum m' kvs"
  shows "inv (fold (\<lambda>(k, v). put k v) kvs m)" and
    "carrier k \<Longrightarrow> get (fold (\<lambda>(k, v). put k v) kvs m) k = (case get m' k of Some v \<Rightarrow> Some v | None \<Rightarrow> get m k)"
proof -
  have c: "\<forall>(k, v) \<in> set kvs. carrier k" using enum_carrier [OF assms(2,3)] by blast
  note all = put_all [OF assms(1) c enum_distinct [OF assms(2,3)]]
  show "inv (fold (\<lambda>(k, v). put k v) kvs m)" by (rule all(1))
  assume k: "carrier k"
  show "get (fold (\<lambda>(k, v). put k v) kvs m) k = (case get m' k of Some v \<Rightarrow> Some v | None \<Rightarrow> get m k)"
    using all(2) [OF k] find_enum [OF assms(2,3) k] by (auto split: option.splits)
qed

lemma copy_same:
  assumes "inv m" and "enum m kvs"
  shows "inv (fold (\<lambda>(k, v). put k v) kvs emp)" and "same_map (fold (\<lambda>(k, v). put k v) kvs emp) m"
  using put_enum [OF inv_emp assms] by (auto simp: same_map_def get_emp split: option.splits)

text \<open>The number of entries is determined by the keys.\<close>

lemma enum_unique:
  assumes "inv m" and "enum m kvs" and "p \<in> set kvs" and "q \<in> set kvs" and "eq (fst p) (fst q)"
  shows "p = q"
proof -
  have "sorted_wrt (\<lambda>p q. \<not> eq (fst p) (fst q)) kvs" using enum_distinct assms(1,2) by blast
  moreover have "eq (fst q) (fst p)" using assms enum_carrier eq_sym by (metis prod.collapse)
  ultimately show ?thesis using assms(3-5) by (induction kvs) auto
qed

lemma enum_set_card:
  assumes "inv m" and "enum m kvs"
  shows "distinct kvs" and "card (set kvs) = length kvs"
proof -
  have "\<And>z. z \<in> set kvs \<Longrightarrow> eq (fst z) (fst z)" using eq_refl enum_carrier [OF assms] by auto
  then show "distinct kvs" using enum_distinct [OF assms] by (induction kvs) auto
  then show "card (set kvs) = length kvs" by (rule distinct_card)
qed

text \<open>When one map has all keys of another, its entries can be matched with the other's.\<close>

lemma enum_match:
  assumes "inv m" and "inv m'" and "enum m xs" and "enum m' ys"
    and "\<And>k. carrier k \<Longrightarrow> get m k \<noteq> None \<Longrightarrow> get m' k \<noteq> None"
  obtains f where "inj_on f (set xs)" and "f ` set xs \<subseteq> set ys"
    and "\<And>p. p \<in> set xs \<Longrightarrow> eq (fst (f p)) (fst p)"
proof -
  note cx = enum_carrier [OF assms(1,3)] and cy = enum_carrier [OF assms(2,4)]
  have "\<forall>p \<in> set xs. \<exists>q. q \<in> set ys \<and> eq (fst q) (fst p)"
  proof
    fix p assume p: "p \<in> set xs"
    then have "get m (fst p) \<noteq> None" using enum_member [OF assms(1,3), of "fst p" "snd p"] by simp
    moreover have c: "carrier (fst p)" using cx p by (metis prod.collapse)
    ultimately obtain v where "get m' (fst p) = Some v" using assms(5) by blast
    then obtain k' where "(k', v) \<in> set ys" "eq k' (fst p)" using enum_get [OF assms(2,4) c] by blast
    then show "\<exists>q. q \<in> set ys \<and> eq (fst q) (fst p)" by (intro exI [of _ "(k', v)"]) simp
  qed
  then obtain f where f: "\<And>p. p \<in> set xs \<Longrightarrow> f p \<in> set ys \<and> eq (fst (f p)) (fst p)" by metis
  have "inj_on f (set xs)"
  proof (rule inj_onI)
    fix p q assume pq: "p \<in> set xs" "q \<in> set xs" "f p = f q"
    have c: "carrier (fst p)" "carrier (fst q)" "carrier (fst (f p))" using cx cy pq f by (metis prod.collapse)+
    have "eq (fst p) (fst (f p))" using f [OF pq(1)] eq_sym c by blast
    then have "eq (fst p) (fst q)" using f [OF pq(2)] eq_trans c pq(3) by metis
    then show "p = q" using enum_unique [OF assms(1,3)] pq by blast
  qed
  then show thesis using f by (intro that [of f]) auto
qed

lemma dom_le_len:
  assumes "inv m" and "inv m'" and sub: "\<And>k. carrier k \<Longrightarrow> get m k \<noteq> None \<Longrightarrow> get m' k \<noteq> None"
  shows "len m \<le> len m'" and
    "len m = len m' \<Longrightarrow> carrier k \<Longrightarrow> get m' k \<noteq> None \<Longrightarrow> get m k \<noteq> None"
proof -
  obtain xs ys where xs: "enum m xs" and ys: "enum m' ys" using enum_ex assms(1,2) by blast
  obtain f where f: "inj_on f (set xs)" "f ` set xs \<subseteq> set ys" "\<And>p. p \<in> set xs \<Longrightarrow> eq (fst (f p)) (fst p)"
    using enum_match [OF assms(1,2) xs ys] sub by blast
  note cards = enum_set_card(2) [OF assms(1) xs] enum_set_card(2) [OF assms(2) ys]
  note lens = enum_len [OF assms(1) xs] enum_len [OF assms(2) ys]
  have "card (set xs) \<le> card (set ys)" using f(1,2) by (intro card_inj_on_le) auto
  then show "len m \<le> len m'" using lens cards by simp
  assume l: "len m = len m'" and k: "carrier k" "get m' k \<noteq> None"
  have "card (f ` set xs) = card (set ys)" using card_image [OF f(1)] cards l lens by simp
  then have im: "f ` set xs = set ys" using f(2) by (intro card_subset_eq) auto
  obtain v k' where q: "(k', v) \<in> set ys" "eq k' k" using k enum_get [OF assms(2) ys k(1)] by blast
  then obtain p where p: "p \<in> set xs" "f p = (k', v)" using im by (metis imageE)
  have c: "carrier (fst p)" "carrier k'"
    using enum_carrier [OF assms(1) xs] enum_carrier [OF assms(2) ys q(1)] p(1) by (metis prod.collapse)+
  have "eq k' (fst p)" using f(3) [OF p(1)] p(2) by simp
  then have "eq (fst p) k" using q(2) c eq_sym eq_trans k(1) by blast
  then show "get m k \<noteq> None" using enum_get [OF assms(1) xs k(1), of "snd p"] p(1) by (metis option.distinct(1) prod.collapse)
qed

text \<open>Sums over the entries are the same for maps that agree.\<close>

lemma enum_sum:
  fixes w :: "'k \<times> 'v \<Rightarrow> 'n :: comm_monoid_add"
  assumes "inv m" and "inv m'" and "enum m xs" and "enum m' ys"
    and dom: "\<And>k. carrier k \<Longrightarrow> get m k \<noteq> None \<longleftrightarrow> get m' k \<noteq> None"
    and w: "\<And>p q. p \<in> set xs \<Longrightarrow> q \<in> set ys \<Longrightarrow> eq (fst q) (fst p) \<Longrightarrow> w p = w q"
  shows "sum_list (map w xs) = sum_list (map w ys)"
proof -
  obtain f where f: "inj_on f (set xs)" "f ` set xs \<subseteq> set ys" "\<And>p. p \<in> set xs \<Longrightarrow> eq (fst (f p)) (fst p)"
  proof (rule enum_match [OF assms(1-4)])
    show "get m' k \<noteq> None" if "carrier k" "get m k \<noteq> None" for k using dom that by blast
  qed blast
  have "len m \<le> len m'" by (rule dom_le_len(1) [OF assms(1,2)]) (use dom in blast)
  moreover have "len m' \<le> len m" by (rule dom_le_len(1) [OF assms(2,1)]) (use dom in blast)
  ultimately have "length xs = length ys" using enum_len [OF assms(1,3)] enum_len [OF assms(2,4)] by simp
  then have "card (f ` set xs) = card (set ys)"
    using card_image [OF f(1)] enum_set_card(2) [OF assms(1,3)] enum_set_card(2) [OF assms(2,4)] by simp
  then have im: "f ` set xs = set ys" using f(2) by (intro card_subset_eq) auto
  have "sum_list (map w xs) = sum w (set xs)"
    by (rule sum_list_distinct_conv_sum_set) (rule enum_set_card(1) [OF assms(1,3)])
  also have "\<dots> = sum (w \<circ> f) (set xs)"
  proof (rule sum.cong [OF refl])
    fix p assume p: "p \<in> set xs"
    then have "f p \<in> set ys" using f(2) by blast
    then show "w p = (w \<circ> f) p" using w [OF p] f(3) [OF p] by simp
  qed
  also have "\<dots> = sum w (set ys)" using sum.reindex [OF f(1), of w] im by simp
  also have "\<dots> = sum_list (map w ys)"
    by (rule sum_list_distinct_conv_sum_set [symmetric]) (rule enum_set_card(1) [OF assms(2,4)])
  finally show ?thesis .
qed

lemma same_map_len:
  assumes "inv m" and "inv m'" and "same_map m m'"
  shows "len m = len m'"
proof (rule order_antisym)
  have g: "get m k = get m' k" if "carrier k" for k using assms(3) that by (simp add: same_map_def)
  show "len m \<le> len m'" by (rule dom_le_len(1) [OF assms(1,2)]) (simp add: g)
  show "len m' \<le> len m" by (rule dom_le_len(1) [OF assms(2,1)]) (simp add: g)
qed

text \<open>The comparison loop: equal sizes, and every entry of one map is in the other.\<close>

definition agree_map :: "('v \<Rightarrow> 'v \<Rightarrow> bool) \<Rightarrow> 'm \<Rightarrow> 'm \<Rightarrow> bool" where
  "agree_map veq m m' \<longleftrightarrow> (\<forall>k. carrier k \<longrightarrow> rel_option veq (get m k) (get m' k))"

lemma equal_loop:
  assumes "inv m" and "inv m'" and "enum m kvs"
  shows "(len m = len m' \<and> (\<forall>(k, v) \<in> set kvs. \<exists>v'. get m' k = Some v' \<and> veq v v')) \<longleftrightarrow> agree_map veq m m'"
proof
  assume l: "len m = len m' \<and> (\<forall>(k, v) \<in> set kvs. \<exists>v'. get m' k = Some v' \<and> veq v v')"
  have rel: "\<exists>v'. get m' k = Some v' \<and> veq v v'" if ck: "carrier k" and g: "get m k = Some v" for k v
  proof -
    obtain k' where k': "(k', v) \<in> set kvs" "eq k' k" using enum_get [OF assms(1,3) ck] g by blast
    then have "get m' k' = get m' k" using get_eq assms(2) enum_carrier [OF assms(1,3)] ck by blast
    moreover have "\<exists>v'. get m' k' = Some v' \<and> veq v v'" using bspec [OF conjunct2 [OF l] k'(1)] by simp
    ultimately show ?thesis by simp
  qed
  have sub: "get m' k \<noteq> None" if "carrier k" "get m k \<noteq> None" for k
    using rel [OF that(1)] that(2) by auto
  have conv: "get m k \<noteq> None" if "carrier k" "get m' k \<noteq> None" for k
    using dom_le_len(2) [OF assms(1,2) sub conjunct1 [OF l] that] by simp
  show "agree_map veq m m'"
    unfolding agree_map_def
  proof (intro allI impI)
    fix k assume k: "carrier k"
    show "rel_option veq (get m k) (get m' k)"
    proof (cases "get m k")
      case None
      then have "get m' k = None" using conv [OF k] by blast
      then show ?thesis using None by simp
    next
      case (Some v)
      then show ?thesis using rel [OF k Some] by auto
    qed
  qed
next
  assume a: "agree_map veq m m'"
  have r: "rel_option veq (get m k) (get m' k)" if "carrier k" for k
    using a that by (simp add: agree_map_def)
  have d: "get m k \<noteq> None \<longleftrightarrow> get m' k \<noteq> None" if "carrier k" for k
    using r [OF that] by (cases "get m k"; cases "get m' k") auto
  have "len m \<le> len m'" by (rule dom_le_len(1) [OF assms(1,2)]) (blast dest: d [THEN iffD1] d [THEN iffD2])
  moreover have "len m' \<le> len m" by (rule dom_le_len(1) [OF assms(2,1)]) (blast dest: d [THEN iffD1] d [THEN iffD2])
  moreover have "\<exists>v'. get m' k = Some v' \<and> veq v v'" if "(k, v) \<in> set kvs" for k v
    using r [OF enum_carrier [OF assms(1,3) that]] enum_member [OF assms(1,3) that]
    by (auto simp: option_rel_Some1)
  ultimately show "len m = len m' \<and> (\<forall>(k, v) \<in> set kvs. \<exists>v'. get m' k = Some v' \<and> veq v v')" by auto
qed

end

end
