(* ===== verification/Util_Hashmap.thy ===== *)
theory Util_Hashmap
  imports Hash_Table Map_Contract
begin

text \<open>
  The chained hash map \<open>util.HashMap\<close> (util/hashmap.go).

  The Go map from hash codes to chains is a total function; a missing code and a nil chain are the
  empty list.  The code iterates over this map in an order that Go does not specify: the operations
  that iterate take the order of the hash codes as an argument \<open>ord\<close>, and \<open>order_of\<close> says that it
  meets every non-empty chain once.
\<close>

record ('k, 'v) hashmap =
  hm_eq :: "'k \<Rightarrow> 'k \<Rightarrow> bool"
  hm_hash :: "'k \<Rightarrow> hash"
  hm_table :: "hash \<Rightarrow> ('k \<times> 'v) list"
  hm_size :: int

definition newHashMap :: "('k \<Rightarrow> 'k \<Rightarrow> bool) \<Rightarrow> ('k \<Rightarrow> hash) \<Rightarrow> ('k, 'v) hashmap" where
  "newHashMap eq hashf = \<lparr>hm_eq = eq, hm_hash = hashf, hm_table = \<lambda>_. [], hm_size = 0\<rparr>"

section \<open>Chains\<close>

definition chain_get :: "('k \<Rightarrow> bool) \<Rightarrow> ('k \<times> 'v) list \<Rightarrow> ('k \<times> 'v) option" where
  "chain_get P c = List.find (\<lambda>e. P (fst e)) c"

text \<open>Overwrite the value of the first entry that matches, if there is one.\<close>

fun chain_set :: "('k \<Rightarrow> bool) \<Rightarrow> 'v \<Rightarrow> ('k \<times> 'v) list \<Rightarrow> ('k \<times> 'v) list option" where
  "chain_set P v [] = None"
| "chain_set P v ((k, v') # c) = (if P k then Some ((k, v) # c) else map_option ((#) (k, v')) (chain_set P v c))"

fun chain_delete :: "('k \<Rightarrow> bool) \<Rightarrow> ('k \<times> 'v) list \<Rightarrow> ('k \<times> 'v) list option" where
  "chain_delete P [] = None"
| "chain_delete P ((k, v) # c) = (if P k then Some c else map_option ((#) (k, v)) (chain_delete P c))"

section \<open>Operations\<close>

definition hm_get :: "('k, 'v) hashmap \<Rightarrow> 'k \<Rightarrow> 'v option" where
  "hm_get h k = map_option snd (chain_get (\<lambda>e. hm_eq h e k) (hm_table h (hm_hash h k)))"

definition hm_put :: "'k \<Rightarrow> 'v \<Rightarrow> ('k, 'v) hashmap \<Rightarrow> ('k, 'v) hashmap" where
  "hm_put k v h =
     (let code = hm_hash h k; head = hm_table h code
      in case chain_set (\<lambda>e. hm_eq h e k) v head of
           Some c \<Rightarrow> h\<lparr>hm_table := (hm_table h)(code := c)\<rparr>
         | None \<Rightarrow> h\<lparr>hm_table := (hm_table h)(code := (k, v) # head), hm_size := hm_size h + 1\<rparr>)"

definition hm_delete :: "'k \<Rightarrow> ('k, 'v) hashmap \<Rightarrow> ('k, 'v) hashmap" where
  "hm_delete k h =
     (let code = hm_hash h k
      in case chain_delete (\<lambda>e. hm_eq h e k) (hm_table h code) of
           Some c \<Rightarrow> h\<lparr>hm_table := (hm_table h)(code := c), hm_size := hm_size h - 1\<rparr>
         | None \<Rightarrow> h)"

definition hm_len :: "('k, 'v) hashmap \<Rightarrow> int" where
  "hm_len h = hm_size h"

definition hm_entries :: "hash list \<Rightarrow> ('k, 'v) hashmap \<Rightarrow> ('k \<times> 'v) list" where
  "hm_entries ord h = concat (map (hm_table h) ord)"

text \<open>\<open>Iter\<close>: the callback may change a state and stops the iteration by returning true.\<close>

fun iter_entries :: "('k \<Rightarrow> 'v \<Rightarrow> 's \<Rightarrow> bool \<times> 's) \<Rightarrow> ('k \<times> 'v) list \<Rightarrow> 's \<Rightarrow> bool \<times> 's" where
  "iter_entries f [] s = (False, s)"
| "iter_entries f ((k, v) # es) s =
     (case f k v s of (stop, s') \<Rightarrow> if stop then (True, s') else iter_entries f es s')"

definition hm_iter :: "hash list \<Rightarrow> ('k, 'v) hashmap \<Rightarrow> ('k \<Rightarrow> 'v \<Rightarrow> 's \<Rightarrow> bool \<times> 's) \<Rightarrow> 's \<Rightarrow> bool \<times> 's" where
  "hm_iter ord h f s = iter_entries f (hm_entries ord h) s"

definition hm_copy :: "hash list \<Rightarrow> ('k, 'v) hashmap \<Rightarrow> ('k, 'v) hashmap" where
  "hm_copy ord h = snd (hm_iter ord h (\<lambda>k v cpy. (False, hm_put k v cpy)) (newHashMap (hm_eq h) (hm_hash h)))"

definition hm_equal :: "hash list \<Rightarrow> ('a, 'a) hashmap \<Rightarrow> ('a, 'a) hashmap \<Rightarrow> bool" where
  "hm_equal ord h other =
     (if hm_len h \<noteq> hm_len other then False
      else \<not> fst (hm_iter ord h (\<lambda>k v s. (case hm_get other k of
                                            None \<Rightarrow> True
                                          | Some ov \<Rightarrow> \<not> hm_eq h v ov, s)) ()))"

definition hm_hashCode :: "hash list \<Rightarrow> ('a, 'a) hashmap \<Rightarrow> hash" where
  "hm_hashCode ord h = snd (hm_iter ord h (\<lambda>k v acc. (False, acc + (hm_hash h k + hm_hash h v))) 0)"

definition hm_update :: "hash list \<Rightarrow> hash list \<Rightarrow> ('k, 'v) hashmap \<Rightarrow> ('k, 'v) hashmap \<Rightarrow> ('k, 'v) hashmap" where
  "hm_update ord ord' h other = snd (hm_iter ord' other (\<lambda>k v updated. (False, hm_put k v updated)) (hm_copy ord h))"

definition order_of :: "('k, 'v) hashmap \<Rightarrow> hash list \<Rightarrow> bool" where
  "order_of h ord \<longleftrightarrow> distinct ord \<and> (\<forall>code. hm_table h code \<noteq> [] \<longrightarrow> code \<in> set ord)"

section \<open>Chains and iterations\<close>

lemma chain_set_None: "chain_set P v c = None \<longleftrightarrow> (\<forall>e \<in> set c. \<not> P (fst e))"
  by (induction P v c rule: chain_set.induct) auto

lemma chain_set_Some:
  "chain_set P v c = Some d \<Longrightarrow> \<exists>xs k v' ys. c = xs @ (k, v') # ys \<and> d = xs @ (k, v) # ys \<and> P k \<and>
     (\<forall>e \<in> set xs. \<not> P (fst e))"
proof (induction P v c arbitrary: d rule: chain_set.induct)
  case (2 P v k v' c)
  show ?case
  proof (cases "P k")
    case True
    then show ?thesis using "2.prems" by (intro exI [of _ "[]"]) auto
  next
    case False
    then obtain d' where d: "chain_set P v c = Some d'" "d = (k, v') # d'" using "2.prems" by auto
    obtain xs a b ys where "c = xs @ (a, b) # ys" "d' = xs @ (a, v) # ys" "P a" "\<forall>e \<in> set xs. \<not> P (fst e)"
      using "2.IH" [OF False d(1)] by blast
    then show ?thesis using d(2) False
      by (intro exI [of _ "(k, v') # xs"] exI [of _ a] exI [of _ b] exI [of _ ys]) auto
  qed
qed simp

lemma chain_delete_None: "chain_delete P c = None \<longleftrightarrow> (\<forall>e \<in> set c. \<not> P (fst e))"
  by (induction P c rule: chain_delete.induct) auto

lemma chain_delete_Some:
  "chain_delete P c = Some d \<Longrightarrow> \<exists>xs k v' ys. c = xs @ (k, v') # ys \<and> d = xs @ ys \<and> P k \<and>
     (\<forall>e \<in> set xs. \<not> P (fst e))"
proof (induction P c arbitrary: d rule: chain_delete.induct)
  case (2 P k v' c)
  show ?case
  proof (cases "P k")
    case True
    then show ?thesis using "2.prems" by (intro exI [of _ "[]"]) auto
  next
    case False
    then obtain d' where d: "chain_delete P c = Some d'" "d = (k, v') # d'" using "2.prems" by auto
    obtain xs a b ys where "c = xs @ (a, b) # ys" "d' = xs @ ys" "P a" "\<forall>e \<in> set xs. \<not> P (fst e)"
      using "2.IH" [OF False d(1)] by blast
    then show ?thesis using d(2) False
      by (intro exI [of _ "(k, v') # xs"] exI [of _ a] exI [of _ b] exI [of _ ys]) auto
  qed
qed simp

lemma iter_fold: "iter_entries (\<lambda>k v s. (False, f k v s)) es s = (False, fold (\<lambda>(k, v). f k v) es s)"
  by (induction es arbitrary: s) auto

lemma iter_until: "fst (iter_entries (\<lambda>k v s. (P k v, s)) es ()) \<longleftrightarrow> (\<exists>(k, v) \<in> set es. P k v)"
  by (induction es) auto

lemma fold_add_sum: "fold (\<lambda>(k, v) acc. acc + f k v) es (a :: hash) = a + sum_list (map (\<lambda>(k, v). f k v) es)"
  by (induction es arbitrary: a) (auto simp: algebra_simps)

lemma chain_get_append: "chain_get P (xs @ ys) = (case chain_get P xs of None \<Rightarrow> chain_get P ys | Some e \<Rightarrow> Some e)"
  by (induction xs) (auto simp: chain_get_def)

lemma chain_get_Cons: "chain_get P (e # c) = (if P (fst e) then Some e else chain_get P c)"
  by (simp add: chain_get_def)

lemma chain_get_None: "chain_get P c = None \<longleftrightarrow> (\<forall>e \<in> set c. \<not> P (fst e))"
  by (auto simp: chain_get_def find_None_iff)

lemma order_of_sum:
  assumes "order_of h ord" and "finite {code. hm_table h code \<noteq> []}"
  shows "length (hm_entries ord h) = (\<Sum>code \<in> {code. hm_table h code \<noteq> []}. length (hm_table h code))"
proof -
  have "length (hm_entries ord h) = (\<Sum>code \<in> set ord. length (hm_table h code))"
    using assms(1) by (simp add: hm_entries_def length_concat sum_list_distinct_conv_sum_set order_of_def comp_def)
  also have "\<dots> = (\<Sum>code \<in> {code. hm_table h code \<noteq> []}. length (hm_table h code))"
    using assms(1) by (intro sum.mono_neutral_right) (auto simp: order_of_def)
  finally show ?thesis .
qed

section \<open>The map contract\<close>

context hash_keys
begin

text \<open>
  The invariant: every entry is in the chain of its hash code, no two entries of a chain have equal
  keys, finitely many chains are not empty, and the size counts the entries.
\<close>

definition chains_ok :: "(hash \<Rightarrow> ('a \<times> 'v) list) \<Rightarrow> bool" where
  "chains_ok t \<longleftrightarrow> (\<forall>code. (\<forall>e \<in> set (t code). hashf (fst e) = code \<and> carrier (fst e)) \<and>
     sorted_wrt (\<lambda>p q. \<not> eq (fst p) (fst q)) (t code)) \<and> finite {code. t code \<noteq> []}"

definition hm_inv :: "('a, 'v) hashmap \<Rightarrow> bool" where
  "hm_inv h \<longleftrightarrow> hm_eq h = eq \<and> hm_hash h = hashf \<and> chains_ok (hm_table h) \<and>
     hm_size h = int (\<Sum>code \<in> {code. hm_table h code \<noteq> []}. length (hm_table h code))"

definition hm_enum :: "('a, 'v) hashmap \<Rightarrow> ('a \<times> 'v) list \<Rightarrow> bool" where
  "hm_enum h kvs \<longleftrightarrow> (\<exists>ord. order_of h ord \<and> kvs = hm_entries ord h)"

lemma hm_invD:
  assumes "hm_inv h"
  shows "hm_eq h = eq" "hm_hash h = hashf" "chains_ok (hm_table h)"
    "\<And>code e. e \<in> set (hm_table h code) \<Longrightarrow> hashf (fst e) = code \<and> carrier (fst e)"
    "\<And>code. sorted_wrt (\<lambda>p q. \<not> eq (fst p) (fst q)) (hm_table h code)"
    "finite {code. hm_table h code \<noteq> []}"
  using assms unfolding hm_inv_def chains_ok_def by blast+

lemma chain_get_iff:
  assumes c: "\<And>e. e \<in> set c \<Longrightarrow> carrier (fst e)" and "sorted_wrt (\<lambda>p q. \<not> eq (fst p) (fst q)) c"
    and "carrier k"
  shows "map_option snd (chain_get (\<lambda>e. eq e k) c) = Some v \<longleftrightarrow> (\<exists>k'. (k', v) \<in> set c \<and> eq k' k)"
  using assms
proof (induction c)
  case (Cons e c)
  obtain a b where e: "e = (a, b)" by (cases e)
  have IH: "map_option snd (chain_get (\<lambda>e. eq e k) c) = Some v \<longleftrightarrow> (\<exists>k'. (k', v) \<in> set c \<and> eq k' k)"
    using Cons by simp
  show ?case
  proof (cases "eq a k")
    case True
    have "\<not> eq k' k" if "(k', w) \<in> set c" for k' w
    proof
      assume "eq k' k"
      moreover have "carrier k'" "carrier a" using Cons.prems(1) [of "(k', w)"] Cons.prems(1) [of e] that e by auto
      ultimately have "eq a k'" using True eq_sym eq_trans Cons.prems(3) by blast
      then show False using Cons.prems(2) that e by auto
    qed
    then show ?thesis using True by (auto simp: chain_get_def e)
  next
    case False
    then show ?thesis using IH by (auto simp: chain_get_def e)
  qed
qed (simp add: chain_get_def)

lemma hm_get_iff:
  assumes "hm_inv h" and "carrier k"
  shows "hm_get h k = Some v \<longleftrightarrow> (\<exists>k'. (k', v) \<in> set (hm_table h (hashf k)) \<and> eq k' k)"
  unfolding hm_get_def hm_invD(1,2) [OF assms(1)]
  by (rule chain_get_iff) (use hm_invD(4,5) [OF assms(1)] assms(2) in auto)

lemma hm_get_any:
  assumes "hm_inv h" and "carrier k"
  shows "hm_get h k = Some v \<longleftrightarrow> (\<exists>code k'. (k', v) \<in> set (hm_table h code) \<and> eq k' k)"
proof -
  have "code = hashf k" if "(k', v) \<in> set (hm_table h code)" "eq k' k" for code k'
    using hm_invD(4) [OF assms(1) that(1)] eq_hash assms(2) that(2) by auto
  then show ?thesis using hm_get_iff [OF assms] by blast
qed

text \<open>Overwriting or adding an entry in one chain.\<close>

lemma chains_ok_upd:
  assumes "chains_ok t" and "\<And>e. e \<in> set c \<Longrightarrow> hashf (fst e) = code \<and> carrier (fst e)"
    and "sorted_wrt (\<lambda>p q. \<not> eq (fst p) (fst q)) c"
  shows "chains_ok (t(code := c))"
  unfolding chains_ok_def
proof (intro conjI allI ballI)
  have t: "hashf (fst e) = x \<and> carrier (fst e)" if "e \<in> set (t x)" for x e
    using assms(1) that unfolding chains_ok_def by blast
  fix x
  show "hashf (fst e) = x" "carrier (fst e)" if "e \<in> set ((t(code := c)) x)" for e
    using that t [of e x] assms(2) [of e] by (simp_all split: if_splits)
  show "sorted_wrt (\<lambda>p q. \<not> eq (fst p) (fst q)) ((t(code := c)) x)"
    using assms(1,3) unfolding chains_ok_def by simp
  have "finite (insert code {x. t x \<noteq> []})" using assms(1) unfolding chains_ok_def by blast
  then show "finite {x. (t(code := c)) x \<noteq> []}" by (rule finite_subset [rotated]) auto
qed

lemma size_upd:
  fixes t :: "hash \<Rightarrow> 'b list"
  assumes "finite {x. t x \<noteq> []}"
  shows "int (\<Sum>x \<in> {x. (t(code := c)) x \<noteq> []}. length ((t(code := c)) x)) =
    int (\<Sum>x \<in> {x. t x \<noteq> []}. length (t x)) + int (length c) - int (length (t code))"
proof -
  let ?A = "insert code {x. t x \<noteq> []}"
  have sum: "(\<Sum>x \<in> {x. u x \<noteq> []}. length (u x)) = (\<Sum>x \<in> ?A. length (u x))"
    if "{x. u x \<noteq> []} \<subseteq> ?A" for u :: "hash \<Rightarrow> 'b list"
    using that assms by (intro sum.mono_neutral_left) auto
  have "(\<Sum>x \<in> ?A. length ((t(code := c)) x)) = length c + (\<Sum>x \<in> ?A - {code}. length (t x))"
    using assms by (simp add: sum.insert_remove)
  moreover have "(\<Sum>x \<in> ?A. length (t x)) = length (t code) + (\<Sum>x \<in> ?A - {code}. length (t x))"
    using assms by (simp add: sum.insert_remove)
  moreover have "{x. (t(code := c)) x \<noteq> []} \<subseteq> ?A" by auto
  moreover have "{x. t x \<noteq> []} \<subseteq> ?A" by auto
  ultimately have "(\<Sum>x \<in> {x. (t(code := c)) x \<noteq> []}. length ((t(code := c)) x)) + length (t code) =
      (\<Sum>x \<in> {x. t x \<noteq> []}. length (t x)) + length c"
    using sum [of t] sum [of "t(code := c)"] by linarith
  then show ?thesis by linarith
qed

lemma chain_put:
  fixes v :: 'v
  assumes "\<forall>e \<in> set c. carrier (fst e)" and "sorted_wrt (\<lambda>p q. \<not> eq (fst p) (fst q)) c"
    and "carrier k"
  defines "d \<equiv> (case chain_set (\<lambda>e. eq e k) v c of Some d \<Rightarrow> d | None \<Rightarrow> (k, v) # c)"
  shows "sorted_wrt (\<lambda>p q. \<not> eq (fst p) (fst q)) d" and "fst ` set d \<subseteq> insert k (fst ` set c)" and
    "carrier k' \<Longrightarrow> map_option snd (chain_get (\<lambda>e. eq e k') d) =
       (if eq k k' then Some v else map_option snd (chain_get (\<lambda>e. eq e k') c))"
proof -
  consider (new) "chain_set (\<lambda>e. eq e k) v c = None" "d = (k, v) # c" "\<forall>e \<in> set c. \<not> eq (fst e) k"
    | (old) xs a w ys where "c = xs @ (a, w) # ys" "d = xs @ (a, v) # ys" "eq a k" "\<forall>e \<in> set xs. \<not> eq (fst e) k"
  proof (cases "chain_set (\<lambda>e. eq e k) v c")
    case None
    moreover have "d = (k, v) # c" using None by (simp add: d_def)
    ultimately show thesis using new chain_set_None [of "\<lambda>e. eq e k" v c] by simp
  next
    case (Some e)
    then have "d = e" by (simp add: d_def)
    then show thesis using old chain_set_Some [OF Some] by blast
  qed
  then have "sorted_wrt (\<lambda>p q. \<not> eq (fst p) (fst q)) d \<and> fst ` set d \<subseteq> insert k (fst ` set c) \<and>
    (carrier k' \<longrightarrow> map_option snd (chain_get (\<lambda>e. eq e k') d) =
       (if eq k k' then Some v else map_option snd (chain_get (\<lambda>e. eq e k') c)))"
  proof cases
    case new
    have "\<not> eq k (fst e)" if "e \<in> set c" for e using new(3) eq_sym assms(1,3) that by blast
    then show ?thesis using assms(2) new(2) by (auto simp: chain_get_Cons)
  next
    case old
    have ca: "carrier a" using assms(1) old(1) by simp
    have "eq a k' \<longleftrightarrow> eq k k'" if "carrier k'"
      using ca old(3) that assms(3) eq_sym eq_trans by blast
    moreover have "chain_get (\<lambda>e. eq e k') xs = None" if "carrier k'" "eq k k'"
    proof -
      have "\<not> eq (fst e) k'" if "e \<in> set xs" for e
      proof
        assume "eq (fst e) k'"
        moreover have "carrier (fst e)" using assms(1) old(1) that by simp
        ultimately have "eq (fst e) k" using eq_trans eq_sym assms(3) \<open>carrier k'\<close> \<open>eq k k'\<close> by blast
        then show False using old(4) that by blast
      qed
      then show ?thesis by (simp add: chain_get_None)
    qed
    ultimately show ?thesis using assms(2) old(1,2)
      by (auto simp: chain_get_append chain_get_Cons sorted_wrt_append split: option.splits)
  qed
  then show "sorted_wrt (\<lambda>p q. \<not> eq (fst p) (fst q)) d" "fst ` set d \<subseteq> insert k (fst ` set c)"
    "carrier k' \<Longrightarrow> map_option snd (chain_get (\<lambda>e. eq e k') d) =
       (if eq k k' then Some v else map_option snd (chain_get (\<lambda>e. eq e k') c))" by auto
qed

lemma chain_set_length: "chain_set P v c = Some d \<Longrightarrow> length d = length c"
  by (auto dest!: chain_set_Some)

lemma hm_put_law:
  assumes "hm_inv h" and "carrier k"
  shows "hm_inv (hm_put k v h)" and
    "carrier k' \<Longrightarrow> hm_get (hm_put k v h) k' = (if eq k k' then Some v else hm_get h k')"
proof -
  note I = hm_invD [OF assms(1)]
  let ?c = "hm_table h (hashf k)"
  define d where "d = (case chain_set (\<lambda>e. eq e k) v ?c of Some d \<Rightarrow> d | None \<Rightarrow> (k, v) # ?c)"
  have c: "\<forall>e \<in> set ?c. carrier (fst e)" using I(4) by blast
  note put = chain_put [OF c I(5) assms(2), where v = v, folded d_def]
  have fields: "hm_table (hm_put k v h) = (hm_table h)(hashf k := d)" "hm_eq (hm_put k v h) = eq"
    "hm_hash (hm_put k v h) = hashf" "hm_size (hm_put k v h) = hm_size h + int (length d) - int (length ?c)"
    using chain_set_length [of "\<lambda>e. eq e k" v ?c]
    by (auto simp: hm_put_def I(1,2) Let_def d_def split: option.splits)
  have "chains_ok ((hm_table h)(hashf k := d))"
  proof (rule chains_ok_upd [OF I(3)])
    show "sorted_wrt (\<lambda>p q. \<not> eq (fst p) (fst q)) d" by (rule put(1))
    fix e assume "e \<in> set d"
    then have "fst e = k \<or> fst e \<in> fst ` set ?c" using put(2) by blast
    then show "hashf (fst e) = hashf k \<and> carrier (fst e)" using I(4) assms(2) by auto
  qed
  then show inv: "hm_inv (hm_put k v h)"
    using assms(1) size_upd [OF I(6)] unfolding hm_inv_def fields by simp
  assume k': "carrier k'"
  show "hm_get (hm_put k v h) k' = (if eq k k' then Some v else hm_get h k')"
  proof (cases "hashf k' = hashf k")
    case True
    then show ?thesis using put(3) [OF k'] unfolding hm_get_def fields I(1,2) by simp
  next
    case False
    then have "\<not> eq k k'" using eq_hash assms(2) k' by metis
    then show ?thesis using False unfolding hm_get_def fields I(1,2) by simp
  qed
qed

lemma hm_enum_laws:
  assumes "hm_inv h" and "hm_enum h kvs"
  shows "(k, v) \<in> set kvs \<Longrightarrow> carrier k" and "sorted_wrt (\<lambda>p q. \<not> eq (fst p) (fst q)) kvs" and
    "carrier k \<Longrightarrow> hm_get h k = Some v \<longleftrightarrow> (\<exists>k'. (k', v) \<in> set kvs \<and> eq k' k)" and
    "hm_size h = int (length kvs)"
proof -
  note I = hm_invD [OF assms(1)]
  obtain ord where ord: "order_of h ord" "kvs = hm_entries ord h" using assms(2) by (auto simp: hm_enum_def)
  have set: "e \<in> set kvs \<longleftrightarrow> (\<exists>code. e \<in> set (hm_table h code))" for e
    using ord by (force simp: hm_entries_def order_of_def)
  show c: "carrier k" if "(k, v) \<in> set kvs" for k v using set that I(4) by fastforce
  have "sorted_wrt (\<lambda>p q. \<not> eq (fst p) (fst q)) (concat (map (hm_table h) cs))" if "distinct cs" for cs
    using that
  proof (induction cs)
    case (Cons x cs)
    have "\<not> eq (fst p) (fst q)" if p: "p \<in> set (hm_table h x)" and q: "q \<in> set (hm_table h y)" and "y \<in> set cs" for p q y
    proof -
      have "x \<noteq> y" using Cons.prems that(3) by auto
      then show ?thesis using I(4) [OF p] I(4) [OF q] eq_hash by metis
    qed
    then show ?case using Cons I(5) by (auto simp: sorted_wrt_append)
  qed simp
  then show "sorted_wrt (\<lambda>p q. \<not> eq (fst p) (fst q)) kvs" using ord by (simp add: hm_entries_def order_of_def)
  show "hm_get h k = Some v \<longleftrightarrow> (\<exists>k'. (k', v) \<in> set kvs \<and> eq k' k)" if "carrier k"
    using hm_get_any [OF assms(1) that] set by blast
  show "hm_size h = int (length kvs)"
    using order_of_sum [OF ord(1) I(6)] ord(2) assms(1) by (simp add: hm_inv_def)
qed

lemma hm_enum_ex:
  assumes "hm_inv h"
  shows "\<exists>kvs. hm_enum h kvs"
proof -
  obtain ord where "set ord = {code. hm_table h code \<noteq> []}" "distinct ord"
    using finite_distinct_list [OF hm_invD(6) [OF assms]] by blast
  then have "order_of h ord" by (simp add: order_of_def)
  then show ?thesis unfolding hm_enum_def by blast
qed

lemma hm_inv_new: "hm_inv (newHashMap eq hashf)"
  by (simp add: hm_inv_def newHashMap_def chains_ok_def)

end

sublocale hash_keys \<subseteq> hm: map_contract "newHashMap eq hashf" hm_put hm_get hm_enum hm_len hm_inv carrier eq
proof
  show "hm_get (newHashMap eq hashf) k = None" for k by (simp add: hm_get_def newHashMap_def chain_get_def)
  show "eq a c" if "carrier a" "carrier b" "carrier c" "eq a b" "eq b c" for a b c using that by (rule eq_trans)
  show "hm_get (hm_put k v m) k' = (if eq k k' then Some v else hm_get m k')"
    if "hm_inv m" "carrier k" "carrier k'" for m :: "('a, 'b) hashmap" and k v k' using that by (rule hm_put_law)
  show "(hm_get m k = Some v) = (\<exists>k'. (k', v) \<in> set kvs \<and> eq k' k)"
    if "hm_inv m" "hm_enum m kvs" "carrier k" for m :: "('a, 'b) hashmap" and kvs k v using that by (rule hm_enum_laws)
  show "hm_len m = int (length kvs)" if "hm_inv m" "hm_enum m kvs" for m :: "('a, 'b) hashmap" and kvs
    unfolding hm_len_def using that by (rule hm_enum_laws)
qed (rule hm_inv_new, erule (1) hm_put_law(1), erule hm_enum_ex, erule (2) hm_enum_laws(1),
    erule (1) hm_enum_laws(2), erule eq_refl, erule (2) eq_sym)

context hash_keys
begin

lemma chain_delete_law:
  assumes "\<forall>e \<in> set c. carrier (fst e)" and "sorted_wrt (\<lambda>p q. \<not> eq (fst p) (fst q)) c"
    and "carrier k" and "chain_delete (\<lambda>e. eq e k) c = Some d"
  shows "sorted_wrt (\<lambda>p q. \<not> eq (fst p) (fst q)) d" and "set d \<subseteq> set c" and "length c = Suc (length d)" and
    "carrier k' \<Longrightarrow> map_option snd (chain_get (\<lambda>e. eq e k') d) =
       (if eq k k' then None else map_option snd (chain_get (\<lambda>e. eq e k') c))"
proof -
  obtain xs a w ys where c: "c = xs @ (a, w) # ys" "d = xs @ ys" "eq a k" "\<forall>e \<in> set xs. \<not> eq (fst e) k"
    using chain_delete_Some [OF assms(4)] by blast
  show "sorted_wrt (\<lambda>p q. \<not> eq (fst p) (fst q)) d" using assms(2) c by (auto simp: sorted_wrt_append)
  show "set d \<subseteq> set c" "length c = Suc (length d)" using c by auto
  assume k': "carrier k'"
  have ca: "carrier a" using assms(1) c(1) by simp
  have a: "eq a k' \<longleftrightarrow> eq k k'" using ca c(3) k' assms(3) eq_sym eq_trans by blast
  have none: "chain_get (\<lambda>e. eq e k') d = None" if "eq k k'"
  proof -
    have "\<not> eq (fst e) k'" if e: "e \<in> set d" for e
    proof
      assume ek: "eq (fst e) k'"
      have ce: "carrier (fst e)" using assms(1) e c by auto
      then have "eq (fst e) k" "eq (fst e) a" using ek \<open>eq k k'\<close> a k' ca assms(3) eq_sym eq_trans by blast+
      moreover have "\<not> eq a (fst e)" if "e \<in> set ys" using assms(2) that c(1) by (auto simp: sorted_wrt_append)
      ultimately show False using c(2,4) e eq_sym ce ca by auto
    qed
    then show ?thesis by (simp add: chain_get_None)
  qed
  show "map_option snd (chain_get (\<lambda>e. eq e k') d) = (if eq k k' then None else map_option snd (chain_get (\<lambda>e. eq e k') c))"
    using none a c(1,2) by (auto simp: chain_get_append chain_get_Cons split: option.splits)
qed

lemma hm_delete_law:
  assumes "hm_inv h" and "carrier k"
  shows "hm_inv (hm_delete k h)" and
    "carrier k' \<Longrightarrow> hm_get (hm_delete k h) k' = (if eq k k' then None else hm_get h k')"
proof -
  note I = hm_invD [OF assms(1)]
  let ?c = "hm_table h (hashf k)"
  have c: "\<forall>e \<in> set ?c. carrier (fst e)" using I(4) by blast
  have "hm_inv (hm_delete k h) \<and> (carrier k' \<longrightarrow> hm_get (hm_delete k h) k' = (if eq k k' then None else hm_get h k'))"
  proof (cases "chain_delete (\<lambda>e. eq e k) ?c")
    case None
    then have "hm_delete k h = h" by (simp add: hm_delete_def I(1,2))
    moreover have "hm_get h k = None"
      using None by (simp add: hm_get_def I(1,2) chain_delete_None chain_get_None)
    then have "hm_get h k' = None" if "carrier k'" "eq k k'" using that hm.get_eq [OF assms] by metis
    ultimately show ?thesis using assms(1) by auto
  next
    case (Some d)
    note del = chain_delete_law [OF c I(5) assms(2) Some]
    have fields: "hm_table (hm_delete k h) = (hm_table h)(hashf k := d)" "hm_eq (hm_delete k h) = eq"
      "hm_hash (hm_delete k h) = hashf" "hm_size (hm_delete k h) = hm_size h - 1"
      using Some by (simp_all add: hm_delete_def I(1,2))
    have "chains_ok ((hm_table h)(hashf k := d))"
      by (rule chains_ok_upd [OF I(3) _ del(1)]) (use del(2) I(4) in blast)
    then have "hm_inv (hm_delete k h)"
      using assms(1) size_upd [OF I(6), of "hashf k" d] del(3) unfolding hm_inv_def fields by simp
    moreover have "hm_get (hm_delete k h) k' = (if eq k k' then None else hm_get h k')" if "carrier k'"
    proof (cases "hashf k' = hashf k")
      case True
      then show ?thesis using del(4) [OF that] unfolding hm_get_def fields I(1,2) by simp
    next
      case False
      then have "\<not> eq k k'" using eq_hash assms(2) that by metis
      then show ?thesis using False unfolding hm_get_def fields I(1,2) by simp
    qed
    ultimately show ?thesis by blast
  qed
  then show "hm_inv (hm_delete k h)"
    "carrier k' \<Longrightarrow> hm_get (hm_delete k h) k' = (if eq k k' then None else hm_get h k')" by blast+
qed

text \<open>Copy and Update are insertions of an iteration; Equal is the comparison loop.\<close>

lemma hm_copy_law:
  assumes "hm_inv h" and "order_of h ord"
  shows "hm_inv (hm_copy ord h)" and "hm.same_map (hm_copy ord h) h"
proof -
  have e: "hm_enum h (hm_entries ord h)" using assms(2) by (auto simp: hm_enum_def)
  have "hm_copy ord h = fold (\<lambda>(k, v). hm_put k v) (hm_entries ord h) (newHashMap eq hashf)"
    by (simp add: hm_copy_def hm_iter_def iter_fold hm_invD(1,2) [OF assms(1)])
  then show "hm_inv (hm_copy ord h)" "hm.same_map (hm_copy ord h) h"
    using hm.copy_same [OF assms(1) e] by simp_all
qed

lemma hm_update_law:
  assumes "hm_inv h" and "hm_inv g" and "order_of h ord" and "order_of g ord'"
  shows "hm_inv (hm_update ord ord' h g)" and
    "carrier k \<Longrightarrow> hm_get (hm_update ord ord' h g) k = (case hm_get g k of Some v \<Rightarrow> Some v | None \<Rightarrow> hm_get h k)"
proof -
  have e: "hm_enum g (hm_entries ord' g)" using assms(4) by (auto simp: hm_enum_def)
  have u: "hm_update ord ord' h g = fold (\<lambda>(k, v). hm_put k v) (hm_entries ord' g) (hm_copy ord h)"
    by (simp add: hm_update_def hm_iter_def iter_fold)
  note copy = hm_copy_law [OF assms(1,3)]
  note put = hm.put_enum [OF copy(1) assms(2) e]
  show "hm_inv (hm_update ord ord' h g)" unfolding u by (rule put(1))
  assume k: "carrier k"
  have "hm_get (hm_copy ord h) k = hm_get h k" using copy(2) k by (simp add: hm.same_map_def)
  then show "hm_get (hm_update ord ord' h g) k = (case hm_get g k of Some v \<Rightarrow> Some v | None \<Rightarrow> hm_get h k)"
    unfolding u put(2) [OF k] by (simp split: option.splits)
qed

lemma hm_equal_law:
  assumes "hm_inv h" and "hm_inv g" and "order_of h ord"
  shows "hm_equal ord h g \<longleftrightarrow> hm.agree_map eq h g"
proof -
  have e: "hm_enum h (hm_entries ord h)" using assms(3) by (auto simp: hm_enum_def)
  have it: "fst (hm_iter ord h (\<lambda>k v s. (case hm_get g k of None \<Rightarrow> True | Some ov \<Rightarrow> \<not> hm_eq h v ov, s)) ()) \<longleftrightarrow>
      (\<exists>(k, v) \<in> set (hm_entries ord h). case hm_get g k of None \<Rightarrow> True | Some ov \<Rightarrow> \<not> eq v ov)"
    unfolding hm_iter_def iter_until hm_invD(1) [OF assms(1)] ..
  have "hm_equal ord h g \<longleftrightarrow> hm_len h = hm_len g \<and>
      (\<forall>(k, v) \<in> set (hm_entries ord h). \<exists>ov. hm_get g k = Some ov \<and> eq v ov)"
    unfolding hm_equal_def it by (auto split: option.splits)
  then show ?thesis using hm.equal_loop [OF assms(1,2) e, where veq = eq] by simp
qed

lemma hm_hashCode_sum:
  assumes "hm_inv h"
  shows "hm_hashCode ord h = sum_list (map (\<lambda>(k, v). hashf k + hashf v) (hm_entries ord h))"
  by (simp add: hm_hashCode_def hm_iter_def iter_fold fold_add_sum hm_invD [OF assms])

text \<open>Equal maps have equal hash codes, whatever order they are iterated in.\<close>

lemma hm_hashCode_law:
  assumes "hm_inv h" and "hm_inv g" and "order_of h ord" and "order_of g ord'"
    and "hm.agree_map eq h g" and "\<forall>(k, v) \<in> set (hm_entries ord h). carrier v"
    and "\<forall>(k, v) \<in> set (hm_entries ord' g). carrier v"
  shows "hm_hashCode ord h = hm_hashCode ord' g"
  unfolding hm_hashCode_sum [OF assms(1)] hm_hashCode_sum [OF assms(2)]
proof (rule hm.enum_sum [OF assms(1,2)])
  show eh: "hm_enum h (hm_entries ord h)" and eg: "hm_enum g (hm_entries ord' g)"
    using assms(3,4) by (auto simp: hm_enum_def)
  have r: "rel_option eq (hm_get h k) (hm_get g k)" if "carrier k" for k
    using assms(5) that by (simp add: hm.agree_map_def)
  show "hm_get h k \<noteq> None \<longleftrightarrow> hm_get g k \<noteq> None" if "carrier k" for k
    using r [OF that] by (cases "hm_get h k"; cases "hm_get g k") auto
  fix p q assume pq: "p \<in> set (hm_entries ord h)" "q \<in> set (hm_entries ord' g)" "eq (fst q) (fst p)"
  obtain k v k' v' where p: "p = (k, v)" and q: "q = (k', v')" by (cases p; cases q)
  have c: "carrier k" "carrier k'" "carrier v" "carrier v'"
    using hm.enum_carrier [OF assms(1) eh] hm.enum_carrier [OF assms(2) eg] pq assms(6,7) p q by auto
  have "hm_get h k = Some v" "hm_get g k' = Some v'"
    using hm.enum_member [OF assms(1) eh] hm.enum_member [OF assms(2) eg] pq p q by auto
  moreover have "hm_get g k' = hm_get g k" using hm.get_eq [OF assms(2)] c pq(3) p q by simp
  ultimately have "eq v v'" using r [OF c(1)] by simp
  moreover have "eq k' k" using pq(3) p q by simp
  ultimately show "(case p of (k, v) \<Rightarrow> hashf k + hashf v) = (case q of (k, v) \<Rightarrow> hashf k + hashf v)"
    using eq_hash c p q by (metis case_prod_conv)
qed

end

end
