(* ===== verification/Ast_Map.thy ===== *)
theory Ast_Map
  imports Ast_Term Util_Hashmap
begin

text \<open>
  Maps between values, \<open>ast.ValueMap\<close> (ast/map.go): a \<open>util.HashMap\<close> over values compared by
  \<open>Compare\<close> and hashed by \<open>Hash\<close>.  \<open>None\<close> is the nil map, on which reading is allowed and
  writing panics.
\<close>

type_synonym valueMap = "(val, val) hashmap option"

definition valueEq :: "val \<Rightarrow> val \<Rightarrow> bool" where
  "valueEq a b = (compare a b = 0)"

definition valueHash :: "xxhash \<Rightarrow> val \<Rightarrow> hash" where
  "valueHash X v = hash X v"

definition newValueMap :: "xxhash \<Rightarrow> valueMap" where
  "newValueMap X = Some (newHashMap valueEq (valueHash X))"

definition vm_copy :: "hash list \<Rightarrow> valueMap \<Rightarrow> valueMap" where
  "vm_copy ord vs = (case vs of None \<Rightarrow> None | Some m \<Rightarrow> Some (hm_copy ord m))"

definition vm_len :: "valueMap \<Rightarrow> int" where
  "vm_len vs = (case vs of None \<Rightarrow> 0 | Some m \<Rightarrow> hm_len m)"

definition vm_equal :: "hash list \<Rightarrow> valueMap \<Rightarrow> valueMap \<Rightarrow> bool" where
  "vm_equal ord vs other =
     (case vs of
        None \<Rightarrow> other = None \<or> vm_len other = 0
      | Some m \<Rightarrow> (case other of
          None \<Rightarrow> vs = None \<or> vm_len vs = 0
        | Some m' \<Rightarrow> hm_equal ord m m'))"

definition vm_get :: "valueMap \<Rightarrow> val \<Rightarrow> val option" where
  "vm_get vs k = (case vs of None \<Rightarrow> None | Some m \<Rightarrow> hm_get m k)"

definition vm_hash :: "hash list \<Rightarrow> valueMap \<Rightarrow> hash" where
  "vm_hash ord vs = (case vs of None \<Rightarrow> 0 | Some m \<Rightarrow> hm_hashCode ord m)"

definition vm_iter :: "hash list \<Rightarrow> valueMap \<Rightarrow> (val \<Rightarrow> val \<Rightarrow> 's \<Rightarrow> bool \<times> 's) \<Rightarrow> 's \<Rightarrow> bool \<times> 's" where
  "vm_iter ord vs f s = (case vs of None \<Rightarrow> (False, s) | Some m \<Rightarrow> hm_iter ord m f s)"

text \<open>\<open>Put\<close> on a nil map panics.\<close>

definition vm_put :: "val \<Rightarrow> val \<Rightarrow> valueMap \<Rightarrow> valueMap option" where
  "vm_put k v vs = (case vs of None \<Rightarrow> None | Some m \<Rightarrow> Some (Some (hm_put k v m)))"

definition vm_delete :: "val \<Rightarrow> valueMap \<Rightarrow> valueMap" where
  "vm_delete k vs = (case vs of None \<Rightarrow> None | Some m \<Rightarrow> Some (hm_delete k m))"

section \<open>Correctness\<close>

text \<open>The values that the map can hold as keys: their numbers are within the float64 range.\<close>

abbreviation float_nums :: "val \<Rightarrow> bool" where
  "float_nums \<equiv> all_nums num_float64"

interpretation vk: hash_keys "valueHash X" valueEq float_nums for X
proof
  fix x y assume "float_nums x" "float_nums y" "valueEq x y"
  then show "valueHash X x = valueHash X y"
    unfolding valueHash_def by (intro hash_respects_compare) (simp_all add: valueEq_def)
qed (simp_all add: valueEq_def compare_eq_canon)

definition vm_ok :: "xxhash \<Rightarrow> valueMap \<Rightarrow> bool" where
  "vm_ok X vs = (case vs of None \<Rightarrow> True | Some m \<Rightarrow> vk.hm_inv X m)"

text \<open>An order in which Go may iterate over the map.\<close>

definition vm_order :: "valueMap \<Rightarrow> hash list \<Rightarrow> bool" where
  "vm_order vs ord = (case vs of None \<Rightarrow> True | Some m \<Rightarrow> order_of m ord)"

lemma vm_ok_new: "vm_ok X (newValueMap X)"
  by (simp add: vm_ok_def newValueMap_def vk.hm_inv_new)

lemma vm_order_new: "vm_order (newValueMap X) ord = distinct ord"
  by (simp add: vm_order_def newValueMap_def newHashMap_def order_of_def)

lemma newValueMap_not_nil: "newValueMap X \<noteq> None"
  by (simp add: newValueMap_def)

lemma vm_get_new: "vm_get (newValueMap X) k = None"
  by (simp add: vm_get_def newValueMap_def vk.hm.get_emp)

lemma vm_put_law:
  assumes "vm_ok X vs" and "vs \<noteq> None" and "float_nums k"
  obtains vs' where "vm_put k v vs = Some vs'" and "vm_ok X vs'" and "vs' \<noteq> None"
    and "\<And>k'. float_nums k' \<Longrightarrow> vm_get vs' k' = (if compare k k' = 0 then Some v else vm_get vs k')"
proof -
  obtain m where m: "vs = Some m" "vk.hm_inv X m" using assms(1,2) by (auto simp: vm_ok_def)
  show thesis
    by (rule that [of "Some (hm_put k v m)"])
      (use m vk.hm_put_law [OF m(2) assms(3)] in \<open>auto simp: vm_put_def vm_ok_def vm_get_def valueEq_def\<close>)
qed

lemma vm_delete_law:
  assumes "vm_ok X vs" and "float_nums k"
  shows "vm_ok X (vm_delete k vs)" and
    "float_nums k' \<Longrightarrow> vm_get (vm_delete k vs) k' = (if compare k k' = 0 then None else vm_get vs k')"
  using assms vk.hm_delete_law [of X "the vs" k]
  by (auto simp: vm_ok_def vm_delete_def vm_get_def valueEq_def split: option.splits)

lemma vm_get_cong:
  assumes "vm_ok X vs" and "float_nums k" and "float_nums k'" and "compare k k' = 0"
  shows "vm_get vs k = vm_get vs k'"
  using assms vk.hm.get_eq [of X "the vs" k k'] by (auto simp: vm_ok_def vm_get_def valueEq_def split: option.splits)

text \<open>
  C18.  A value map is a finite map up to \<open>Compare\<close>, for keys whose numbers are in the float64 range:
  \<open>Put\<close> on a map that is not nil overwrites the value of the key and of nothing else, \<open>Delete\<close> removes
  the key and nothing else, and a copy has the same entries; \<open>Put\<close> on the nil map panics and the
  other operations treat it as empty.\<close>

theorem value_map_operations:
  assumes "vm_ok X vs" and "vm_order vs ord" and "float_nums k" and "float_nums k'"
  shows "(case vm_put k v vs of
            None \<Rightarrow> vs = None
          | Some vs' \<Rightarrow> vm_ok X vs' \<and> vm_get vs' k' = (if compare k k' = 0 then Some v else vm_get vs k')) \<and>
         vm_ok X (vm_delete k vs) \<and>
         vm_get (vm_delete k vs) k' = (if compare k k' = 0 then None else vm_get vs k') \<and>
         vm_ok X (vm_copy ord vs) \<and> vm_get (vm_copy ord vs) k' = vm_get vs k' \<and> vm_len (vm_copy ord vs) = vm_len vs"
proof (cases vs)
  case None
  then show ?thesis by (simp add: vm_put_def vm_ok_def vm_delete_def vm_get_def vm_copy_def)
next
  case (Some m)
  then have m: "vk.hm_inv X m" "order_of m ord" using assms(1,2) by (auto simp: vm_ok_def vm_order_def)
  note copy = vk.hm_copy_law [OF m]
  have "hm_len (hm_copy ord m) = hm_len m" by (rule vk.hm.same_map_len [OF copy(1) m(1) copy(2)])
  moreover have "vk.hm_inv X (hm_put k v m)" "hm_get (hm_put k v m) k' = (if compare k k' = 0 then Some v else hm_get m k')"
    using vk.hm_put_law [OF m(1) assms(3)] assms(4) by (simp_all add: valueEq_def)
  ultimately show ?thesis
    using Some copy assms(4) vm_delete_law [OF assms(1,3)]
    by (simp add: vm_put_def vm_ok_def vm_get_def vm_copy_def vm_len_def vk.hm.same_map_def)
qed

theorem value_map_operations_witness:
  "(case vm_put (String ''a'') Null (newValueMap xx0) of
      None \<Rightarrow> False
    | Some vs' \<Rightarrow> vm_get vs' (String ''a'') = Some Null)"
  using value_map_operations [of xx0 "newValueMap xx0" "[]" "String ''a''" "String ''a''" Null]
    newValueMap_not_nil [of xx0]
  by (auto simp: vm_ok_new vm_order_new compare_eq_canon split: option.splits)

text \<open>
  Two value maps are equal when they have the same keys up to \<open>Compare\<close> with values that
  compare equal; the result does not depend on the order of iteration, and equal maps have equal hashes.\<close>

theorem value_map_equal:
  assumes "vm_ok X (Some m)" and "vm_ok X (Some n)" and "order_of m ord" and "order_of n ord'"
    and "\<forall>(k, v) \<in> set (hm_entries ord m). float_nums v" and "\<forall>(k, v) \<in> set (hm_entries ord' n). float_nums v"
  shows "(vm_equal ord (Some m) (Some n) \<longleftrightarrow>
           (\<forall>k. float_nums k \<longrightarrow> rel_option (\<lambda>a b. compare a b = 0) (vm_get (Some m) k) (vm_get (Some n) k))) \<and>
         (vm_equal ord (Some m) (Some n) \<longrightarrow> vm_hash ord (Some m) = vm_hash ord' (Some n))"
proof -
  have i: "vk.hm_inv X m" "vk.hm_inv X n" using assms(1,2) by (auto simp: vm_ok_def)
  have e: "valueEq = (\<lambda>a b. compare a b = 0)" by (intro ext) (simp add: valueEq_def)
  show ?thesis
    using vk.hm_equal_law [OF i assms(3)] vk.hm_hashCode_law [OF i assms(3,4) _ assms(5,6)]
    by (auto simp: vm_equal_def vm_hash_def vm_get_def vk.hm.agree_map_def e)
qed

theorem value_map_equal_witness:
  "vm_equal [] (newValueMap xx0) (newValueMap xx0) \<and> vm_hash [] (newValueMap xx0) = vm_hash [0] (newValueMap xx0)"
  using value_map_equal [of xx0 "newHashMap valueEq (valueHash xx0)" "newHashMap valueEq (valueHash xx0)" "[]" "[0]"]
    vm_ok_new [of xx0]
  by (simp add: newValueMap_def order_of_def newHashMap_def hm_entries_def vm_get_def hm_get_def chain_get_def)

end
