(* ===== verification/Union_Find.thy ===== *)
theory Union_Find
  imports Ast_Map
begin

text \<open>
  The union-find structure of copy propagation (topdown/copypropagation/unionfind.go) and the
  disjoint sets of a query that it is used for (\<open>makeDisjointSets\<close> in copypropagation.go).

  A pointer to a root is an index into a store of roots that only grows.  \<open>Find\<close> recurses along the
  parents, which the types do not bound, and is partial; it panics where a value is its own parent
  without having a root.
\<close>

record uf_root =
  root_key :: val
  root_constant :: "val option"

record union_find =
  uf_roots :: "(val, nat) hashmap"
  uf_parents :: valueMap
  uf_store :: "uf_root list"

datatype uf_panic = Panic

definition newUnionFind :: "xxhash \<Rightarrow> union_find" where
  "newUnionFind X =
     \<lparr>uf_roots = newHashMap valueEq (valueHash X), uf_parents = newValueMap X, uf_store = []\<rparr>"

definition newUnionFindRoot :: "val \<Rightarrow> uf_root" where
  "newUnionFindRoot k = \<lparr>root_key = k, root_constant = None\<rparr>"

definition root_value :: "uf_root \<Rightarrow> val" where
  "root_value r = (case root_constant r of Some c \<Rightarrow> c | None \<Rightarrow> root_key r)"

partial_function (option) uf_find :: "union_find \<Rightarrow> val \<Rightarrow> (uf_panic + nat option) option" where
  "uf_find u v =
     (case vm_get (uf_parents u) v of
        None \<Rightarrow> Some (Inr None)
      | Some parent \<Rightarrow>
          if compare parent v = 0 then
            (case hm_get (uf_roots u) v of None \<Rightarrow> Some (Inl Panic) | Some r \<Rightarrow> Some (Inr (Some r)))
          else uf_find u parent)"

declare uf_find.simps [code]

text \<open>The parents map is never nil, so that \<open>Put\<close> does not panic.\<close>

definition uf_makeSet :: "val \<Rightarrow> union_find \<Rightarrow> (uf_panic + (nat \<times> union_find)) option" where
  "uf_makeSet v u =
     (case uf_find u v of
        None \<Rightarrow> None
      | Some (Inl p) \<Rightarrow> Some (Inl p)
      | Some (Inr (Some rt)) \<Rightarrow> Some (Inr (rt, u))
      | Some (Inr None) \<Rightarrow>
          (case vm_put v v (uf_parents u) of
             None \<Rightarrow> Some (Inl Panic)
           | Some parents \<Rightarrow>
               (let rt = length (uf_store u)
                in Some (Inr (rt,
                     \<lparr>uf_roots = hm_put v rt (uf_roots u), uf_parents = parents,
                      uf_store = uf_store u @ [newUnionFindRoot v]\<rparr>)))))"

text \<open>
  \<open>Merge\<close>.  The rank function gets two roots and returns them in the order in which the first
  becomes the parent.  The result is \<open>None\<close> where two different constants meet.
\<close>

type_synonym rankFunc = "uf_root list \<Rightarrow> nat \<Rightarrow> nat \<Rightarrow> nat \<times> nat"

definition uf_link :: "rankFunc \<Rightarrow> nat \<Rightarrow> nat \<Rightarrow> union_find \<Rightarrow> uf_panic + (nat option \<times> union_find)" where
  "uf_link rank r1 r2 u =
     (let (r1, r2) = rank (uf_store u) r1 r2; k1 = root_key (uf_store u ! r1); k2 = root_key (uf_store u ! r2);
          c1 = root_constant (uf_store u ! r1); c2 = root_constant (uf_store u ! r2)
      in case vm_put k2 k1 (uf_parents u) of
           None \<Rightarrow> Inl Panic
         | Some parents \<Rightarrow>
             (let u' = u\<lparr>uf_parents := parents, uf_roots := hm_delete k2 (uf_roots u)\<rparr>
              in if c1 \<noteq> None \<and> c2 \<noteq> None \<and> \<not> term_equal (the c1) (the c2) then Inr (None, u')
                 else if c1 = None
                 then Inr (Some r1, u'\<lparr>uf_store := (uf_store u)[r1 := (uf_store u ! r1)\<lparr>root_constant := c2\<rparr>]\<rparr>)
                 else Inr (Some r1, u')))"

definition uf_merge :: "rankFunc \<Rightarrow> val \<Rightarrow> val \<Rightarrow> union_find \<Rightarrow> (uf_panic + (nat option \<times> union_find)) option" where
  "uf_merge rank a b u =
     (case uf_makeSet a u of
        None \<Rightarrow> None
      | Some (Inl p) \<Rightarrow> Some (Inl p)
      | Some (Inr (r1, u1)) \<Rightarrow>
          (case uf_makeSet b u1 of
             None \<Rightarrow> None
           | Some (Inl p) \<Rightarrow> Some (Inl p)
           | Some (Inr (r2, u2)) \<Rightarrow>
               if r1 \<noteq> r2 then Some (uf_link rank r1 r2 u2) else Some (Inr (Some r1, u2))))"

section \<open>Disjoint sets of a query\<close>

definition isGlobalBuiltin :: "expr \<Rightarrow> string \<Rightarrow> bool" where
  "isGlobalBuiltin e name =
     (case Terms e of
        TermList (t # ts) \<Rightarrow> (case t of Ref [Var v] \<Rightarrow> v = name | _ \<Rightarrow> False)
      | _ \<Rightarrow> False)"

definition isEquality :: "expr \<Rightarrow> bool" where
  "isEquality e = isGlobalBuiltin e ''eq''"

definition operand :: "expr \<Rightarrow> nat \<Rightarrow> val option" where
  "operand e pos =
     (case Terms e of
        TermList ts \<Rightarrow> if pos + 1 < length ts then Some (ts ! (pos + 1)) else None
      | _ \<Rightarrow> None)"

definition live_rank :: "string set \<Rightarrow> rankFunc" where
  "live_rank livevars store r1 r2 =
     (case root_key (store ! r1) of
        Var v \<Rightarrow> if v \<in> livevars then (r1, r2) else (r2, r1)
      | _ \<Rightarrow> (r2, r1))"

text \<open>Give the set of a variable a constant; the set must not have another one.\<close>

definition bind_constant :: "val \<Rightarrow> val \<Rightarrow> union_find \<Rightarrow> (uf_panic + union_find option) option" where
  "bind_constant var c u =
     (case uf_makeSet var u of
        None \<Rightarrow> None
      | Some (Inl p) \<Rightarrow> Some (Inl p)
      | Some (Inr (rt, u')) \<Rightarrow>
          (let r = uf_store u' ! rt
           in if root_constant r \<noteq> None \<and> \<not> term_equal (the (root_constant r)) c then Some (Inr None)
              else Some (Inr (Some (u'\<lparr>uf_store := (uf_store u')[rt := r\<lparr>root_constant := Some c\<rparr>]\<rparr>)))))"

text \<open>The step of the loop for one expression.  A missing operand is a nil dereference.\<close>

definition disjoint_step :: "string set \<Rightarrow> expr \<Rightarrow> union_find \<Rightarrow> (uf_panic + union_find option) option" where
  "disjoint_step livevars e u =
     (if isEquality e \<and> \<not> Negated e \<and> Withs e = [] then
        (case (operand e 0, operand e 1) of
           (Some a, Some b) \<Rightarrow>
             (case (a, b) of
                (Var x, Var y) \<Rightarrow>
                  (case uf_merge (live_rank livevars) (Var x) (Var y) u of
                     None \<Rightarrow> None
                   | Some (Inl p) \<Rightarrow> Some (Inl p)
                   | Some (Inr (None, u')) \<Rightarrow> Some (Inr None)
                   | Some (Inr (Some r, u')) \<Rightarrow> Some (Inr (Some u')))
              | (Var x, _) \<Rightarrow> if isConstant b then bind_constant (Var x) b u else Some (Inr (Some u))
              | (_, Var y) \<Rightarrow> if isConstant a then bind_constant (Var y) a u else Some (Inr (Some u))
              | _ \<Rightarrow> Some (Inr (Some u)))
         | _ \<Rightarrow> Some (Inl Panic))
      else Some (Inr (Some u)))"

fun disjoint_loop :: "string set \<Rightarrow> body \<Rightarrow> union_find \<Rightarrow> (uf_panic + union_find option) option" where
  "disjoint_loop livevars [] u = Some (Inr (Some u))"
| "disjoint_loop livevars (e # es) u =
     (case disjoint_step livevars e u of
        Some (Inr (Some u')) \<Rightarrow> disjoint_loop livevars es u'
      | r \<Rightarrow> r)"

definition makeDisjointSets :: "xxhash \<Rightarrow> string set \<Rightarrow> body \<Rightarrow> (uf_panic + union_find option) option" where
  "makeDisjointSets X livevars query = disjoint_loop livevars query (newUnionFind X)"

section \<open>The parents form a forest\<close>

text \<open>\<open>leads u v r\<close>: following the parents from v ends at the root r.\<close>

inductive leads :: "union_find \<Rightarrow> val \<Rightarrow> nat \<Rightarrow> bool" for u where
  leads_here: "vm_get (uf_parents u) v = Some p \<Longrightarrow> compare p v = 0 \<Longrightarrow> hm_get (uf_roots u) v = Some r \<Longrightarrow> leads u v r"
| leads_up: "vm_get (uf_parents u) v = Some p \<Longrightarrow> compare p v \<noteq> 0 \<Longrightarrow> leads u p r \<Longrightarrow> leads u v r"

lemma leads_find: "leads u v r \<Longrightarrow> uf_find u v = Some (Inr (Some r))"
  by (induction rule: leads.induct) (subst uf_find.simps, simp)+

lemma leads_unique: "leads u v r \<Longrightarrow> leads u v r' \<Longrightarrow> r = r'"
  using leads_find [of u v r] leads_find [of u v r'] by simp

lemma leads_parent: "leads u v r \<Longrightarrow> \<exists>p. vm_get (uf_parents u) v = Some p"
  by (auto elim: leads.cases)

definition uf_ok :: "xxhash \<Rightarrow> union_find \<Rightarrow> bool" where
  "uf_ok X u \<longleftrightarrow> vm_ok X (uf_parents u) \<and> uf_parents u \<noteq> None \<and> vk.hm_inv X (uf_roots u) \<and>
     (\<forall>v p. float_nums v \<and> vm_get (uf_parents u) v = Some p \<longrightarrow> float_nums p \<and> (\<exists>r. leads u v r)) \<and>
     (\<forall>v r. float_nums v \<and> hm_get (uf_roots u) v = Some r \<longrightarrow>
        r < length (uf_store u) \<and> compare (root_key (uf_store u ! r)) v = 0 \<and>
        (\<exists>p. vm_get (uf_parents u) v = Some p \<and> compare p v = 0)) \<and>
     (\<forall>r < length (uf_store u). float_nums (root_key (uf_store u ! r)))"

lemma uf_okD:
  assumes "uf_ok X u"
  shows "vm_ok X (uf_parents u)" "uf_parents u \<noteq> None" "vk.hm_inv X (uf_roots u)"
    "\<And>v p. float_nums v \<Longrightarrow> vm_get (uf_parents u) v = Some p \<Longrightarrow> float_nums p"
    "\<And>v p. float_nums v \<Longrightarrow> vm_get (uf_parents u) v = Some p \<Longrightarrow> \<exists>r. leads u v r"
    "\<And>v r. float_nums v \<Longrightarrow> hm_get (uf_roots u) v = Some r \<Longrightarrow> r < length (uf_store u)"
    "\<And>v r. float_nums v \<Longrightarrow> hm_get (uf_roots u) v = Some r \<Longrightarrow> compare (root_key (uf_store u ! r)) v = 0"
    "\<And>v r. float_nums v \<Longrightarrow> hm_get (uf_roots u) v = Some r \<Longrightarrow> \<exists>p. vm_get (uf_parents u) v = Some p \<and> compare p v = 0"
    "\<And>r. r < length (uf_store u) \<Longrightarrow> float_nums (root_key (uf_store u ! r))"
  using assms unfolding uf_ok_def by blast+

lemma compare_sym0: "compare a b = 0 \<Longrightarrow> compare b a = 0"
  by (simp add: compare_eq_canon)

lemma compare_trans0: "compare a b = 0 \<Longrightarrow> compare b c = 0 \<Longrightarrow> compare a c = 0"
  by (simp add: compare_eq_canon)

lemma roots_cong:
  assumes "uf_ok X u" and "float_nums v" and "float_nums w" and "compare v w = 0"
  shows "hm_get (uf_roots u) v = hm_get (uf_roots u) w"
  using vk.hm.get_eq [OF uf_okD(3) [OF assms(1)] assms(2,3)] assms(4) by (simp add: valueEq_def)

lemma parents_cong:
  assumes "uf_ok X u" and "float_nums v" and "float_nums w" and "compare v w = 0"
  shows "vm_get (uf_parents u) v = vm_get (uf_parents u) w"
  by (rule vm_get_cong [OF uf_okD(1) [OF assms(1)] assms(2-4)])

text \<open>The root at the end of a path is registered under its own key.\<close>

lemma leads_root:
  assumes "uf_ok X u" and "leads u v r" and "float_nums v"
  shows "r < length (uf_store u)" and "hm_get (uf_roots u) (root_key (uf_store u ! r)) = Some r" and
    "leads u (root_key (uf_store u ! r)) r"
proof -
  note I = uf_okD [OF assms(1)]
  have "r < length (uf_store u) \<and> hm_get (uf_roots u) (root_key (uf_store u ! r)) = Some r"
    using assms(2,3)
  proof (induction rule: leads.induct)
    case (leads_here v p r)
    then have r: "r < length (uf_store u)" "compare (root_key (uf_store u ! r)) v = 0" using I(6,7) by blast+
    then show ?case using roots_cong [OF assms(1) I(9) _ r(2)] leads_here by simp
  next
    case (leads_up v p r)
    then show ?case using I(4) by blast
  qed
  then show r: "r < length (uf_store u)" "hm_get (uf_roots u) (root_key (uf_store u ! r)) = Some r" by blast+
  then show "leads u (root_key (uf_store u ! r)) r" using I(8) [OF I(9)] leads_here by blast
qed

lemma find_leads:
  assumes "uf_ok X u" and "float_nums v"
  shows "uf_find u v = Some (Inr (Some r)) \<longleftrightarrow> leads u v r" and
    "(\<nexists>r. leads u v r) \<longleftrightarrow> vm_get (uf_parents u) v = None" and
    "vm_get (uf_parents u) v = None \<Longrightarrow> uf_find u v = Some (Inr None)"
proof -
  show none: "uf_find u v = Some (Inr None)" if "vm_get (uf_parents u) v = None"
    using that by (simp add: uf_find.simps)
  show iff: "(\<nexists>r. leads u v r) \<longleftrightarrow> vm_get (uf_parents u) v = None"
    using uf_okD(5) [OF assms] by (cases "vm_get (uf_parents u) v") (auto elim: leads.cases)
  show "uf_find u v = Some (Inr (Some r)) \<longleftrightarrow> leads u v r"
  proof
    assume f: "uf_find u v = Some (Inr (Some r))"
    then have "vm_get (uf_parents u) v \<noteq> None" using none by auto
    then have "\<exists>r'. leads u v r'" using iff by auto
    then obtain r' where r': "leads u v r'" ..
    then show "leads u v r" using f leads_find [OF r'] by simp
  qed (rule leads_find)
qed

lemma uf_ok_new: "uf_ok X (newUnionFind X)"
  using vk.hm_inv_new [of X] vm_get_new [of X]
  by (auto simp: uf_ok_def newUnionFind_def vm_ok_new newValueMap_not_nil vk.hm.get_emp)

section \<open>MakeSet and Merge\<close>

definition same_keys :: "union_find \<Rightarrow> union_find \<Rightarrow> bool" where
  "same_keys u u' \<longleftrightarrow> map root_key (uf_store u) = map root_key (uf_store u')"

lemma same_keys_update:
  assumes "r < length st"
  shows "map root_key (st[r := (st ! r)\<lparr>root_constant := c\<rparr>]) = map root_key st"
proof -
  have "map root_key (st[r := (st ! r)\<lparr>root_constant := c\<rparr>]) = (map root_key st)[r := map root_key st ! r]"
    using assms by (simp add: map_update)
  then show ?thesis by simp
qed

text \<open>A new value becomes a root of its own; nothing else changes.\<close>

lemma makeSet_new:
  assumes "uf_ok X u" and "float_nums v" and none: "vm_get (uf_parents u) v = None"
  obtains u' where "uf_makeSet v u = Some (Inr (length (uf_store u), u'))" and "uf_ok X u'"
    and "uf_store u' = uf_store u @ [newUnionFindRoot v]"
    and "\<And>w r. float_nums w \<Longrightarrow> leads u' w r \<longleftrightarrow> (if compare v w = 0 then r = length (uf_store u) else leads u w r)"
proof -
  note I = uf_okD [OF assms(1)]
  let ?n = "length (uf_store u)"
  obtain ps where ps: "vm_put v v (uf_parents u) = Some ps" "vm_ok X ps" "ps \<noteq> None"
    "\<And>w. float_nums w \<Longrightarrow> vm_get ps w = (if compare v w = 0 then Some v else vm_get (uf_parents u) w)"
    using vm_put_law [OF I(1,2) assms(2)] by metis
  define u' where "u' = \<lparr>uf_roots = hm_put v ?n (uf_roots u), uf_parents = ps, uf_store = uf_store u @ [newUnionFindRoot v]\<rparr>"
  have u': "uf_parents u' = ps" "uf_store u' = uf_store u @ [newUnionFindRoot v]"
    "\<And>w. float_nums w \<Longrightarrow> hm_get (uf_roots u') w = (if compare v w = 0 then Some ?n else hm_get (uf_roots u) w)"
    "vk.hm_inv X (uf_roots u')"
    using vk.hm_put_law [OF I(3) assms(2)] by (simp_all add: u'_def valueEq_def)
  have make: "uf_makeSet v u = Some (Inr (?n, u'))"
    using find_leads(3) [OF assms] ps(1) by (simp add: uf_makeSet_def u'_def Let_def)
  have new: "leads u' w ?n" if "float_nums w" "compare v w = 0" for w
    by (rule leads_here [of _ _ v]) (use that ps(4) u'(1,3) in auto)
  have old: "leads u' w r" if "leads u w r" "float_nums w" for w r
    using that
  proof (induction rule: leads.induct)
    case (leads_here w p r)
    then have "compare v w \<noteq> 0" using parents_cong [OF assms(1,2)] none by fastforce
    then have "vm_get (uf_parents u') w = Some p" "hm_get (uf_roots u') w = Some r"
      using leads_here.hyps leads_here.prems ps(4) u'(1,3) by simp_all
    then show ?case using leads_here.hyps(2) by (intro leads.leads_here)
  next
    case (leads_up w p r)
    then have "compare v w \<noteq> 0" using parents_cong [OF assms(1,2)] none by fastforce
    then have up: "vm_get (uf_parents u') w = Some p" using leads_up.hyps(1) leads_up.prems ps(4) u'(1) by simp
    have "leads u' p r" using leads_up.IH I(4) [OF leads_up.prems leads_up.hyps(1)] .
    then show ?case by (rule leads.leads_up [OF up leads_up.hyps(2)])
  qed
  have iff: "leads u' w r \<longleftrightarrow> (if compare v w = 0 then r = ?n else leads u w r)" if w: "float_nums w" for w r
  proof (cases "compare v w = 0")
    case True
    then show ?thesis using new [OF w True] leads_unique by auto
  next
    case False
    have "leads u w r" if "leads u' w r"
    proof -
      have "\<exists>p. vm_get (uf_parents u) w = Some p" using leads_parent [OF that] False ps(4) [OF w] u'(1) by simp
      then obtain r' where r': "leads u w r'" using I(5) [OF w] by blast
      then show ?thesis using leads_unique [OF old [OF r' w] that] by simp
    qed
    then show ?thesis using False old w by auto
  qed
  have "uf_ok X u'"
    unfolding uf_ok_def
  proof (intro conjI allI impI)
    show "vm_ok X (uf_parents u')" "uf_parents u' \<noteq> None" "vk.hm_inv X (uf_roots u')" using ps u' by simp_all
    fix w p assume "float_nums w \<and> vm_get (uf_parents u') w = Some p"
    then show "float_nums p" "\<exists>r. leads u' w r"
      using I(4,5) ps(4) u'(1) assms(2) new old by (metis option.inject)+
  next
    fix w r assume wr: "float_nums w \<and> hm_get (uf_roots u') w = Some r"
    show "r < length (uf_store u')" "compare (root_key (uf_store u' ! r)) w = 0"
      "\<exists>p. vm_get (uf_parents u') w = Some p \<and> compare p w = 0"
      using wr I(6-8) ps(4) u'(1-3) by (auto split: if_splits simp: nth_append newUnionFindRoot_def less_Suc_eq)
  next
    fix r assume "r < length (uf_store u')"
    then show "float_nums (root_key (uf_store u' ! r))"
      using I(9) assms(2) u'(2) by (auto simp: nth_append newUnionFindRoot_def less_Suc_eq)
  qed
  then show thesis using that make u'(2) iff by blast
qed

lemma makeSet_old:
  assumes "leads u v r"
  shows "uf_makeSet v u = Some (Inr (r, u))"
  using leads_find [OF assms] by (simp add: uf_makeSet_def)

text \<open>Hanging the root r2 below the root r1 redirects every path that ended at r2.\<close>

definition redirected :: "nat \<Rightarrow> nat \<Rightarrow> union_find \<Rightarrow> union_find \<Rightarrow> bool" where
  "redirected r1 r2 u u' \<longleftrightarrow>
     vm_put (root_key (uf_store u ! r2)) (root_key (uf_store u ! r1)) (uf_parents u) = Some (uf_parents u') \<and>
     uf_roots u' = hm_delete (root_key (uf_store u ! r2)) (uf_roots u) \<and> same_keys u u'"

lemma redirected_maps:
  assumes "uf_ok X u" and "redirected r1 r2 u u'" and "r2 < length (uf_store u)"
  defines "k1 \<equiv> root_key (uf_store u ! r1)" and "k2 \<equiv> root_key (uf_store u ! r2)"
  shows "float_nums w \<Longrightarrow> vm_get (uf_parents u') w = (if compare k2 w = 0 then Some k1 else vm_get (uf_parents u) w)"
    and "float_nums w \<Longrightarrow> hm_get (uf_roots u') w = (if compare k2 w = 0 then None else hm_get (uf_roots u) w)"
    and "vm_ok X (uf_parents u')" and "uf_parents u' \<noteq> None" and "vk.hm_inv X (uf_roots u')"
proof -
  note I = uf_okD [OF assms(1)]
  have k2: "float_nums k2" unfolding k2_def using I(9) assms(3) by blast
  obtain ps where ps: "vm_put k2 k1 (uf_parents u) = Some ps" "vm_ok X ps" "ps \<noteq> None"
    "\<And>w. float_nums w \<Longrightarrow> vm_get ps w = (if compare k2 w = 0 then Some k1 else vm_get (uf_parents u) w)"
    using vm_put_law [OF I(1,2) k2, of k1] by metis
  have "uf_parents u' = ps" using ps(1) assms(2) by (simp add: redirected_def k1_def k2_def)
  then show "float_nums w \<Longrightarrow> vm_get (uf_parents u') w = (if compare k2 w = 0 then Some k1 else vm_get (uf_parents u) w)"
    "vm_ok X (uf_parents u')" "uf_parents u' \<noteq> None" using ps by simp_all
  have "uf_roots u' = hm_delete k2 (uf_roots u)" using assms(2) by (simp add: redirected_def k2_def)
  then show "float_nums w \<Longrightarrow> hm_get (uf_roots u') w = (if compare k2 w = 0 then None else hm_get (uf_roots u) w)"
    "vk.hm_inv X (uf_roots u')" using vk.hm_delete_law [OF I(3) k2] by (simp_all add: valueEq_def)
qed

lemma redirected_leads:
  assumes "uf_ok X u" and "redirected r1 r2 u u'" and "r1 \<noteq> r2"
    and l1: "leads u (root_key (uf_store u ! r1)) r1" and l2: "leads u (root_key (uf_store u ! r2)) r2"
    and r: "r1 < length (uf_store u)" "r2 < length (uf_store u)"
    and "leads u w r" and "float_nums w"
  shows "leads u' w (if r = r2 then r1 else r)"
proof -
  note I = uf_okD [OF assms(1)]
  let ?k1 = "root_key (uf_store u ! r1)" and ?k2 = "root_key (uf_store u ! r2)"
  note M = redirected_maps [OF assms(1,2) r(2)]
  have k: "float_nums ?k1" "float_nums ?k2" using I(9) r by blast+
  have h: "hm_get (uf_roots u) ?k1 = Some r1" "hm_get (uf_roots u) ?k2 = Some r2"
    using leads_root(2) [OF assms(1) l1 k(1)] leads_root(2) [OF assms(1) l2 k(2)] by simp_all
  have ne: "compare ?k2 ?k1 \<noteq> 0" using roots_cong [OF assms(1) k(2,1)] h assms(3) by fastforce
  obtain p1 p2 where p: "vm_get (uf_parents u) ?k1 = Some p1" "compare p1 ?k1 = 0"
    "vm_get (uf_parents u) ?k2 = Some p2" "compare p2 ?k2 = 0" using I(8) [OF k(1) h(1)] I(8) [OF k(2) h(2)] by blast
  have k1: "leads u' ?k1 r1"
    by (rule leads_here [of _ _ p1]) (use p(1,2) h(1) ne M(1,2) [OF k(1)] in simp_all)
  show ?thesis using assms(8,9)
  proof (induction rule: leads.induct)
    case (leads_here w p r)
    show ?case
    proof (cases "compare ?k2 w = 0")
      case True
      then have "r = r2" using roots_cong [OF assms(1) k(2) leads_here.prems True] h(2) leads_here.hyps(3) by simp
      moreover have up: "vm_get (uf_parents u') w = Some ?k1" using M(1) [OF leads_here.prems] True by simp
      have "compare ?k1 w \<noteq> 0" using True ne by (simp add: compare_eq_canon)
      then have "leads u' w r1" by (rule leads.leads_up [OF up _ k1])
      ultimately show ?thesis by simp
    next
      case False
      have "r \<noteq> r2" using I(7) [OF leads_here.prems leads_here.hyps(3)] False by auto
      moreover have "leads u' w r"
        by (rule leads.leads_here [of _ _ p]) (use False leads_here M(1,2) [OF leads_here.prems] in simp_all)
      ultimately show ?thesis by simp
    qed
  next
    case (leads_up w p r)
    have "compare ?k2 w \<noteq> 0"
    proof
      assume "compare ?k2 w = 0"
      then have "p = p2" "compare p2 w = 0"
        using parents_cong [OF assms(1) k(2) leads_up.prems] p(3,4) leads_up.hyps(1) by (auto simp: compare_eq_canon)
      then show False using leads_up.hyps(2) by simp
    qed
    then have up: "vm_get (uf_parents u') w = Some p" using M(1) [OF leads_up.prems] leads_up.hyps(1) by simp
    have "leads u' p (if r = r2 then r1 else r)"
      using leads_up.IH I(4) [OF leads_up.prems leads_up.hyps(1)] .
    then show ?case by (rule leads.leads_up [OF up leads_up.hyps(2)])
  qed
qed

lemma redirected_ok:
  assumes "uf_ok X u" and "redirected r1 r2 u u'" and "r1 \<noteq> r2"
    and l1: "leads u (root_key (uf_store u ! r1)) r1" and l2: "leads u (root_key (uf_store u ! r2)) r2"
    and r: "r1 < length (uf_store u)" "r2 < length (uf_store u)"
  shows "uf_ok X u'" and
    "float_nums w \<Longrightarrow> leads u' w r' \<longleftrightarrow> (\<exists>r. leads u w r \<and> r' = (if r = r2 then r1 else r))"
proof -
  note I = uf_okD [OF assms(1)]
  note M = redirected_maps [OF assms(1,2) r(2)]
  note L = redirected_leads [OF assms]
  have k: "float_nums (root_key (uf_store u ! r1))" "float_nums (root_key (uf_store u ! r2))" using I(9) r by blast+
  have len: "length (uf_store u') = length (uf_store u)" and keys: "\<And>i. i < length (uf_store u) \<Longrightarrow> root_key (uf_store u' ! i) = root_key (uf_store u ! i)"
    using assms(2) unfolding redirected_def same_keys_def by (metis length_map, metis length_map nth_map)
  have dom: "\<exists>r. leads u v r" if v: "float_nums v" and "vm_get (uf_parents u') v = Some p" for v p
  proof (cases "compare (root_key (uf_store u ! r2)) v = 0")
    case True
    then have "vm_get (uf_parents u) v = vm_get (uf_parents u) (root_key (uf_store u ! r2))"
      using parents_cong [OF assms(1) k(2) v] by simp
    then show ?thesis using leads_parent [OF l2] I(5) [OF v] by auto
  next
    case False
    then have "vm_get (uf_parents u) v = Some p" using M(1) [OF v] that(2) by simp
    then show ?thesis by (rule I(5) [OF v])
  qed
  show "uf_ok X u'"
    unfolding uf_ok_def
  proof (intro conjI allI impI)
    show "vm_ok X (uf_parents u')" "uf_parents u' \<noteq> None" "vk.hm_inv X (uf_roots u')" by (rule M)+
    fix v p assume vp: "float_nums v \<and> vm_get (uf_parents u') v = Some p"
    then show "float_nums p" using M(1) I(4) k(1) by (metis option.inject)
    show "\<exists>r. leads u' v r" using dom L vp by blast
  next
    fix v i assume "float_nums v \<and> hm_get (uf_roots u') v = Some i"
    then show "i < length (uf_store u')" "compare (root_key (uf_store u' ! i)) v = 0"
      "\<exists>p. vm_get (uf_parents u') v = Some p \<and> compare p v = 0"
      using M(1,2) I(6-8) len keys by (auto split: if_splits)
  next
    fix i assume "i < length (uf_store u')"
    then show "float_nums (root_key (uf_store u' ! i))" using I(9) len keys by simp
  qed
  assume w: "float_nums w"
  show "leads u' w r' \<longleftrightarrow> (\<exists>r. leads u w r \<and> r' = (if r = r2 then r1 else r))"
  proof
    assume l: "leads u' w r'"
    then obtain i where i: "leads u w i" using dom [OF w] leads_parent by blast
    then show "\<exists>r. leads u w r \<and> r' = (if r = r2 then r1 else r)" using leads_unique [OF l L [OF i w]] by blast
  qed (use L w in blast)
qed

section \<open>Assignments that satisfy the equalities of a query\<close>

fun evalv :: "(string \<Rightarrow> val) \<Rightarrow> val \<Rightarrow> val" where
  "evalv \<sigma> (Var x) = \<sigma> x"
| "evalv \<sigma> v = v"

text \<open>
  The structure read as a formula: every variable equals the key of its root, and the root's
  constant if it has one.
\<close>

definition root_holds :: "(string \<Rightarrow> val) \<Rightarrow> string \<Rightarrow> uf_root \<Rightarrow> bool" where
  "root_holds \<sigma> x rt \<longleftrightarrow> compare (\<sigma> x) (evalv \<sigma> (root_key rt)) = 0 \<and>
     (case root_constant rt of None \<Rightarrow> True | Some c \<Rightarrow> compare (\<sigma> x) c = 0)"

definition uf_models :: "(string \<Rightarrow> val) \<Rightarrow> union_find \<Rightarrow> bool" where
  "uf_models \<sigma> u \<longleftrightarrow> (\<forall>x r. leads u (Var x) r \<longrightarrow> root_holds \<sigma> x (uf_store u ! r))"

definition uf_vars :: "union_find \<Rightarrow> bool" where
  "uf_vars u \<longleftrightarrow> (\<forall>i < length (uf_store u). \<exists>x. root_key (uf_store u ! i) = Var x)"

lemma root_holds_canon: "root_holds \<sigma> x rt \<longleftrightarrow> canon (\<sigma> x) = canon (evalv \<sigma> (root_key rt)) \<and>
    (\<forall>c. root_constant rt = Some c \<longrightarrow> canon (\<sigma> x) = canon c)"
  by (cases "root_constant rt") (simp_all add: root_holds_def compare_eq_canon)

lemma uf_modelsD:
  assumes "uf_models \<sigma> u" and "leads u (Var x) r"
  shows "root_holds \<sigma> x (uf_store u ! r)" and
    "canon (\<sigma> x) = canon (evalv \<sigma> (root_key (uf_store u ! r)))" and
    "root_constant (uf_store u ! r) = Some c \<Longrightarrow> canon (\<sigma> x) = canon c"
  using assms unfolding uf_models_def root_holds_canon by blast+

lemma compare_Var: "compare (Var x) v = 0 \<longleftrightarrow> v = Var x"
  by (cases v) (auto simp: compare.simps)

lemma float_nums_Var: "float_nums (Var x)"
  by simp

lemma makeSet_models:
  assumes "uf_ok X u" and "uf_vars u"
  obtains r u' where "uf_makeSet (Var y) u = Some (Inr (r, u'))" and "uf_ok X u'" and "uf_vars u'"
    and "leads u' (Var y) r" and "\<And>z i. leads u (Var z) i \<Longrightarrow> leads u' (Var z) i"
    and "\<And>\<sigma>. uf_models \<sigma> u' \<longleftrightarrow> uf_models \<sigma> u"
proof (cases "\<exists>r. leads u (Var y) r")
  case True
  then obtain r where r: "leads u (Var y) r" ..
  show thesis by (rule that [OF makeSet_old [OF r] assms r]) simp_all
next
  case False
  let ?n = "length (uf_store u)"
  have none: "vm_get (uf_parents u) (Var y) = None" using False find_leads(2) [OF assms(1) float_nums_Var] by blast
  obtain u' where u': "uf_makeSet (Var y) u = Some (Inr (?n, u'))" "uf_ok X u'"
    "uf_store u' = uf_store u @ [newUnionFindRoot (Var y)]"
    "\<And>w r. float_nums w \<Longrightarrow> leads u' w r \<longleftrightarrow> (if compare (Var y) w = 0 then r = ?n else leads u w r)"
    using makeSet_new [OF assms(1) float_nums_Var none] by metis
  have l: "leads u' (Var z) i \<longleftrightarrow> (if z = y then i = ?n else leads u (Var z) i)" for z i
    using u'(4) [OF float_nums_Var] by (simp add: compare_Var)
  have old: "z \<noteq> y \<and> i < ?n" if "leads u (Var z) i" for z i
    using that False leads_root(1) [OF assms(1) that float_nums_Var] by auto
  have vars: "uf_vars u'"
    using assms(2) u'(3) by (auto simp: uf_vars_def nth_append newUnionFindRoot_def less_Suc_eq)
  have m: "uf_models \<sigma> u' \<longleftrightarrow> uf_models \<sigma> u" for \<sigma>
  proof -
    have new: "root_key (uf_store u' ! ?n) = Var y" "root_constant (uf_store u' ! ?n) = None"
      using u'(3) by (simp_all add: newUnionFindRoot_def)
    have "uf_store u' ! i = uf_store u ! i" if "i < ?n" for i using u'(3) that by (simp add: nth_append)
    moreover have "root_holds \<sigma> y (uf_store u' ! ?n)" using new by (simp add: root_holds_canon)
    ultimately show ?thesis unfolding uf_models_def l using old by auto
  qed
  show thesis by (rule that [OF u'(1,2) vars]) (use l old m in auto)
qed

lemma redirected_models:
  assumes "uf_ok X u" and "uf_vars u" and "redirected a b u u'" and "a \<noteq> b"
    and "leads u (root_key (uf_store u ! a)) a" and "leads u (root_key (uf_store u ! b)) b"
    and r: "a < length (uf_store u)" "b < length (uf_store u)"
    and const: "\<And>i. i < length (uf_store u) \<Longrightarrow> root_constant (uf_store u' ! i) =
      (if i = a \<and> root_constant (uf_store u ! a) = None then root_constant (uf_store u ! b) else root_constant (uf_store u ! i))"
    and compat: "\<And>c d. root_constant (uf_store u ! a) = Some c \<Longrightarrow> root_constant (uf_store u ! b) = Some d \<Longrightarrow> compare c d = 0"
  shows "uf_models \<sigma> u' \<longleftrightarrow>
    uf_models \<sigma> u \<and> compare (evalv \<sigma> (root_key (uf_store u ! a))) (evalv \<sigma> (root_key (uf_store u ! b))) = 0"
proof -
  obtain p q where pq: "root_key (uf_store u ! a) = Var p" "root_key (uf_store u ! b) = Var q"
    using assms(2) r unfolding uf_vars_def by metis
  have L: "leads u' (Var x) r' \<longleftrightarrow> (\<exists>r. leads u (Var x) r \<and> r' = (if r = b then a else r))" for x r'
    by (rule redirected_ok(2) [OF assms(1,3-8) float_nums_Var])
  have keys: "root_key (uf_store u' ! i) = root_key (uf_store u ! i)" if "i < length (uf_store u)" for i
    using assms(3) that unfolding redirected_def same_keys_def by (metis length_map nth_map)
  have lt: "r < length (uf_store u)" if "leads u (Var x) r" for x r using leads_root(1) [OF assms(1) that float_nums_Var] .
  have la: "leads u (Var p) a" and lb: "leads u (Var q) b" using assms(5,6) pq by simp_all
  show ?thesis
  proof
    assume m: "uf_models \<sigma> u'"
    have lb': "leads u' (Var q) a" using L lb assms(4) by auto
    have eq: "canon (\<sigma> q) = canon (\<sigma> p)" using uf_modelsD(2) [OF m lb'] keys [OF r(1)] pq by simp
    have "root_holds \<sigma> x (uf_store u ! r)" if l: "leads u (Var x) r" for x r
    proof (cases "r = b")
      case True
      then have l': "leads u' (Var x) a" using L l by auto
      have "canon (\<sigma> x) = canon (\<sigma> p)" using uf_modelsD(2) [OF m l'] keys [OF r(1)] pq by simp
      moreover have "canon (\<sigma> x) = canon d" if "root_constant (uf_store u ! b) = Some d" for d
        using uf_modelsD(3) [OF m l'] const [OF r(1)] that compat
        by (cases "root_constant (uf_store u ! a)") (auto simp: compare_eq_canon)
      ultimately show ?thesis using True eq pq by (simp add: root_holds_canon)
    next
      case False
      then have l': "leads u' (Var x) r" using L l by auto
      have "root_constant (uf_store u' ! r) = Some c" if "root_constant (uf_store u ! r) = Some c" for c
        using const [OF lt [OF l]] that by auto
      then show ?thesis using uf_modelsD(2,3) [OF m l'] keys [OF lt [OF l]] by (simp add: root_holds_canon)
    qed
    then show "uf_models \<sigma> u \<and> compare (evalv \<sigma> (root_key (uf_store u ! a))) (evalv \<sigma> (root_key (uf_store u ! b))) = 0"
      using eq pq by (auto simp: uf_models_def compare_eq_canon)
  next
    assume m: "uf_models \<sigma> u \<and> compare (evalv \<sigma> (root_key (uf_store u ! a))) (evalv \<sigma> (root_key (uf_store u ! b))) = 0"
    then have eq: "canon (\<sigma> q) = canon (\<sigma> p)" using pq by (simp add: compare_eq_canon)
    note M = uf_modelsD(2,3) [OF conjunct1 [OF m]]
    have "root_holds \<sigma> x (uf_store u' ! r')" if lr: "leads u' (Var x) r'" for x r'
    proof -
      obtain r where l: "leads u (Var x) r" "r' = (if r = b then a else r)" using L lr by blast
      show ?thesis
      proof (cases "r' = a")
        case True
        then have "r = a \<or> r = b" using l(2) by (auto split: if_splits)
        then have x: "canon (\<sigma> x) = canon (\<sigma> p)" using M(1) [OF l(1)] pq eq by auto
        show ?thesis using True x M(2) [OF la] M(2) [OF lb] keys [OF r(1)] const [OF r(1)] eq pq
          by (auto simp: root_holds_canon split: if_splits)
      next
        case False
        then have "r' = r" "r \<noteq> a" using l(2) by (auto split: if_splits)
        then show ?thesis using M [OF l(1)] keys [OF lt [OF l(1)]] const [OF lt [OF l(1)]]
          by (simp add: root_holds_canon)
      qed
    qed
    then show "uf_models \<sigma> u'" by (simp add: uf_models_def)
  qed
qed

text \<open>What a rank function may do: order the two roots.\<close>

definition rank_ok :: "rankFunc \<Rightarrow> bool" where
  "rank_ok rank \<longleftrightarrow> (\<forall>store a b. rank store a b = (a, b) \<or> rank store a b = (b, a))"

lemma live_rank_ok: "rank_ok (live_rank livevars)"
  by (auto simp: rank_ok_def live_rank_def split: val.splits)

lemma link_models:
  assumes "uf_ok X u" and "uf_vars u" and "rank_ok rank" and "leads u (Var x) r1" and "leads u (Var y) r2" and "r1 \<noteq> r2"
  shows "\<exists>res u'. uf_link rank r1 r2 u = Inr (res, u') \<and>
    (if res \<noteq> None then uf_ok X u' \<and> uf_vars u' \<and> (\<forall>\<sigma>. uf_models \<sigma> u' \<longleftrightarrow> uf_models \<sigma> u \<and> compare (\<sigma> x) (\<sigma> y) = 0)
     else (\<forall>\<sigma>. \<not> (uf_models \<sigma> u \<and> compare (\<sigma> x) (\<sigma> y) = 0)))"
proof -
  note I = uf_okD [OF assms(1)]
  obtain a b where ab: "rank (uf_store u) r1 r2 = (a, b)" "(a, b) = (r1, r2) \<or> (a, b) = (r2, r1)"
    using assms(3) unfolding rank_ok_def by (metis surj_pair)
  obtain v w where vw: "leads u (Var v) a" "leads u (Var w) b" "(v, w) = (x, y) \<or> (v, w) = (y, x)"
    using ab(2) assms(4,5) by blast
  let ?ra = "uf_store u ! a" and ?rb = "uf_store u ! b"
  note ra = leads_root [OF assms(1) vw(1) float_nums_Var] and rb = leads_root [OF assms(1) vw(2) float_nums_Var]
  have eq: "compare (\<sigma> x) (\<sigma> y) = 0 \<longleftrightarrow> compare (evalv \<sigma> (root_key ?ra)) (evalv \<sigma> (root_key ?rb)) = 0"
    if "uf_models \<sigma> u" for \<sigma>
    using uf_modelsD(2) [OF that vw(1)] uf_modelsD(2) [OF that vw(2)] vw(3) by (auto simp: compare_eq_canon)
  obtain ps where ps: "vm_put (root_key ?rb) (root_key ?ra) (uf_parents u) = Some ps"
    using vm_put_law [OF I(1,2) I(9) [OF rb(1)]] by metis
  show ?thesis
  proof (cases "\<exists>c d. root_constant ?ra = Some c \<and> root_constant ?rb = Some d \<and> \<not> term_equal c d")
    case True
    then obtain c d where cd: "root_constant ?ra = Some c" "root_constant ?rb = Some d" "\<not> term_equal c d" by blast
    have "compare (\<sigma> x) (\<sigma> y) \<noteq> 0" if "uf_models \<sigma> u" for \<sigma>
      using uf_modelsD(3) [OF that vw(1) cd(1)] uf_modelsD(3) [OF that vw(2) cd(2)] cd(3) vw(3)
      by (auto simp: compare_eq_canon term_equal_compare)
    then show ?thesis using cd ps by (auto simp: uf_link_def ab(1) Let_def)
  next
    case False
    define u' where "u' = u\<lparr>uf_parents := ps, uf_roots := hm_delete (root_key ?rb) (uf_roots u),
      uf_store := (if root_constant ?ra = None then (uf_store u)[a := ?ra\<lparr>root_constant := root_constant ?rb\<rparr>] else uf_store u)\<rparr>"
    have link: "uf_link rank r1 r2 u = Inr (Some a, u')"
      using False ps by (cases "root_constant ?ra"; cases "root_constant ?rb") (auto simp: uf_link_def ab(1) Let_def u'_def)
    have red: "redirected a b u u'"
      using ps same_keys_update [OF ra(1)] by (simp add: redirected_def u'_def same_keys_def)
    have ne: "a \<noteq> b" using ab(2) assms(6) by auto
    note ok = redirected_ok(1) [OF assms(1) red ne ra(3) rb(3) ra(1) rb(1)]
    have vars: "uf_vars u'"
      using assms(2) ra(1) by (auto simp: uf_vars_def u'_def nth_list_update)
    have const: "root_constant (uf_store u' ! i) = (if i = a \<and> root_constant ?ra = None then root_constant ?rb
        else root_constant (uf_store u ! i))" if "i < length (uf_store u)" for i
      using that by (auto simp: u'_def nth_list_update)
    have "uf_models \<sigma> u' \<longleftrightarrow> uf_models \<sigma> u \<and> compare (evalv \<sigma> (root_key ?ra)) (evalv \<sigma> (root_key ?rb)) = 0" for \<sigma>
      by (rule redirected_models [OF assms(1,2) red ne ra(3) rb(3) ra(1) rb(1) const])
        (use False in \<open>auto simp: term_equal_compare\<close>)
    then have "uf_models \<sigma> u' \<longleftrightarrow> uf_models \<sigma> u \<and> compare (\<sigma> x) (\<sigma> y) = 0" for \<sigma> using eq by blast
    then show ?thesis using link ok vars by auto
  qed
qed

lemma merge_models:
  assumes "uf_ok X u" and "uf_vars u" and "rank_ok rank"
  shows "\<exists>res u'. uf_merge rank (Var x) (Var y) u = Some (Inr (res, u')) \<and>
    (if res \<noteq> None then uf_ok X u' \<and> uf_vars u' \<and> (\<forall>\<sigma>. uf_models \<sigma> u' \<longleftrightarrow> uf_models \<sigma> u \<and> compare (\<sigma> x) (\<sigma> y) = 0)
     else (\<forall>\<sigma>. \<not> (uf_models \<sigma> u \<and> compare (\<sigma> x) (\<sigma> y) = 0)))"
proof -
  obtain r1 u1 where 1: "uf_makeSet (Var x) u = Some (Inr (r1, u1))" "uf_ok X u1" "uf_vars u1"
    "leads u1 (Var x) r1" "\<And>\<sigma>. uf_models \<sigma> u1 \<longleftrightarrow> uf_models \<sigma> u"
    using makeSet_models [OF assms(1,2)] by metis
  obtain r2 u2 where 2: "uf_makeSet (Var y) u1 = Some (Inr (r2, u2))" "uf_ok X u2" "uf_vars u2"
    "leads u2 (Var y) r2" "\<And>z i. leads u1 (Var z) i \<Longrightarrow> leads u2 (Var z) i" "\<And>\<sigma>. uf_models \<sigma> u2 \<longleftrightarrow> uf_models \<sigma> u1"
    using makeSet_models [OF 1(2,3)] by metis
  have x: "leads u2 (Var x) r1" using 2(5) 1(4) by blast
  show ?thesis
  proof (cases "r1 = r2")
    case True
    have "compare (\<sigma> x) (\<sigma> y) = 0" if "uf_models \<sigma> u2" for \<sigma>
      using uf_modelsD(2) [OF that x] uf_modelsD(2) [OF that 2(4)] True by (simp add: compare_eq_canon)
    then show ?thesis using 1 2 True by (auto simp: uf_merge_def)
  next
    case False
    have m: "uf_models \<sigma> u2 \<longleftrightarrow> uf_models \<sigma> u" for \<sigma> using 1(5) 2(6) by blast
    have "uf_merge rank (Var x) (Var y) u = Some (uf_link rank r1 r2 u2)"
      using 1(1) 2(1) False by (simp add: uf_merge_def)
    then show ?thesis using link_models [OF 2(2,3) assms(3) x 2(4) False] unfolding m by simp
  qed
qed

text \<open>Paths do not depend on the constants.\<close>

lemma leads_store: "leads (u\<lparr>uf_store := st\<rparr>) v r \<longleftrightarrow> leads u v r"
proof
  show "leads (u\<lparr>uf_store := st\<rparr>) v r \<Longrightarrow> leads u v r"
    by (induction rule: leads.induct) (auto intro: leads.intros)
  show "leads u v r \<Longrightarrow> leads (u\<lparr>uf_store := st\<rparr>) v r"
    by (induction rule: leads.induct) (auto intro: leads.intros)
qed

lemma uf_ok_store:
  assumes "uf_ok X u" and "map root_key st = map root_key (uf_store u)"
  shows "uf_ok X (u\<lparr>uf_store := st\<rparr>)"
proof -
  have len: "length st = length (uf_store u)" using assms(2) by (metis length_map)
  have keys: "root_key (st ! i) = root_key (uf_store u ! i)" if "i < length (uf_store u)" for i
    using assms(2) that by (metis length_map nth_map)
  show ?thesis using uf_okD [OF assms(1)] unfolding uf_ok_def leads_store by (auto simp: len keys)
qed

lemma bind_constant_models:
  assumes "uf_ok X u" and "uf_vars u"
  shows "\<exists>res. bind_constant (Var x) c u = Some (Inr res) \<and>
    (case res of
       Some u' \<Rightarrow> uf_ok X u' \<and> uf_vars u' \<and> (\<forall>\<sigma>. uf_models \<sigma> u' \<longleftrightarrow> uf_models \<sigma> u \<and> compare (\<sigma> x) c = 0)
     | None \<Rightarrow> \<forall>\<sigma>. \<not> (uf_models \<sigma> u \<and> compare (\<sigma> x) c = 0))"
proof -
  obtain r u1 where 1: "uf_makeSet (Var x) u = Some (Inr (r, u1))" "uf_ok X u1" "uf_vars u1"
    "leads u1 (Var x) r" "\<And>\<sigma>. uf_models \<sigma> u1 \<longleftrightarrow> uf_models \<sigma> u"
    using makeSet_models [OF assms(1,2)] by metis
  let ?r = "uf_store u1 ! r"
  have lt: "r < length (uf_store u1)" by (rule leads_root(1) [OF 1(2,4) float_nums_Var])
  show ?thesis
  proof (cases "\<exists>d. root_constant ?r = Some d \<and> \<not> term_equal d c")
    case True
    then obtain d where d: "root_constant ?r = Some d" "\<not> term_equal d c" by blast
    have "compare (\<sigma> x) c \<noteq> 0" if "uf_models \<sigma> u1" for \<sigma>
      using uf_modelsD(3) [OF that 1(4) d(1)] d(2) by (auto simp: compare_eq_canon term_equal_compare)
    then show ?thesis using 1 d by (auto simp: bind_constant_def)
  next
    case False
    define st where "st = (uf_store u1)[r := ?r\<lparr>root_constant := Some c\<rparr>]"
    have b: "bind_constant (Var x) c u = Some (Inr (Some (u1\<lparr>uf_store := st\<rparr>)))"
      using 1(1) False by (cases "root_constant ?r") (auto simp: bind_constant_def Let_def st_def)
    have ok: "uf_ok X (u1\<lparr>uf_store := st\<rparr>)" "uf_vars (u1\<lparr>uf_store := st\<rparr>)"
      using uf_ok_store [OF 1(2)] same_keys_update [OF lt] 1(3) lt
      by (auto simp: st_def uf_vars_def nth_list_update)
    have h: "root_holds \<sigma> y (st ! i) \<longleftrightarrow> (if i = r then canon (\<sigma> y) = canon (evalv \<sigma> (root_key ?r)) \<and> canon (\<sigma> y) = canon c
        else root_holds \<sigma> y (uf_store u1 ! i))" for \<sigma> y i
      using lt by (auto simp: st_def nth_list_update root_holds_canon)
    have "uf_models \<sigma> (u1\<lparr>uf_store := st\<rparr>) \<longleftrightarrow> uf_models \<sigma> u1 \<and> compare (\<sigma> x) c = 0" for \<sigma>
    proof
      assume m: "uf_models \<sigma> (u1\<lparr>uf_store := st\<rparr>)"
      then have all: "\<And>y i. leads u1 (Var y) i \<Longrightarrow> root_holds \<sigma> y (st ! i)" by (simp add: uf_models_def leads_store)
      have "root_holds \<sigma> y (uf_store u1 ! i)" if "leads u1 (Var y) i" for y i
        using all [OF that] False unfolding h by (auto simp: root_holds_canon term_equal_compare compare_eq_canon split: if_splits)
      then show "uf_models \<sigma> u1 \<and> compare (\<sigma> x) c = 0"
        using all [OF 1(4)] by (auto simp: uf_models_def h compare_eq_canon)
    next
      assume m: "uf_models \<sigma> u1 \<and> compare (\<sigma> x) c = 0"
      then have "canon (evalv \<sigma> (root_key ?r)) = canon c"
        using uf_modelsD(2) [OF conjunct1 [OF m] 1(4)] by (simp add: compare_eq_canon)
      then have "root_holds \<sigma> y (st ! i)" if "leads u1 (Var y) i" for y i
        using uf_modelsD(1,2) [OF conjunct1 [OF m] that] unfolding h by auto
      then show "uf_models \<sigma> (u1\<lparr>uf_store := st\<rparr>)" by (simp add: uf_models_def leads_store)
    qed
    then show ?thesis using b ok 1(5) by auto
  qed
qed

text \<open>The equality between two variables or a variable and a constant that an expression states.\<close>

definition equates :: "expr \<Rightarrow> (val \<times> val) option" where
  "equates e =
     (if isEquality e \<and> \<not> Negated e \<and> Withs e = [] then
        (case (operand e 0, operand e 1) of
           (Some (Var x), Some b) \<Rightarrow> if isConstant b \<or> (\<exists>y. b = Var y) then Some (Var x, b) else None
         | (Some a, Some (Var y)) \<Rightarrow> if isConstant a then Some (a, Var y) else None
         | _ \<Rightarrow> None)
      else None)"

definition satisfies :: "(string \<Rightarrow> val) \<Rightarrow> expr \<Rightarrow> bool" where
  "satisfies \<sigma> e \<longleftrightarrow> (case equates e of None \<Rightarrow> True | Some (a, b) \<Rightarrow> compare (evalv \<sigma> a) (evalv \<sigma> b) = 0)"

lemma step_models:
  assumes "uf_ok X u" and "uf_vars u" and "isEquality e \<Longrightarrow> operand e 1 \<noteq> None"
  shows "\<exists>res. disjoint_step livevars e u = Some (Inr res) \<and>
    (case res of
       Some u' \<Rightarrow> uf_ok X u' \<and> uf_vars u' \<and> (\<forall>\<sigma>. uf_models \<sigma> u' \<longleftrightarrow> uf_models \<sigma> u \<and> satisfies \<sigma> e)
     | None \<Rightarrow> \<forall>\<sigma>. \<not> (uf_models \<sigma> u \<and> satisfies \<sigma> e))"
proof (cases "isEquality e \<and> \<not> Negated e \<and> Withs e = []")
  case False
  then show ?thesis using assms(1,2) by (auto simp: disjoint_step_def satisfies_def equates_def)
next
  case True
  then obtain b where b: "operand e 1 = Some b" using assms(3) by blast
  then obtain a where a: "operand e 0 = Some a" by (auto simp: operand_def split: terms.splits if_splits)
  consider (vv) x y where "a = Var x" "b = Var y" | (vc) x where "a = Var x" "isConstant b"
    | (cv) y where "isConstant a" "b = Var y"
    | (other) "\<And>x. a = Var x \<Longrightarrow> \<not> isConstant b \<and> (\<forall>y. b \<noteq> Var y)" "\<And>y. b = Var y \<Longrightarrow> \<not> isConstant a \<and> (\<forall>x. a \<noteq> Var x)"
    by blast
  then show ?thesis
  proof cases
    case vv
    then have sat: "satisfies \<sigma> e \<longleftrightarrow> compare (\<sigma> x) (\<sigma> y) = 0" for \<sigma> using True a b by (simp add: satisfies_def equates_def)
    obtain ro u' where m: "uf_merge (live_rank livevars) (Var x) (Var y) u = Some (Inr (ro, u'))"
      "if ro \<noteq> None then uf_ok X u' \<and> uf_vars u' \<and> (\<forall>\<sigma>. uf_models \<sigma> u' \<longleftrightarrow> uf_models \<sigma> u \<and> compare (\<sigma> x) (\<sigma> y) = 0)
       else (\<forall>\<sigma>. \<not> (uf_models \<sigma> u \<and> compare (\<sigma> x) (\<sigma> y) = 0))"
      using merge_models [OF assms(1,2) live_rank_ok, of livevars x y] by blast
    show ?thesis using m True a b vv sat by (cases ro) (simp_all add: disjoint_step_def)
  next
    case vc
    then have nv: "b \<noteq> Var y" for y by auto
    have "evalv \<sigma> b = b" for \<sigma> using nv by (cases b) auto
    then have sat: "satisfies \<sigma> e \<longleftrightarrow> compare (\<sigma> x) b = 0" for \<sigma> using True a b vc by (simp add: satisfies_def equates_def)
    have step: "disjoint_step livevars e u = bind_constant (Var x) b u"
      using True a b vc nv by (cases b) (simp_all add: disjoint_step_def)
    show ?thesis unfolding sat step by (rule bind_constant_models [OF assms(1,2)])
  next
    case cv
    then have nv: "a \<noteq> Var x" for x by auto
    have "evalv \<sigma> a = a" for \<sigma> using nv by (cases a) auto
    then have sat: "satisfies \<sigma> e \<longleftrightarrow> compare (\<sigma> y) a = 0" for \<sigma>
      using True a b cv nv by (cases a) (auto simp: satisfies_def equates_def compare_eq_canon)
    have step: "disjoint_step livevars e u = bind_constant (Var y) a u"
      using True a b cv nv by (cases a) (simp_all add: disjoint_step_def)
    show ?thesis unfolding sat step by (rule bind_constant_models [OF assms(1,2)])
  next
    case other
    then have "equates e = None" using True a b by (auto simp: equates_def split: val.splits)
    moreover have "disjoint_step livevars e u = Some (Inr (Some u))"
      using True a b other by (cases a; cases b) (simp_all add: disjoint_step_def)
    ultimately show ?thesis using assms(1,2) by (simp add: satisfies_def)
  qed
qed

lemma loop_models:
  assumes "uf_ok X u" and "uf_vars u" and "\<forall>e \<in> set es. isEquality e \<longrightarrow> operand e 1 \<noteq> None"
  shows "\<exists>res. disjoint_loop livevars es u = Some (Inr res) \<and>
    (case res of
       Some u' \<Rightarrow> uf_ok X u' \<and> uf_vars u' \<and> (\<forall>\<sigma>. uf_models \<sigma> u' \<longleftrightarrow> uf_models \<sigma> u \<and> (\<forall>e \<in> set es. satisfies \<sigma> e))
     | None \<Rightarrow> \<forall>\<sigma>. \<not> (uf_models \<sigma> u \<and> (\<forall>e \<in> set es. satisfies \<sigma> e)))"
  using assms
proof (induction es arbitrary: u)
  case (Cons e es)
  obtain res where s: "disjoint_step livevars e u = Some (Inr res)"
    "case res of Some u' \<Rightarrow> uf_ok X u' \<and> uf_vars u' \<and> (\<forall>\<sigma>. uf_models \<sigma> u' \<longleftrightarrow> uf_models \<sigma> u \<and> satisfies \<sigma> e)
     | None \<Rightarrow> \<forall>\<sigma>. \<not> (uf_models \<sigma> u \<and> satisfies \<sigma> e)"
    using step_models [OF Cons.prems(1,2), of e livevars] Cons.prems(3) by auto
  show ?case
  proof (cases res)
    case None
    then show ?thesis using s by auto
  next
    case (Some u')
    then have u': "uf_ok X u'" "uf_vars u'" "\<And>\<sigma>. uf_models \<sigma> u' \<longleftrightarrow> uf_models \<sigma> u \<and> satisfies \<sigma> e" using s(2) by auto
    then show ?thesis using Cons.IH [OF u'(1,2)] Cons.prems(3) s(1) Some by (auto split: option.splits)
  qed
qed simp

text \<open>
  C11.  The disjoint sets of a query, for queries whose equalities have two operands.  The construction
  terminates without a panic.  If it succeeds, the assignments that satisfy the positive
  equalities between variables and constants of the query are exactly those under which every
  variable equals the key of the root that \<open>Find\<close> returns for it and that root's constant, if it has
  one.  If it fails, no assignment satisfies these equalities.\<close>

theorem disjoint_sets_correct:
  assumes "\<forall>e \<in> set query. isEquality e \<longrightarrow> operand e 1 \<noteq> None"
  shows "case makeDisjointSets X livevars query of
      Some (Inr (Some u)) \<Rightarrow>
        \<forall>\<sigma>. (\<forall>e \<in> set query. satisfies \<sigma> e) \<longleftrightarrow>
          (\<forall>x r. uf_find u (Var x) = Some (Inr (Some r)) \<longrightarrow>
             compare (\<sigma> x) (evalv \<sigma> (root_key (uf_store u ! r))) = 0 \<and>
             (\<forall>c. root_constant (uf_store u ! r) = Some c \<longrightarrow> compare (\<sigma> x) c = 0))
    | Some (Inr None) \<Rightarrow> \<forall>\<sigma>. \<exists>e \<in> set query. \<not> satisfies \<sigma> e
    | _ \<Rightarrow> False"
proof -
  have vars: "uf_vars (newUnionFind X)" by (simp add: uf_vars_def newUnionFind_def)
  have "\<not> leads (newUnionFind X) v r" for v r
    using leads_parent [of "newUnionFind X" v r] by (auto simp: newUnionFind_def vm_get_new)
  then have new: "uf_models \<sigma> (newUnionFind X) \<longleftrightarrow> True" for \<sigma> by (simp add: uf_models_def)
  obtain res where r: "makeDisjointSets X livevars query = Some (Inr res)"
    "case res of Some u' \<Rightarrow> uf_ok X u' \<and> uf_vars u' \<and> (\<forall>\<sigma>. uf_models \<sigma> u' \<longleftrightarrow> (\<forall>e \<in> set query. satisfies \<sigma> e))
     | None \<Rightarrow> \<forall>\<sigma>. \<not> (\<forall>e \<in> set query. satisfies \<sigma> e)"
    using loop_models [OF uf_ok_new vars assms, of livevars] unfolding makeDisjointSets_def new simp_thms by blast
  show ?thesis
  proof (cases res)
    case None
    then show ?thesis using r by auto
  next
    case (Some u)
    then have u: "uf_ok X u" "\<And>\<sigma>. uf_models \<sigma> u \<longleftrightarrow> (\<forall>e \<in> set query. satisfies \<sigma> e)" using r(2) by auto
    then show ?thesis using r(1) Some find_leads(1) [OF u(1) float_nums_Var]
      by (auto simp: uf_models_def root_holds_canon compare_eq_canon)
  qed
qed

definition sample_query :: body where
  "sample_query =
     [Expr (TermList [Ref [Var ''eq''], Var ''x'', Var ''y'']) 0 False [],
      Expr (TermList [Ref [Var ''eq''], String ''a'', Var ''y'']) 1 False []]"

theorem disjoint_sets_correct_witness:
  "\<exists>u. makeDisjointSets xx0 {''x''} sample_query = Some (Inr (Some u)) \<and>
     (\<forall>\<sigma>. (\<forall>e \<in> set sample_query. satisfies \<sigma> e) \<longrightarrow> compare (\<sigma> ''x'') (String ''a'') = 0)"
proof -
  have ops: "\<forall>e \<in> set sample_query. isEquality e \<longrightarrow> operand e 1 \<noteq> None"
    by (simp add: sample_query_def operand_def)
  have "(case makeDisjointSets xx0 {''x''} sample_query of
      Some (Inr (Some u)) \<Rightarrow> uf_find u (Var ''x'') = Some (Inr (Some 0)) \<and>
        root_constant (uf_store u ! 0) = Some (String ''a'')
    | _ \<Rightarrow> False)" by code_simp
  then obtain u where u: "makeDisjointSets xx0 {''x''} sample_query = Some (Inr (Some u))"
    "uf_find u (Var ''x'') = Some (Inr (Some 0))" "root_constant (uf_store u ! 0) = Some (String ''a'')"
    by (auto split: option.splits sum.splits)
  then show ?thesis using disjoint_sets_correct [OF ops, of xx0 "{''x''}"] by auto
qed

end
