(* ===== verification/Ast_Array.thy ===== *)
theory Ast_Array
  imports Ast_Term
begin

text \<open>
  The array value \<open>ast.Array\<close> (ast/term.go): the elements with a slice of their hashes, the cached
  hash of the whole and the cached ground bit.  Slices are values here: the capacity that
  \<open>append\<close> may share between two arrays is not part of the model.
\<close>

record array =
  arr_elems :: "val list"
  arr_hashs :: "hash list"
  arr_hash :: hash
  arr_ground :: bool

definition arr_rehash :: "array \<Rightarrow> array" where
  "arr_rehash arr = arr\<lparr>arr_hash := foldl (+) 0 (arr_hashs arr)\<rparr>"

definition termSliceIsGround :: "val list \<Rightarrow> bool" where
  "termSliceIsGround a = list_all isGround a"

definition newArray :: "xxhash \<Rightarrow> val list \<Rightarrow> array" where
  "newArray X a =
     arr_rehash \<lparr>arr_elems = a, arr_hashs = map (hash X) a, arr_hash = 0,
       arr_ground = termSliceIsGround a\<rparr>"

definition arr_copy :: "array \<Rightarrow> array" where
  "arr_copy arr =
     \<lparr>arr_elems = arr_elems arr, arr_hashs = take (length (arr_elems arr)) (arr_hashs arr),
      arr_hash = arr_hash arr, arr_ground = arr_ground arr\<rparr>"

text \<open>\<open>Sorted\<close> keeps the hashes of the receiver, in the order of the receiver.\<close>

definition arr_sorted :: "xxhash \<Rightarrow> array \<Rightarrow> array" where
  "arr_sorted X arr =
     (newArray X (sort_by compare (arr_elems arr)))\<lparr>arr_hashs := arr_hashs arr\<rparr>"

definition arr_set :: "xxhash \<Rightarrow> array \<Rightarrow> int \<Rightarrow> val \<Rightarrow> array option" where
  "arr_set X arr i v =
     (if 0 \<le> i \<and> i < int (length (arr_elems arr)) \<and> i < int (length (arr_hashs arr))
      then Some (arr\<lparr>arr_ground := arr_ground arr \<and> isGround v,
                 arr_elems := (arr_elems arr)[nat i := v],
                 arr_hashs := (arr_hashs arr)[nat i := hash X v]\<rparr>)
      else None)"

text \<open>
  A slice expression \<open>a[i:j]\<close> panics unless \<open>0 \<le> i \<le> j\<close> and \<open>j\<close> is within the capacity; the
  capacity is taken to be the length.
\<close>

definition slice_of :: "'a list \<Rightarrow> int \<Rightarrow> int \<Rightarrow> 'a list option" where
  "slice_of xs i j =
     (if 0 \<le> i \<and> i \<le> j \<and> j \<le> int (length xs)
      then Some (take (nat j - nat i) (drop (nat i) xs)) else None)"

definition arr_slice :: "array \<Rightarrow> int \<Rightarrow> int \<Rightarrow> array option" where
  "arr_slice arr i j =
     (case slice_of (arr_elems arr) i (if j = -1 then int (length (arr_elems arr)) else j) of
        None \<Rightarrow> None
      | Some es \<Rightarrow>
          (case slice_of (arr_hashs arr) i (if j = -1 then int (length (arr_hashs arr)) else j) of
             None \<Rightarrow> None
           | Some hs \<Rightarrow>
               Some (arr_rehash \<lparr>arr_elems = es, arr_hashs = hs, arr_hash = 0,
                 arr_ground = arr_ground arr \<or> termSliceIsGround es\<rparr>)))"

definition arr_append :: "xxhash \<Rightarrow> array \<Rightarrow> val \<Rightarrow> array" where
  "arr_append X arr v =
     \<lparr>arr_elems = arr_elems arr @ [v], arr_hashs = arr_hashs arr @ [hash X v],
      arr_hash = arr_hash arr + hash X v, arr_ground = arr_ground arr \<and> isGround v\<rparr>"

text \<open>\<open>Iter\<close> stops at the first error; \<open>Until\<close> says whether some call returned true.\<close>

fun slice_iter :: "('a \<Rightarrow> 's \<Rightarrow> 's \<times> 'e option) \<Rightarrow> 'a list \<Rightarrow> 's \<Rightarrow> 's \<times> 'e option" where
  "slice_iter f [] st = (st, None)"
| "slice_iter f (x # xs) st =
     (case f x st of (st', Some e) \<Rightarrow> (st', Some e) | (st', None) \<Rightarrow> slice_iter f xs st')"

definition arr_iter :: "array \<Rightarrow> (val \<Rightarrow> 's \<Rightarrow> 's \<times> 'e option) \<Rightarrow> 's \<Rightarrow> 's \<times> 'e option" where
  "arr_iter arr f st = slice_iter f (arr_elems arr) st"

definition arr_until :: "array \<Rightarrow> (val \<Rightarrow> 's \<Rightarrow> 's \<times> bool) \<Rightarrow> 's \<Rightarrow> 's \<times> bool" where
  "arr_until arr f st =
     (case arr_iter arr (\<lambda>t s. case f t s of (s', b) \<Rightarrow> (s', if b then Some () else None)) st of
        (st', e) \<Rightarrow> (st', e \<noteq> None))"

definition arr_foreach :: "array \<Rightarrow> (val \<Rightarrow> 's \<Rightarrow> 's) \<Rightarrow> 's \<Rightarrow> 's" where
  "arr_foreach arr f st = fst (arr_iter arr (\<lambda>t s. (f t s, None :: unit option)) st)"

section \<open>The invariant\<close>

text \<open>The caches hold what they cache.\<close>

definition arr_ok :: "xxhash \<Rightarrow> array \<Rightarrow> bool" where
  "arr_ok X arr \<longleftrightarrow>
     arr_hashs arr = map (hash X) (arr_elems arr) \<and>
     arr_hash arr = hash X (Array (arr_elems arr)) \<and>
     arr_ground arr = isGround (Array (arr_elems arr))"

lemma foldl_plus_sum_list: "foldl (+) (a :: hash) xs = a + sum_list xs"
  by (induction xs arbitrary: a) (simp_all add: add.assoc)

lemma newArray_ok: "arr_ok X (newArray X a)"
  by (simp add: arr_ok_def newArray_def arr_rehash_def foldl_plus_sum_list termSliceIsGround_def)

lemma arr_copy_id: "arr_ok X arr \<Longrightarrow> arr_copy arr = arr"
  by (cases arr) (simp add: arr_ok_def arr_copy_def)

lemma arr_append_ok: "arr_ok X arr \<Longrightarrow> arr_ok X (arr_append X arr v)"
  by (simp add: arr_ok_def arr_append_def)

lemma arr_append_newArray: "arr_append X (newArray X a) v = newArray X (a @ [v])"
  by (simp add: arr_append_def newArray_def arr_rehash_def termSliceIsGround_def foldl_plus_sum_list)

lemma arr_ok_newArray: "arr_ok X arr \<Longrightarrow> arr = newArray X (arr_elems arr)"
  by (cases arr) (simp add: arr_ok_def newArray_def arr_rehash_def foldl_plus_sum_list termSliceIsGround_def)

lemma slice_of_map: "slice_of (map f xs) i j = map_option (map f) (slice_of xs i j)"
  by (simp add: slice_of_def take_map drop_map)

lemma slice_of_set: "slice_of xs i j = Some ys \<Longrightarrow> set ys \<subseteq> set xs"
  by (auto simp: slice_of_def split: if_splits dest: in_set_takeD in_set_dropD)

text \<open>A slice of an array is the array of the sliced elements, caches included.\<close>

lemma arr_slice_newArray:
  assumes "arr_ok X arr"
  shows "arr_slice arr i j =
    map_option (newArray X) (slice_of (arr_elems arr) i (if j = -1 then int (length (arr_elems arr)) else j))"
proof (cases "slice_of (arr_elems arr) i (if j = -1 then int (length (arr_elems arr)) else j)")
  case None
  then show ?thesis by (simp add: arr_slice_def)
next
  case (Some es)
  then have "list_all isGround (arr_elems arr) \<Longrightarrow> list_all isGround es"
    using slice_of_set [OF Some] by (auto simp: list_all_iff)
  with Some assms show ?thesis
    by (auto simp: arr_slice_def arr_ok_def slice_of_map newArray_def termSliceIsGround_def)
qed

lemma arr_set_get:
  assumes "arr_ok X arr" and "arr_set X arr i v = Some arr'"
  shows "arr_elems arr' = (arr_elems arr)[nat i := v]" and "arr_hashs arr' = map (hash X) (arr_elems arr')"
  using assms by (auto simp: arr_set_def arr_ok_def map_update split: if_splits)

lemma slice_iter_total:
  "slice_iter (\<lambda>t s. (f t s, None)) xs st = (fold f xs st, None)"
  by (induction xs arbitrary: st) simp_all

lemma arr_foreach_fold: "arr_foreach arr f st = fold f (arr_elems arr) st"
  by (simp add: arr_foreach_def arr_iter_def slice_iter_total)

section \<open>Properties\<close>

text \<open>
  The operations that build arrays keep the caches right.  On a well-formed array, appending
  an element and slicing give exactly the array that \<open>NewArray\<close> builds from the elements, copying
  gives the array back, and a slice with bounds out of order or out of range panics.
\<close>

theorem array_operations:
  assumes "arr_ok X arr"
  shows "arr_append X arr v = newArray X (arr_elems arr @ [v]) \<and>
    arr_copy arr = arr \<and>
    (\<forall>i j. 0 \<le> i \<and> i \<le> j \<and> j \<le> int (length (arr_elems arr)) \<longrightarrow>
       arr_slice arr i j = Some (newArray X (take (nat j - nat i) (drop (nat i) (arr_elems arr))))) \<and>
    (\<forall>i j. j \<noteq> -1 \<and> \<not> (0 \<le> i \<and> i \<le> j \<and> j \<le> int (length (arr_elems arr))) \<longrightarrow> arr_slice arr i j = None)"
proof (intro conjI allI impI)
  have "arr = newArray X (arr_elems arr)" using assms by (rule arr_ok_newArray)
  then show "arr_append X arr v = newArray X (arr_elems arr @ [v])" by (metis arr_append_newArray)
  show "arr_copy arr = arr" using assms by (rule arr_copy_id)
qed (auto simp: arr_slice_newArray [OF assms] slice_of_def)

theorem array_operations_witness:
  "arr_ok xx0 (newArray xx0 [Null, Boolean True]) \<and>
   arr_slice (newArray xx0 [Null, Boolean True]) 1 2 = Some (newArray xx0 [Boolean True])"
proof -
  have ok: "arr_ok xx0 (newArray xx0 [Null, Boolean True])" by (rule newArray_ok)
  have e: "arr_elems (newArray xx0 [Null, Boolean True]) = [Null, Boolean True]"
    by (simp add: newArray_def arr_rehash_def)
  show ?thesis using array_operations [OF ok] ok by (simp add: e)
qed

text \<open>
  \<open>Sorted\<close> keeps the element hashes of its receiver in the receiver's order, so that the cached
  hash of a slice of a sorted array can be the hash of another element: sorting the array of
  true and null and slicing off the first element gives the array of null with the hash of true.
\<close>

theorem array_sorted_slice_hash:
  "\<exists>arr s. arr_ok X arr \<and> arr_slice (arr_sorted X arr) 0 1 = Some s \<and> arr_elems s = [Null] \<and>
     arr_hash s = hash X (Array [Boolean True]) \<and> arr_hash s \<noteq> hash X (Array (arr_elems s))"
proof -
  let ?arr = "newArray X [Boolean True, Null]"
  let ?s = "\<lparr>arr_elems = [Null], arr_hashs = [1], arr_hash = 1, arr_ground = True\<rparr>"
  have "arr_slice (arr_sorted X ?arr) 0 1 = Some ?s"
    by (simp add: arr_slice_def slice_of_def arr_sorted_def newArray_def arr_rehash_def
        termSliceIsGround_def compare.simps)
  then show ?thesis
    using newArray_ok [of X "[Boolean True, Null]"] by (intro exI [of _ ?arr] exI [of _ ?s]) simp
qed

end
