(* ===== verification/Set_Contract.thy ===== *)
theory Set_Contract
  imports Opa_Prelude
begin

text \<open>
  The contract of the interface \<open>ast.Set\<close> that its clients rely on: sets of keys up to key
  equality, with insertion, membership and iteration.  \<open>key\<close> maps an element to what the set
  sees of it, so that \<open>sabs s\<close> is a mathematical set; \<open>cap\<close> bounds the number of elements for
  which insertion is known to return.  The operations that are loops of insertions (construction,
  union, difference, intersection, mapping) are derived once from the contract.
\<close>

locale set_contract =
  fixes emp :: 's
    and add :: "'a \<Rightarrow> 's \<Rightarrow> 's option"
    and has :: "'a \<Rightarrow> 's \<Rightarrow> bool option"
    and items :: "'s \<Rightarrow> 'a list"
    and inv :: "'s \<Rightarrow> bool"
    and carrier :: "'a \<Rightarrow> bool"
    and key :: "'a \<Rightarrow> 'k"
    and cap :: nat
  assumes inv_emp: "inv emp"
    and items_emp: "items emp = []"
    and items_carrier: "inv s \<Longrightarrow> x \<in> set (items s) \<Longrightarrow> carrier x"
    and items_distinct: "inv s \<Longrightarrow> distinct (map key (items s))"
    and add_law: "inv s \<Longrightarrow> carrier x \<Longrightarrow> length (items s) < cap \<Longrightarrow>
      \<exists>s'. add x s = Some s' \<and> inv s' \<and> key ` set (items s') = insert (key x) (key ` set (items s))"
    and has_law: "inv s \<Longrightarrow> carrier x \<Longrightarrow> length (items s) < cap \<Longrightarrow>
      has x s = Some (key x \<in> key ` set (items s))"
begin

definition sabs :: "'s \<Rightarrow> 'k set" where
  "sabs s = key ` set (items s)"

lemma sabs_emp: "sabs emp = {}"
  by (simp add: sabs_def items_emp)

lemma card_sabs: "inv s \<Longrightarrow> card (sabs s) = length (items s)"
  using distinct_card [OF items_distinct [of s]] by (simp add: sabs_def)

lemma finite_sabs: "finite (sabs s)"
  by (simp add: sabs_def)

text \<open>Inserting a slice of elements.\<close>

lemma add_all:
  assumes "inv s" and "\<forall>x \<in> set xs. carrier x" and "length (items s) + length xs \<le> cap"
  shows "\<exists>s'. foldM add xs s = Some s' \<and> inv s' \<and> sabs s' = sabs s \<union> key ` set xs"
  using assms
proof (induction xs arbitrary: s)
  case (Cons x xs)
  then obtain t where t: "add x s = Some t" "inv t" "sabs t = insert (key x) (sabs s)"
    using add_law [of s x] by (auto simp: sabs_def)
  have "card (sabs t) \<le> Suc (card (sabs s))" unfolding t(3) by (rule card_insert_le_m1) (simp, simp)
  then have "length (items t) \<le> Suc (length (items s))" using card_sabs t(2) Cons.prems(1) by simp
  then show ?case using Cons.IH [of t] Cons.prems t by auto
qed simp

lemma add_all_filter:
  assumes "inv s" and "\<forall>x \<in> set xs. carrier x" and "length (items s) + length xs \<le> cap"
    and "\<And>x t. x \<in> set xs \<Longrightarrow> f x t = (if P x then add x t else Some t)"
  shows "\<exists>s'. foldM f xs s = Some s' \<and> inv s' \<and> sabs s' = sabs s \<union> key ` {x \<in> set xs. P x}"
proof -
  have "foldM f xs s = foldM add (filter P xs) s" using assms(4) by (rule foldM_filter)
  moreover have "length (items s) + length (filter P xs) \<le> cap"
    using assms(3) length_filter_le [of P xs] by linarith
  ultimately show ?thesis using add_all [of s "filter P xs"] assms(1,2) by auto
qed

text \<open>The loop of a difference or an intersection: keep the elements that (do not) belong.\<close>

lemma keep_members:
  assumes "inv s" and "inv t" and "length (items s) \<le> cap" and "length (items t) < cap"
    and "\<And>x u b. has x t = Some b \<Longrightarrow> f x u = (if b = want then add x u else Some u)"
  shows "\<exists>r. foldM f (items s) emp = Some r \<and> inv r \<and>
    sabs r = (if want then sabs s \<inter> sabs t else sabs s - sabs t)"
proof -
  have c: "\<forall>x \<in> set (items s). carrier x" using items_carrier assms(1) by blast
  have f: "f x u = (if (key x \<in> sabs t) = want then add x u else Some u)" if "x \<in> set (items s)" for x u
    using has_law [OF assms(2) bspec [OF c that] assms(4)] by (simp add: assms(5) sabs_def)
  obtain r where r: "foldM f (items s) emp = Some r" "inv r"
      "sabs r = sabs emp \<union> key ` {x \<in> set (items s). (key x \<in> sabs t) = want}"
    using add_all_filter [OF inv_emp c _ f] assms(3) by (auto simp: items_emp)
  have "key ` {x \<in> set (items s). (key x \<in> sabs t) = want} = {k \<in> sabs s. (k \<in> sabs t) = want}"
    by (auto simp: sabs_def)
  then show ?thesis using r sabs_emp by (cases want) auto
qed

lemma union_loop:
  assumes "inv s" and "inv t" and "length (items s) + length (items t) \<le> cap"
  shows "\<exists>r. Option.bind (foldM add (items s) emp) (foldM add (items t)) = Some r \<and> inv r \<and>
    sabs r = sabs s \<union> sabs t"
proof -
  have "\<forall>x \<in> set (items s @ items t). carrier x" using assms items_carrier by auto
  then obtain r where "foldM add (items s @ items t) emp = Some r" "inv r"
      "sabs r = sabs emp \<union> key ` set (items s @ items t)"
    using add_all [OF inv_emp, of "items s @ items t"] assms(3) by (auto simp: items_emp)
  then show ?thesis by (auto simp: foldM_append sabs_emp) (auto simp: sabs_def)
qed

end

end
