(* ===== verification/Ast_Set.thy ===== *)
theory Ast_Set
  imports Ast_Array Hash_Table Set_Contract
begin

text \<open>
  The set value \<open>ast.set\<close> (ast/term.go): a slice of keys with a hash index that probes linearly,
  a cached hash and ground bit, and a guard that remembers whether the slice is sorted.

  Operations that read the keys sort the slice in place; where the code does that, the model
  returns the receiver too.  Insertion and lookup may loop forever on a full index and are
  partial (\<open>None\<close>).  \<open>sort.Sort\<close> is modelled by the insertion sort \<open>sort_by\<close>: on sets that satisfy
  the invariant no two keys compare equal, so that every sorting algorithm gives this slice.
\<close>

record set_rec =
  set_elems :: "hash \<rightharpoonup> val"
  set_keys :: "val list"
  set_hash :: hash
  set_ground :: bool
  set_sorted :: bool

definition newset :: set_rec where
  "newset = \<lparr>set_elems = \<lambda>_. None, set_keys = [], set_hash = 0, set_ground = True, set_sorted = False\<rparr>"

definition set_insert :: "xxhash \<Rightarrow> val \<Rightarrow> set_rec \<Rightarrow> set_rec option" where
  "set_insert X x s =
     (case probe (key_equal x) (set_elems s) (hash X x) of
        None \<Rightarrow> None
      | Some (_, Some _) \<Rightarrow> Some s
      | Some (insertHash, None) \<Rightarrow>
          Some \<lparr>set_elems = (set_elems s)(insertHash \<mapsto> x),
                set_keys = set_keys s @ [x],
                set_hash = set_hash s + hash X x,
                set_ground = set_ground s \<and> isGround x,
                set_sorted = False\<rparr>)"

definition set_lookup :: "xxhash \<Rightarrow> set_rec \<Rightarrow> val \<Rightarrow> val option option" where
  "set_lookup X s x = map_option snd (probe (key_equal x) (set_elems s) (hash X x))"

definition set_has :: "xxhash \<Rightarrow> val \<Rightarrow> set_rec \<Rightarrow> bool option" where
  "set_has X x s = map_option (\<lambda>r. r \<noteq> None) (set_lookup X s x)"

text \<open>\<open>NewSet\<close> and \<open>Add\<close>.\<close>

definition newSet :: "xxhash \<Rightarrow> val list \<Rightarrow> set_rec option" where
  "newSet X ts = foldM (set_insert X) ts newset"

text \<open>\<open>sortedKeys\<close>: the slice is sorted when the guard has not fired since the last insertion.\<close>

definition set_sort :: "set_rec \<Rightarrow> set_rec" where
  "set_sort s =
     (if set_sorted s then s
      else s\<lparr>set_keys := sort_by compare (set_keys s), set_sorted := True\<rparr>)"

definition sortedKeys :: "set_rec \<Rightarrow> set_rec \<times> val list" where
  "sortedKeys s = (set_sort s, set_keys (set_sort s))"

definition set_len :: "set_rec \<Rightarrow> nat" where
  "set_len s = length (set_keys s)"

definition set_copy :: "xxhash \<Rightarrow> set_rec \<Rightarrow> (set_rec \<times> set_rec) option" where
  "set_copy X s =
     (case sortedKeys s of (s', ks) \<Rightarrow>
        map_option (\<lambda>cpy. (s', cpy\<lparr>set_hash := set_hash s, set_ground := set_ground s\<rparr>))
          (foldM (set_insert X) ks newset))"

definition set_compare :: "set_rec \<Rightarrow> set_rec \<Rightarrow> set_rec \<times> set_rec \<times> int" where
  "set_compare s t =
     (case sortedKeys s of (s', ks) \<Rightarrow> case sortedKeys t of (t', ls) \<Rightarrow>
        (s', t', lexcmp compare ks ls))"

definition set_diff :: "xxhash \<Rightarrow> set_rec \<Rightarrow> set_rec \<Rightarrow> (set_rec \<times> set_rec) option" where
  "set_diff X s other =
     (case sortedKeys s of (s', ks) \<Rightarrow>
        map_option (Pair s')
          (foldM (\<lambda>x r. case set_has X x other of
                          None \<Rightarrow> None
                        | Some b \<Rightarrow> if \<not> b then set_insert X x r else Some r) ks newset))"

text \<open>\<open>Intersect\<close> walks the smaller set; the first component is the set that was sorted.\<close>

definition set_intersect :: "xxhash \<Rightarrow> set_rec \<Rightarrow> set_rec \<Rightarrow> (set_rec \<times> set_rec) option" where
  "set_intersect X s other =
     (let (ss, so) = if set_len other < set_len s then (other, s) else (s, other)
      in case sortedKeys ss of (ss', ks) \<Rightarrow>
        map_option (Pair ss')
          (foldM (\<lambda>x r. case set_has X x so of
                          None \<Rightarrow> None
                        | Some b \<Rightarrow> if b then set_insert X x r else Some r) ks newset))"

definition set_union :: "xxhash \<Rightarrow> set_rec \<Rightarrow> set_rec \<Rightarrow> (set_rec \<times> set_rec \<times> set_rec) option" where
  "set_union X s other =
     (case sortedKeys s of (s', ks) \<Rightarrow> case sortedKeys other of (other', ls) \<Rightarrow>
        map_option (\<lambda>r. (s', other', r))
          (Option.bind (foldM (set_insert X) ks newset) (foldM (set_insert X) ls)))"

definition set_iter :: "set_rec \<Rightarrow> (val \<Rightarrow> 's \<Rightarrow> 's \<times> 'e option) \<Rightarrow> 's \<Rightarrow> set_rec \<times> 's \<times> 'e option" where
  "set_iter s f st = (case sortedKeys s of (s', ks) \<Rightarrow> (s', slice_iter f ks st))"

definition set_reduce :: "set_rec \<Rightarrow> val \<Rightarrow> (val \<Rightarrow> val \<Rightarrow> val \<times> 'e option) \<Rightarrow> set_rec \<times> val \<times> 'e option" where
  "set_reduce s i f = set_iter s (\<lambda>x i. f i x) i"

text \<open>\<open>Map\<close>: the function may fail, which drops the set built so far.\<close>

fun map_loop :: "xxhash \<Rightarrow> (val \<Rightarrow> 'e + val) \<Rightarrow> val list \<Rightarrow> set_rec \<Rightarrow> ('e + set_rec) option" where
  "map_loop X f [] r = Some (Inr r)"
| "map_loop X f (x # xs) r =
     (case f x of
        Inl e \<Rightarrow> Some (Inl e)
      | Inr y \<Rightarrow> (case set_insert X y r of None \<Rightarrow> None | Some r' \<Rightarrow> map_loop X f xs r'))"

definition set_map :: "xxhash \<Rightarrow> set_rec \<Rightarrow> (val \<Rightarrow> 'e + val) \<Rightarrow> (set_rec \<times> ('e + set_rec)) option" where
  "set_map X s f =
     (case sortedKeys s of (s', ks) \<Rightarrow> map_option (Pair s') (map_loop X f ks newset))"

text \<open>\<open>Sorted\<close> returns a new array of the sorted keys.\<close>

definition set_to_array :: "xxhash \<Rightarrow> set_rec \<Rightarrow> set_rec \<times> array" where
  "set_to_array X s = (case sortedKeys s of (s', ks) \<Rightarrow> (s', newArray X ks))"

section \<open>The invariant\<close>

text \<open>
  The keys for which the index works: numbers within the float64 range, and a number key that
  has an int64 value written as an integer.
\<close>

definition hashable :: "val \<Rightarrow> bool" where
  "hashable x \<longleftrightarrow> key_canonical x \<and> all_nums num_float64 x"

lemma hashable_key_equal: "hashable x \<Longrightarrow> hashable y \<Longrightarrow> key_equal x y \<longleftrightarrow> canon x = canon y"
  by (simp add: hashable_def key_equal_compare compare_eq_canon)

interpretation ht: hash_keys "hash X" key_equal hashable for X
proof
  fix x y assume "hashable x" "hashable y" "key_equal x y"
  then show "hash X x = hash X y"
    by (intro hash_respects_compare) (auto simp: hashable_def key_equal_compare)
qed (simp_all add: hashable_key_equal)

definition set_ok :: "xxhash \<Rightarrow> set_rec \<Rightarrow> bool" where
  "set_ok X s \<longleftrightarrow>
     ht.table_ok X (set_elems s) (set_keys s) \<and>
     set_hash s = hash X (Set (set_keys s)) \<and>
     set_ground s = isGround (Set (set_keys s)) \<and>
     (set_sorted s \<longrightarrow> sorted_wrt (\<lambda>a b. compare a b < 0) (set_keys s))"

text \<open>What a set stands for: the canonical forms of its keys.\<close>

definition set_abs :: "set_rec \<Rightarrow> ctree set" where
  "set_abs s = canon ` set (set_keys s)"

lemma table_keys:
  assumes "ht.table_ok X m ks"
  shows "\<forall>k \<in> set ks. hashable k" and "distinct (map canon ks)"
proof -
  show c: "\<forall>k \<in> set ks. hashable k" using assms by (simp add: ht.table_ok_def)
  have "sorted_wrt (\<lambda>a b. \<not> key_equal a b) ks" using assms by (simp add: ht.table_ok_def)
  then show "distinct (map canon ks)"
    using c by (induction ks) (auto simp: hashable_key_equal)
qed

lemma table_perm:
  assumes "ht.table_ok X m ks" and "mset ls = mset ks"
  shows "ht.table_ok X m ls"
proof -
  have s: "set ls = set ks" using assms(2) by (rule mset_eq_setD)
  have "mset (map canon ls) = mset (map canon ks)" using assms(2) by simp
  then have "distinct (map canon ls)"
    using table_keys(2) [OF assms(1)] by (metis mset_eq_imp_distinct_iff)
  moreover have "\<forall>k \<in> set ls. hashable k" using table_keys(1) [OF assms(1)] s by simp
  ultimately have "sorted_wrt (\<lambda>a b. \<not> key_equal a b) ls"
    by (induction ls) (auto simp: hashable_key_equal)
  then show ?thesis using assms(1) s unfolding ht.table_ok_def by simp
qed

lemma sort_by_compare: "sort_by compare ks = sort_key canon ks"
proof -
  have c: "compare = (\<lambda>a b. cmpi (canon a) (canon b))" by (intro ext) (rule compare_canon)
  show ?thesis unfolding c by (rule sort_by_cmpi)
qed

lemma sort_by_id: "sorted_wrt (\<lambda>a b. compare a b < 0) ks \<Longrightarrow> sort_by compare ks = ks"
  unfolding sort_by_compare
  by (rule sort_key_id_if_sorted) (auto simp: compare_canon sorted_wrt_map elim: sorted_wrt_mono_rel [rotated])

lemma strict_sorted_canon:
  assumes "distinct (map canon ks)"
  shows "sorted_wrt (\<lambda>a b. compare a b < 0) (sort_by compare ks)"
proof -
  note sort_by_compare [of ks]
  moreover have "distinct (map canon (sort_key canon ks))"
    using assms by (metis mset_map mset_sort mset_eq_imp_distinct_iff)
  moreover have "sorted (map canon (sort_key canon ks))" by (rule sorted_sort_key)
  ultimately have "sorted_wrt (<) (map canon (sort_by compare ks))"
    by (simp only: strict_sorted_iff)
  then show ?thesis by (simp add: sorted_wrt_map compare_canon)
qed

lemma set_ok_newset: "set_ok X newset"
  by (simp add: set_ok_def newset_def ht.table_ok_empty)

lemma set_sort_mset: "mset (set_keys (set_sort s)) = mset (set_keys s)"
  by (simp add: set_sort_def)

lemma set_sort_keys [simp]:
  "set (set_keys (set_sort s)) = set (set_keys s)" "length (set_keys (set_sort s)) = length (set_keys s)"
  "set_abs (set_sort s) = set_abs s"
  by (simp_all add: set_sort_def set_abs_def length_sort_by set_sort_by)

lemma set_sort_elems: "set_elems (set_sort s) = set_elems s"
  by (simp add: set_sort_def)

lemma sum_list_mset_hash: "mset xs = mset ys \<Longrightarrow> sum_list (map (hash X) xs) = sum_list (map (hash X) ys)"
  by (metis mset_map sum_mset_sum_list)

lemma set_sort_ok:
  assumes "set_ok X s"
  shows "set_ok X (set_sort s)" and "sorted_wrt (\<lambda>a b. compare a b < 0) (set_keys (set_sort s))"
proof -
  have t: "ht.table_ok X (set_elems s) (set_keys s)" using assms by (simp add: set_ok_def)
  note m = set_sort_mset [of s]
  show sorted: "sorted_wrt (\<lambda>a b. compare a b < 0) (set_keys (set_sort s))"
    using assms table_keys(2) [OF t] strict_sorted_canon by (auto simp: set_sort_def set_ok_def)
  have "ht.table_ok X (set_elems (set_sort s)) (set_keys (set_sort s))"
    using table_perm [OF t m] by (simp only: set_sort_elems)
  moreover have "set_hash (set_sort s) = hash X (Set (set_keys (set_sort s)))"
    using assms sum_list_mset_hash [OF m, of X] by (simp add: set_ok_def set_sort_def)
  moreover have "set_ground (set_sort s) = isGround (Set (set_keys (set_sort s)))"
    using assms by (simp add: set_ok_def set_sort_def list_all_iff set_sort_by)
  ultimately show "set_ok X (set_sort s)" using sorted by (simp add: set_ok_def)
qed

lemma set_insert_present:
  assumes "set_ok X s" and "hashable x" and "canon x \<in> set_abs s"
  shows "set_insert X x s = Some s"
proof -
  have t: "ht.table_ok X (set_elems s) (set_keys s)" using assms(1) by (simp add: set_ok_def)
  obtain k where k: "k \<in> set (set_keys s)" "canon x = canon k" using assms(3) by (auto simp: set_abs_def)
  then have "key_equal x k" using table_keys(1) [OF t] assms(2) by (simp add: hashable_key_equal)
  then show ?thesis using ht.probe_key [OF t assms(2) k(1)] by (auto simp: set_insert_def)
qed

lemma set_insert_new:
  assumes "set_ok X s" and "hashable x" and "canon x \<notin> set_abs s" and "set_len s < 2 ^ 64"
  shows "\<exists>s'. set_insert X x s = Some s' \<and> set_ok X s' \<and> set_keys s' = set_keys s @ [x]"
proof -
  have t: "ht.table_ok X (set_elems s) (set_keys s)" using assms(1) by (simp add: set_ok_def)
  have new: "\<forall>k \<in> set (set_keys s). \<not> key_equal x k"
    using table_keys(1) [OF t] assms(2,3) by (auto simp: hashable_key_equal set_abs_def)
  obtain f where "set_elems s f = None"
    using ht.table_free [OF t] assms(4) by (auto simp: set_len_def)
  then obtain d where d: "probe (key_equal x) (set_elems s) (hash X x) = Some (hash X x + of_nat d, None)"
      "set_elems s (hash X x + of_nat d) = None" "\<forall>j<d. set_elems s (hash X x + of_nat j) \<noteq> None"
    using ht.probe_new [OF t assms(2) new] by blast
  have "ht.table_ok X ((set_elems s)(hash X x + of_nat d \<mapsto> x)) (set_keys s @ [x])"
    by (rule ht.table_ok_insert [OF t assms(2) new d(2,3)])
  then show ?thesis using assms(1) d(1) by (simp add: set_insert_def set_ok_def)
qed

lemma set_has_law:
  assumes "set_ok X s" and "hashable x" and "set_len s < 2 ^ 64"
  shows "set_has X x s = Some (canon x \<in> set_abs s)"
proof (cases "canon x \<in> set_abs s")
  case True
  then have "set_insert X x s = Some s" by (rule set_insert_present [OF assms(1,2)])
  have t: "ht.table_ok X (set_elems s) (set_keys s)" using assms(1) by (simp add: set_ok_def)
  obtain k where k: "k \<in> set (set_keys s)" "canon x = canon k" using True by (auto simp: set_abs_def)
  then have "key_equal x k" using table_keys(1) [OF t] assms(2) by (simp add: hashable_key_equal)
  then show ?thesis
    using ht.probe_key [OF t assms(2) k(1)] True by (auto simp: set_has_def set_lookup_def)
next
  case False
  then obtain s' where "set_insert X x s = Some s'" "set_keys s' = set_keys s @ [x]"
    using set_insert_new [OF assms(1,2) _ assms(3)] by blast
  then have "\<exists>h. probe (key_equal x) (set_elems s) (hash X x) = Some (h, None)"
    by (auto simp: set_insert_def split: option.splits prod.splits)
  then show ?thesis using False by (auto simp: set_has_def set_lookup_def)
qed

text \<open>The set of the code implements the contract of sets.\<close>

interpretation sc: set_contract newset "set_insert X" "set_has X" set_keys "set_ok X" hashable canon "2 ^ 64"
  for X
proof
  fix s x assume s: "set_ok X s" and x: "hashable x" and "length (set_keys s) < 2 ^ 64"
  then have len: "set_len s < 2 ^ 64" by (simp add: set_len_def)
  show "set_has X x s = Some (canon x \<in> canon ` set (set_keys s))"
    using set_has_law [OF s x len] by (simp add: set_abs_def)
  show "\<exists>s'. set_insert X x s = Some s' \<and> set_ok X s' \<and>
      canon ` set (set_keys s') = insert (canon x) (canon ` set (set_keys s))"
  proof (cases "canon x \<in> set_abs s")
    case True
    with set_insert_present [OF s x True] s show ?thesis by (simp add: set_abs_def insert_absorb)
  next
    case False
    then show ?thesis using set_insert_new [OF s x False len] by auto
  qed
next
  fix s x assume "set_ok X s" and "x \<in> set (set_keys s)"
  then show "hashable x" using table_keys(1) by (auto simp: set_ok_def)
next
  fix s assume "set_ok X s"
  then show "distinct (map canon (set_keys s))" using table_keys(2) by (auto simp: set_ok_def)
qed (simp_all add: set_ok_newset, simp add: newset_def)

lemma sabs_set_abs [simp]: "sc.sabs s = set_abs s"
  by (simp add: sc.sabs_def set_abs_def)

section \<open>What the operations do\<close>

lemma map_loop_ok:
  assumes "set_ok X r" and "\<forall>x \<in> set xs. \<exists>y. f x = Inr y \<and> hashable y"
    and "set_len r + length xs \<le> 2 ^ 64"
  shows "\<exists>r'. map_loop X f xs r = Some (Inr r') \<and> set_ok X r' \<and>
    set_abs r' = set_abs r \<union> canon ` projr ` f ` set xs"
proof -
  let ?ys = "map (\<lambda>x. projr (f x)) xs"
  have "map_loop X f xs r = map_option Inr (foldM (set_insert X) ?ys r)"
    using assms(2) by (induction xs arbitrary: r) (auto split: option.split)
  moreover have "\<forall>y \<in> set ?ys. hashable y" using assms(2) by auto
  ultimately show ?thesis
    using sc.add_all [OF assms(1), of ?ys] assms(3) by (auto simp: set_len_def image_image)
qed

lemma map_loop_error:
  assumes "set_ok X r" and "\<forall>x \<in> set xs. \<exists>y. f x = Inr y \<and> hashable y" and "f x = Inl e"
    and "set_len r + length xs \<le> 2 ^ 64"
  shows "map_loop X f (xs @ x # ys) r = Some (Inl e)"
  using assms
proof (induction xs arbitrary: r)
  case (Cons z zs)
  then obtain y where y: "f z = Inr y" "hashable y" by auto
  obtain t where t: "set_insert X y r = Some t" "set_ok X t" "set_abs t = insert (canon y) (set_abs r)"
    using sc.add_law [OF Cons.prems(1) y(2)] Cons.prems(4) by (auto simp: set_len_def set_abs_def)
  have "set_len t \<le> Suc (set_len r)"
    using sc.card_sabs [OF t(2)] sc.card_sabs [OF Cons.prems(1)] t(3)
      card_insert_le_m1 [of "Suc (card (set_abs r))" "set_abs r" "canon y"] by (simp add: set_len_def)
  then show ?case using Cons t(1,2) y(1) by simp
qed simp

lemma set_compare_abs:
  assumes "set_ok X s" and "set_ok X t"
  shows "snd (snd (set_compare s t)) = cmpi (sorted_list_of_set (set_abs s)) (sorted_list_of_set (set_abs t))"
proof -
  have *: "map canon (set_keys (set_sort u)) = sorted_list_of_set (set_abs u)" if "set_ok X u" for u
  proof -
    have "sorted_wrt (<) (map canon (set_keys (set_sort u)))"
      using set_sort_ok(2) [OF that] by (simp add: sorted_wrt_map compare_canon)
    then show ?thesis
      using sorted_list_of_set.idem_if_sorted_distinct [of "map canon (set_keys (set_sort u))"]
      by (simp add: strict_sorted_iff set_abs_def)
  qed
  have c: "compare = (\<lambda>a b. cmpi (canon a) (canon b))" by (intro ext) (rule compare_canon)
  have "lexcmp compare ks ls = cmpi (map canon ks) (map canon ls)" for ks ls
    unfolding c by (simp only: lexcmp_map [symmetric] lexcmp_cmpi)
  then show ?thesis using * assms by (simp add: set_compare_def sortedKeys_def)
qed

lemma newSet_ok:
  assumes "\<forall>x \<in> set ts. hashable x" and "length ts \<le> 2 ^ 64"
  shows "\<exists>s. newSet X ts = Some s \<and> set_ok X s \<and> set_abs s = canon ` set ts"
  using sc.add_all [OF set_ok_newset assms(1), of X] assms(2) sc.sabs_emp
  by (auto simp: newSet_def newset_def)

section \<open>Properties\<close>

text \<open>
  C3.  Insertion and lookup.  On a well-formed set with room for another hash code, inserting a
  hashable key returns a well-formed set that holds exactly one more key up to Compare, whose
  cached hash and ground bit are those of its keys, and lookup finds exactly the keys of the set.
\<close>

theorem set_insert_lookup:
  assumes "set_ok X s" and "hashable x" and "hashable y" and "set_len s + 1 < 2 ^ 64"
  shows "\<exists>s'. set_insert X x s = Some s' \<and> set_ok X s' \<and> set_abs s' = insert (canon x) (set_abs s) \<and>
    set_has X y s' = Some (compare y x = 0 \<or> set_has X y s = Some True) \<and>
    set_len s' = (if set_has X x s = Some True then set_len s else set_len s + 1)"
proof -
  have len: "set_len s < 2 ^ 64" using assms(4) by simp
  note has = set_has_law [OF assms(1) assms(3) len] set_has_law [OF assms(1,2) len]
  obtain s' where s': "set_insert X x s = Some s'" "set_ok X s'" "set_abs s' = insert (canon x) (set_abs s)"
    using sc.add_law [OF assms(1,2)] len by (auto simp: set_len_def set_abs_def)
  have l: "set_len s' = card (insert (canon x) (set_abs s))" "set_len s = card (set_abs s)"
    using sc.card_sabs [OF s'(2)] sc.card_sabs [OF assms(1)] by (simp_all add: s'(3) set_len_def)
  have "finite (set_abs s)" by (simp add: set_abs_def)
  then have l': "set_len s' = (if canon x \<in> set_abs s then set_len s else set_len s + 1)"
    using l by (simp add: insert_absorb)
  then have "set_len s' < 2 ^ 64" using assms(4) by (simp split: if_splits)
  then have "set_has X y s' = Some (canon y \<in> insert (canon x) (set_abs s))"
    using set_has_law [OF s'(2) assms(3)] s'(3) by simp
  then show ?thesis using s' has l' by (auto simp: compare_eq_canon)
qed

theorem set_insert_lookup_witness:
  "set_ok xx0 newset \<and> hashable Null \<and> hashable (Boolean True) \<and>
   (\<exists>s'. set_insert xx0 Null newset = Some s' \<and> set_ok xx0 s' \<and>
      set_abs s' = insert (canon Null) (set_abs newset) \<and>
      set_has xx0 (Boolean True) s' = Some False)"
proof -
  have h: "hashable Null" "hashable (Boolean True)" by (simp_all add: hashable_def key_canonical_def)
  have l: "set_len newset + 1 < 2 ^ 64" by (simp add: set_len_def newset_def)
  have n: "compare (Boolean True) Null \<noteq> 0" by (simp add: compare_eq_canon node_def)
  have e: "set_has xx0 (Boolean True) newset = Some False"
    by (simp add: set_has_def set_lookup_def newset_def probe.simps)
  from set_insert_lookup [OF set_ok_newset h l, of xx0] n e show ?thesis
    using h set_ok_newset by auto
qed

text \<open>
  C15.  Set algebra.  Union, intersection and difference of well-formed sets return well-formed
  sets that denote the union, intersection and difference of the keys up to Compare.
\<close>

theorem set_algebra:
  assumes "set_ok X s" and "set_ok X t" and "set_len s + set_len t < 2 ^ 64"
  shows "(\<exists>s' t' r. set_union X s t = Some (s', t', r) \<and> set_ok X r \<and> set_abs r = set_abs s \<union> set_abs t) \<and>
    (\<exists>u r. set_intersect X s t = Some (u, r) \<and> set_ok X r \<and> set_abs r = set_abs s \<inter> set_abs t) \<and>
    (\<exists>s' r. set_diff X s t = Some (s', r) \<and> set_ok X r \<and> set_abs r = set_abs s - set_abs t)"
proof (intro conjI)
  have len: "length (set_keys s) + length (set_keys t) < 2 ^ 64" using assms(3) by (simp add: set_len_def)
  note ss = set_sort_ok(1) [OF assms(1)] and st = set_sort_ok(1) [OF assms(2)]
  show "\<exists>s' t' r. set_union X s t = Some (s', t', r) \<and> set_ok X r \<and> set_abs r = set_abs s \<union> set_abs t"
    using sc.union_loop [OF ss st] len by (auto simp: set_union_def sortedKeys_def)
  let ?keep = "\<lambda>w P x r. case set_has X x w of None \<Rightarrow> None
    | Some b \<Rightarrow> if P b then set_insert X x r else Some r"
  have "\<exists>r. foldM (?keep t Not) (set_keys (set_sort s)) newset = Some r \<and> set_ok X r \<and>
      sc.sabs r = (if False then sc.sabs (set_sort s) \<inter> sc.sabs t else sc.sabs (set_sort s) - sc.sabs t)"
    by (rule sc.keep_members [OF ss assms(2)]) (use len in auto)
  then show "\<exists>s' r. set_diff X s t = Some (s', r) \<and> set_ok X r \<and> set_abs r = set_abs s - set_abs t"
    by (auto simp: set_diff_def sortedKeys_def)
  have keep: "\<exists>r. foldM (?keep w (\<lambda>b. b)) (set_keys (set_sort v)) newset = Some r \<and> set_ok X r \<and>
      sc.sabs r = (if True then sc.sabs (set_sort v) \<inter> sc.sabs w else sc.sabs (set_sort v) - sc.sabs w)"
    if "set_ok X v" "set_ok X w" "set_len v < 2 ^ 64" "set_len w < 2 ^ 64" for v w
    by (rule sc.keep_members [OF set_sort_ok(1) [OF that(1)] that(2)]) (use that(3,4) in \<open>auto simp: set_len_def\<close>)
  show "\<exists>u r. set_intersect X s t = Some (u, r) \<and> set_ok X r \<and> set_abs r = set_abs s \<inter> set_abs t"
    using keep [OF assms(1,2)] keep [OF assms(2,1)] assms(3)
    by (auto simp: set_intersect_def sortedKeys_def Int_commute)
qed

theorem set_algebra_witness:
  "\<exists>s t s' t' r. newSet xx0 [Null, Boolean True] = Some s \<and> newSet xx0 [Boolean True, Boolean False] = Some t \<and>
     set_union xx0 s t = Some (s', t', r) \<and> set_ok xx0 r \<and>
     set_abs r = canon ` {Null, Boolean True, Boolean False}"
proof -
  have h: "\<forall>x \<in> set [Null, Boolean True]. hashable x" "\<forall>x \<in> set [Boolean True, Boolean False]. hashable x"
    by (simp_all add: hashable_def key_canonical_def)
  obtain s where s: "newSet xx0 [Null, Boolean True] = Some s" "set_ok xx0 s"
      "set_abs s = canon ` {Null, Boolean True}"
    using newSet_ok [OF h(1), of xx0] by auto
  obtain t where t: "newSet xx0 [Boolean True, Boolean False] = Some t" "set_ok xx0 t"
      "set_abs t = canon ` {Boolean True, Boolean False}"
    using newSet_ok [OF h(2), of xx0] by auto
  have "card (set_abs s) \<le> 2" "card (set_abs t) \<le> 2"
    unfolding s(3) t(3) by (rule order_trans [OF card_image_le]; simp add: card_insert_if)+
  then have "set_len s + set_len t < 2 ^ 64"
    using sc.card_sabs [OF s(2)] sc.card_sabs [OF t(2)] by (simp add: set_len_def)
  from set_algebra [OF s(2) t(2) this] s t show ?thesis by auto
qed

text \<open>
  Comparing sets.  \<open>Compare\<close> on well-formed sets is a comparison of the sorted canonical
  forms of their keys: it is 0 exactly when the sets have the same keys up to Compare, and then
  their cached hashes agree, whatever the order of insertion.
\<close>

theorem set_compare_extensional:
  assumes "set_ok X s" and "set_ok X t"
  shows "snd (snd (set_compare s t)) = compare (Set (set_keys s)) (Set (set_keys t)) \<and>
    (snd (snd (set_compare s t)) = 0 \<longleftrightarrow> set_abs s = set_abs t) \<and>
    (set_abs s = set_abs t \<longrightarrow> set_hash s = set_hash t)"
proof (intro conjI impI)
  have fin: "finite (set_abs u)" for u by (simp add: set_abs_def)
  note c = set_compare_abs [OF assms]
  show eq: "snd (snd (set_compare s t)) = 0 \<longleftrightarrow> set_abs s = set_abs t"
    unfolding c using fin sorted_list_of_set_inject by (auto simp: cmpi_simps)
  have sorted: "sort_by compare (set_keys u) = set_keys (set_sort u)" if "set_ok X u" for u
    using that by (auto simp: set_sort_def set_ok_def sort_by_id)
  show cmp: "snd (snd (set_compare s t)) = compare (Set (set_keys s)) (Set (set_keys t))"
    using sorted assms by (simp add: set_compare_def sortedKeys_def compare_same)
  assume "set_abs s = set_abs t"
  then have "compare (Set (set_keys s)) (Set (set_keys t)) = 0" using eq cmp by simp
  moreover have "all_nums num_float64 (Set (set_keys u))" if "set_ok X u" for u
    using sc.items_carrier [OF that] by (auto simp: hashable_def list_all_iff)
  ultimately have "hash X (Set (set_keys s)) = hash X (Set (set_keys t))"
    using hash_respects_compare assms by blast
  then show "set_hash s = set_hash t" using assms by (simp add: set_ok_def)
qed

theorem set_compare_extensional_witness:
  "\<exists>s t. newSet xx0 [Null, Boolean True] = Some s \<and> newSet xx0 [Boolean True, Null] = Some t \<and>
     set_keys s \<noteq> set_keys t \<and> snd (snd (set_compare s t)) = 0 \<and> set_hash s = set_hash t"
proof -
  have h: "\<forall>x \<in> set [Null, Boolean True]. hashable x" "\<forall>x \<in> set [Boolean True, Null]. hashable x"
    by (simp_all add: hashable_def key_canonical_def)
  obtain s where s: "newSet xx0 [Null, Boolean True] = Some s" "set_ok xx0 s"
      "set_abs s = canon ` set [Null, Boolean True]"
    using newSet_ok [OF h(1), of xx0] by auto
  obtain t where t: "newSet xx0 [Boolean True, Null] = Some t" "set_ok xx0 t"
      "set_abs t = canon ` set [Boolean True, Null]"
    using newSet_ok [OF h(2), of xx0] by auto
  have "map_option set_keys (newSet xx0 [Null, Boolean True]) = Some [Null, Boolean True]"
    "map_option set_keys (newSet xx0 [Boolean True, Null]) = Some [Boolean True, Null]"
    by code_simp+
  then have "set_keys s \<noteq> set_keys t" using s(1) t(1) by auto
  moreover have "set_abs s = set_abs t" unfolding s(3) t(3) by (simp add: insert_commute)
  ultimately show ?thesis using set_compare_extensional [OF s(2) t(2)] s(1) t(1) by auto
qed

text \<open>
  Key equality is not symmetric, and a set may hold two elements that compare equal.  The
  numbers \<open>0\<close> and \<open>0.00\<close> compare equal; inserted in this order they give one element, in the other
  order two, and then the two sets do not compare equal.
\<close>

theorem set_insert_order_matters:
  "compare (Number (intNumber 0)) (Number (Num False 0 (Some (2, 0)) None)) = 0 \<and>
   (\<exists>s t. newSet X [Number (intNumber 0), Number (Num False 0 (Some (2, 0)) None)] = Some s \<and>
      newSet X [Number (Num False 0 (Some (2, 0)) None), Number (intNumber 0)] = Some t \<and>
      set_len s = 1 \<and> set_len t = 2 \<and> snd (snd (set_compare s t)) \<noteq> 0)"
proof (intro conjI)
  let ?a = "Number (intNumber 0)" and ?b = "Number (Num False 0 (Some (2, 0)) None)"
  have h: "hash X ?a = 0" "hash X ?b = 0"
    by (simp_all add: num_hash_def float64_of_def int_of_float64_def intNumber_def int64_min_def int64_max_def)
  have k: "key_equal ?b ?a" "\<not> key_equal ?a ?b"
    by (simp_all add: key_equal_def intNumber_def int64_min_def int64_max_def)
  show c: "compare ?a ?b = 0" by (simp add: compare_same num_compare_rat intNumber_def)
  have "newSet X [?a, ?b] = Some \<lparr>set_elems = [0 \<mapsto> ?a], set_keys = [?a], set_hash = 0,
      set_ground = True, set_sorted = False\<rparr>"
    using k by (simp add: newSet_def set_insert_def newset_def probe.simps h del: hash.simps)
  moreover have "newSet X [?b, ?a] = Some \<lparr>set_elems = [0 \<mapsto> ?b, 1 \<mapsto> ?a], set_keys = [?b, ?a],
      set_hash = 0, set_ground = True, set_sorted = False\<rparr>"
    using k by (simp add: newSet_def set_insert_def newset_def probe.simps h del: hash.simps)
  ultimately show "\<exists>s t. newSet X [?a, ?b] = Some s \<and> newSet X [?b, ?a] = Some t \<and>
      set_len s = 1 \<and> set_len t = 2 \<and> snd (snd (set_compare s t)) \<noteq> 0"
    by (simp add: set_len_def set_compare_def sortedKeys_def set_sort_def)
qed

end
