(* ===== verification/Ast_Object.thy ===== *)
theory Ast_Object
  imports Ast_Map Ast_Set
begin

text \<open>
  The object value \<open>ast.object\<close> (ast/term.go): a slice of key/value elements with a chained hash index,
  a cached hash, a count of the ground keys and values, and a guard for the order of the slice.

  The index and the slice share their elements: overwriting a value changes it in both.  An element
  is identified by its key, since no object holds the same key twice.
\<close>

record obj_rec =
  obj_elems :: "hash \<Rightarrow> (val \<times> val) list"
  obj_keys :: "(val \<times> val) list"
  obj_ground :: int
  obj_hash :: hash
  obj_sorted :: bool

definition newobject :: obj_rec where
  "newobject = \<lparr>obj_elems = \<lambda>_. [], obj_keys = [], obj_ground = 0, obj_hash = 0, obj_sorted = False\<rparr>"

definition ground_bit :: "val \<Rightarrow> int" where
  "ground_bit v = (if isGround v then 1 else 0)"

text \<open>Overwrite the value of the element with key k in the slice.\<close>

definition set_value :: "val \<Rightarrow> val \<Rightarrow> (val \<times> val) list \<Rightarrow> (val \<times> val) list" where
  "set_value k v es = map (\<lambda>e. if fst e = k then (k, v) else e) es"

definition obj_lookup :: "xxhash \<Rightarrow> obj_rec \<Rightarrow> val \<Rightarrow> (val \<times> val) option" where
  "obj_lookup X obj k = chain_get (key_equal k) (obj_elems obj (hash X k))"

definition obj_get :: "xxhash \<Rightarrow> obj_rec \<Rightarrow> val \<Rightarrow> val option" where
  "obj_get X obj k = map_option snd (obj_lookup X obj k)"

definition obj_insert :: "xxhash \<Rightarrow> val \<Rightarrow> val \<Rightarrow> obj_rec \<Rightarrow> obj_rec" where
  "obj_insert X k v obj =
     (let code = hash X k; head = obj_elems obj code
      in case (chain_get (key_equal k) head, chain_set (key_equal k) v head) of
           (Some (key, old), Some chain) \<Rightarrow>
             obj\<lparr>obj_elems := (obj_elems obj)(code := chain),
                 obj_keys := set_value key v (obj_keys obj),
                 obj_ground := obj_ground obj - ground_bit old + ground_bit v\<rparr>
         | _ \<Rightarrow>
             \<lparr>obj_elems = (obj_elems obj)(code := (k, v) # head),
              obj_keys = obj_keys obj @ [(k, v)],
              obj_ground = obj_ground obj + ground_bit k + ground_bit v,
              obj_hash = obj_hash obj + (code + hash X v),
              obj_sorted = False\<rparr>)"

text \<open>\<open>NewObject\<close> inserts its items in order.\<close>

definition newObject :: "xxhash \<Rightarrow> (val \<times> val) list \<Rightarrow> obj_rec" where
  "newObject X items = fold (\<lambda>(k, v). obj_insert X k v) items newobject"

definition obj_sort :: "obj_rec \<Rightarrow> obj_rec" where
  "obj_sort obj =
     (if obj_sorted obj then obj
      else obj\<lparr>obj_keys := sort_by (\<lambda>p q. compare (fst p) (fst q)) (obj_keys obj), obj_sorted := True\<rparr>)"

definition obj_sortedKeys :: "obj_rec \<Rightarrow> obj_rec \<times> (val \<times> val) list" where
  "obj_sortedKeys obj = (obj_sort obj, obj_keys (obj_sort obj))"

definition obj_len :: "obj_rec \<Rightarrow> int" where
  "obj_len obj = int (length (obj_keys obj))"

definition obj_isGround :: "obj_rec \<Rightarrow> bool" where
  "obj_isGround obj = (obj_ground obj = 2 * int (length (obj_keys obj)))"

definition obj_compare :: "obj_rec \<Rightarrow> obj_rec \<Rightarrow> obj_rec \<times> obj_rec \<times> int" where
  "obj_compare a b =
     (case obj_sortedKeys a of (a', ks) \<Rightarrow> case obj_sortedKeys b of (b', ls) \<Rightarrow>
        (a', b', lexcmp (\<lambda>p q. cmp_then (compare (fst p) (fst q)) (compare (snd p) (snd q))) ks ls))"

definition obj_find :: "xxhash \<Rightarrow> obj_rec \<Rightarrow> ref \<Rightarrow> val option" where
  "obj_find X obj path =
     (case path of
        [] \<Rightarrow> Some (Object (obj_keys obj))
      | p # ps \<Rightarrow> (case obj_get X obj p of None \<Rightarrow> None | Some w \<Rightarrow> find w ps))"

definition obj_keyList :: "obj_rec \<Rightarrow> obj_rec \<times> val list" where
  "obj_keyList obj = (case obj_sortedKeys obj of (obj', es) \<Rightarrow> (obj', map fst es))"

text \<open>
  The keys iterator: it remembers the number of keys at its creation and sorts on every step.
\<close>

record keys_iterator =
  ki_obj :: obj_rec
  ki_num :: int
  ki_index :: int

definition newobjectKeysIterator :: "obj_rec \<Rightarrow> keys_iterator" where
  "newobjectKeysIterator obj = \<lparr>ki_obj = obj, ki_num = obj_len obj, ki_index = 0\<rparr>"

definition ki_next :: "keys_iterator \<Rightarrow> val option \<times> keys_iterator" where
  "ki_next it =
     (if ki_index it = ki_num it \<or> ki_num it = 0 then (None, it)
      else case obj_sortedKeys (ki_obj it) of (obj, es) \<Rightarrow>
        (Some (fst (es ! nat (ki_index it))), it\<lparr>ki_obj := obj, ki_index := ki_index it + 1\<rparr>))"

section \<open>The index as a hash map\<close>

interpretation oh: hash_keys "hash X" "\<lambda>e k. key_equal k e" hashable for X
proof
  fix x y assume "hashable x" "hashable y" "key_equal y x"
  then show "hash X x = hash X y" by (intro ht.eq_hash [symmetric])
qed (simp_all add: hashable_key_equal)

definition obj_hm :: "xxhash \<Rightarrow> obj_rec \<Rightarrow> (val, val) hashmap" where
  "obj_hm X obj = \<lparr>hm_eq = \<lambda>e k. key_equal k e, hm_hash = hash X, hm_table = obj_elems obj, hm_size = obj_len obj\<rparr>"

definition count_ground :: "(val \<times> val) list \<Rightarrow> int" where
  "count_ground es = sum_list (map (\<lambda>e. ground_bit (fst e) + ground_bit (snd e)) es)"

definition obj_ok :: "xxhash \<Rightarrow> obj_rec \<Rightarrow> bool" where
  "obj_ok X obj \<longleftrightarrow>
     oh.hm_inv X (obj_hm X obj) \<and> distinct (obj_keys obj) \<and>
     set (obj_keys obj) = (\<Union>code. set (obj_elems obj code)) \<and>
     obj_ground obj = count_ground (obj_keys obj) \<and>
     (obj_sorted obj \<longrightarrow> sorted_wrt (\<lambda>p q. compare (fst p) (fst q) < 0) (obj_keys obj))"

definition obj_enum :: "obj_rec \<Rightarrow> (val \<times> val) list \<Rightarrow> bool" where
  "obj_enum obj kvs \<longleftrightarrow> mset kvs = mset (obj_keys obj)"

lemma obj_okD:
  assumes "obj_ok X obj"
  shows "oh.hm_inv X (obj_hm X obj)" "distinct (obj_keys obj)"
    "set (obj_keys obj) = (\<Union>code. set (obj_elems obj code))"
    "\<And>k v. (k, v) \<in> set (obj_keys obj) \<Longrightarrow> hashable k"
    "obj_ground obj = count_ground (obj_keys obj)"
proof -
  show i: "oh.hm_inv X (obj_hm X obj)" "distinct (obj_keys obj)"
    "set (obj_keys obj) = (\<Union>code. set (obj_elems obj code))" "obj_ground obj = count_ground (obj_keys obj)"
    using assms by (simp_all add: obj_ok_def)
  show "hashable k" if kv: "(k, v) \<in> set (obj_keys obj)" for k v
  proof -
    obtain code where "(k, v) \<in> set (hm_table (obj_hm X obj) code)" using i(3) kv by (auto simp: obj_hm_def)
    then show ?thesis using oh.hm_invD(4) [OF i(1)] by fastforce
  qed
qed

lemma obj_get_hm: "obj_get X obj k = hm_get (obj_hm X obj) k"
  by (simp add: obj_get_def obj_lookup_def hm_get_def obj_hm_def)

text \<open>The elements of the slice, in any order, are an iteration of the index.\<close>

lemma obj_enum_hm:
  assumes "obj_ok X obj" and "obj_enum obj kvs"
  obtains es where "oh.hm_enum (obj_hm X obj) es" and "mset es = mset kvs"
proof -
  note I = obj_okD [OF assms(1)]
  obtain es where es: "oh.hm_enum (obj_hm X obj) es" using oh.hm_enum_ex [OF I(1)] by blast
  then obtain ord where ord: "order_of (obj_hm X obj) ord" "es = hm_entries ord (obj_hm X obj)"
    by (auto simp: oh.hm_enum_def)
  have "set es = set (obj_keys obj)"
    using ord unfolding I(3) by (force simp: hm_entries_def order_of_def obj_hm_def)
  moreover have "distinct es" by (rule oh.hm.enum_set_card(1) [OF I(1) es])
  ultimately have "mset es = mset (obj_keys obj)" using I(2) by (simp add: set_eq_iff_mset_eq_distinct)
  then show thesis using that [OF es] assms(2) by (simp add: obj_enum_def)
qed

lemma sorted_wrt_perm:
  assumes "mset xs = mset ys" and "sorted_wrt R ys" and "\<And>x y. x \<in> set ys \<Longrightarrow> y \<in> set ys \<Longrightarrow> R x y \<Longrightarrow> R y x"
  shows "sorted_wrt R xs"
  using assms
proof (induction xs arbitrary: ys)
  case (Cons x xs)
  then obtain as bs where ys: "ys = as @ x # bs" by (metis list.set_intros(1) mset_eq_setD split_list)
  have "mset xs = mset (as @ bs)" using Cons.prems(1) by (simp add: ys)
  moreover have "sorted_wrt R (as @ bs)" using Cons.prems(2) by (simp add: ys sorted_wrt_append)
  moreover have "\<And>x y. x \<in> set (as @ bs) \<Longrightarrow> y \<in> set (as @ bs) \<Longrightarrow> R x y \<Longrightarrow> R y x" using Cons.prems(3) ys by auto
  ultimately have "sorted_wrt R xs" using Cons.IH [of "as @ bs"] by blast
  moreover have "R x z" if "z \<in> set xs" for z
  proof -
    have "z \<in> set (as @ bs)" using \<open>mset xs = mset (as @ bs)\<close> that mset_eq_setD by blast
    then show ?thesis using Cons.prems(2,3) by (auto simp: ys sorted_wrt_append)
  qed
  ultimately show ?case by simp
qed simp

lemma count_ground_perm: "mset xs = mset ys \<Longrightarrow> count_ground xs = count_ground ys"
  unfolding count_ground_def by (rule sum_list_map_perm)

lemma chain_get_set:
  "chain_get P c = Some (k, old) \<Longrightarrow> \<exists>d. chain_set P v c = Some d"
  using chain_set_None [of P v c] chain_get_None [of P c] by (cases "chain_set P v c") simp_all

lemma chain_get_decomp:
  assumes "chain_get P c = Some (k, old)" and "chain_set P v c = Some d"
  obtains xs ys where "c = xs @ (k, old) # ys" and "d = xs @ (k, v) # ys"
proof -
  obtain xs a b ys where "c = xs @ (a, b) # ys" "d = xs @ (a, v) # ys" "P a" "\<forall>e \<in> set xs. \<not> P (fst e)"
    using chain_set_Some [OF assms(2)] by blast
  moreover have "chain_get P xs = None" using calculation(4) by (simp add: chain_get_None)
  ultimately show thesis using that assms(1) by (simp add: chain_get_append chain_get_Cons)
qed

text \<open>Insertion, by the two branches of the code.\<close>

lemma obj_insert_new:
  assumes "obj_lookup X obj k = None"
  shows "obj_insert X k v obj =
    \<lparr>obj_elems = (obj_elems obj)(hash X k := (k, v) # obj_elems obj (hash X k)),
     obj_keys = obj_keys obj @ [(k, v)],
     obj_ground = obj_ground obj + ground_bit k + ground_bit v,
     obj_hash = obj_hash obj + (hash X k + hash X v), obj_sorted = False\<rparr>"
  using assms by (simp add: obj_insert_def obj_lookup_def Let_def)

lemma obj_insert_old:
  assumes "obj_lookup X obj k = Some (key, old)"
  obtains xs ys where "obj_elems obj (hash X k) = xs @ (key, old) # ys" and
    "obj_insert X k v obj = obj\<lparr>obj_elems := (obj_elems obj)(hash X k := xs @ (key, v) # ys),
       obj_keys := set_value key v (obj_keys obj), obj_ground := obj_ground obj - ground_bit old + ground_bit v\<rparr>"
proof -
  have g: "chain_get (key_equal k) (obj_elems obj (hash X k)) = Some (key, old)" using assms by (simp add: obj_lookup_def)
  from chain_get_set [OF g] obtain d where d: "chain_set (key_equal k) v (obj_elems obj (hash X k)) = Some d" by blast
  obtain xs ys where "obj_elems obj (hash X k) = xs @ (key, old) # ys" "d = xs @ (key, v) # ys"
    using chain_get_decomp [OF g d] by blast
  then show thesis using that assms d by (simp add: obj_insert_def obj_lookup_def Let_def)
qed

lemma obj_insert_hm: "obj_hm X (obj_insert X k v obj) = hm_put k v (obj_hm X obj)"
proof (cases "obj_lookup X obj k")
  case None
  then have "chain_set (key_equal k) v (obj_elems obj (hash X k)) = None"
    by (simp add: obj_lookup_def chain_get_None chain_set_None)
  then show ?thesis using obj_insert_new [OF None] by (simp add: obj_hm_def hm_put_def obj_len_def Let_def)
next
  case (Some e)
  obtain key old where e: "e = (key, old)" by (cases e)
  have "chain_get (key_equal k) (obj_elems obj (hash X k)) = Some (key, old)" using Some by (simp add: obj_lookup_def e)
  from chain_get_set [OF this] obtain d where d: "chain_set (key_equal k) v (obj_elems obj (hash X k)) = Some d" by blast
  then show ?thesis using Some by (simp add: obj_insert_def obj_lookup_def obj_hm_def hm_put_def obj_len_def Let_def e set_value_def)
qed

section \<open>The invariant is kept\<close>

lemma distinct_mapD: "distinct (map f xs) \<Longrightarrow> distinct xs"
  by (simp add: distinct_map)

lemma canon_distinct:
  assumes "sorted_wrt (\<lambda>p q. \<not> key_equal (fst q) (fst p)) es" and "\<forall>e \<in> set es. hashable (fst e)"
  shows "distinct (map canon (map fst es))"
  using assms by (induction es) (auto simp: hashable_key_equal)

lemma obj_keys_distinct:
  assumes "obj_ok X obj"
  shows "sorted_wrt (\<lambda>p q. \<not> key_equal (fst q) (fst p)) (obj_keys obj)" and "distinct (map canon (map fst (obj_keys obj)))"
    and "distinct (map fst (obj_keys obj))"
proof -
  note I = obj_okD [OF assms]
  obtain es where es: "oh.hm_enum (obj_hm X obj) es" "mset es = mset (obj_keys obj)"
    using obj_enum_hm [OF assms, of "obj_keys obj"] by (auto simp: obj_enum_def)
  have h: "hashable (fst e)" if "e \<in> set (obj_keys obj)" for e using I(4) [of "fst e" "snd e"] that by simp
  have "sorted_wrt (\<lambda>p q. \<not> key_equal (fst q) (fst p)) es" by (rule oh.hm_enum_laws(2) [OF I(1) es(1)])
  then show s: "sorted_wrt (\<lambda>p q. \<not> key_equal (fst q) (fst p)) (obj_keys obj)"
    using h mset_eq_setD [OF es(2)] by (intro sorted_wrt_perm [OF es(2) [symmetric]]) (auto simp: hashable_key_equal)
  show c: "distinct (map canon (map fst (obj_keys obj)))"
    by (rule canon_distinct) (use s h in auto)
  then show "distinct (map fst (obj_keys obj))" by (rule distinct_mapD)
qed

lemma set_value_fst [simp]: "map fst (set_value k v es) = map fst es"
  by (simp add: set_value_def comp_def)

lemma set_value_set:
  assumes "(k, old) \<in> set es"
  shows "set (set_value k v es) = insert (k, v) {e \<in> set es. fst e \<noteq> k}"
  using assms by (force simp: set_value_def)

lemma sorted_fst: "sorted_wrt (\<lambda>p q. R (fst p) (fst q)) es = sorted_wrt R (map fst es)"
  by (simp add: sorted_wrt_map)

lemma count_ground_set_value:
  assumes "distinct (map fst es)" and "(k, old) \<in> set es"
  shows "count_ground (set_value k v es) = count_ground es - ground_bit old + ground_bit v"
  using assms
proof (induction es)
  case (Cons e es)
  show ?case
  proof (cases "fst e = k")
    case True
    then have "k \<notin> fst ` set es" using Cons.prems(1) by auto
    then have "set_value k v es = es" by (force simp: set_value_def intro: map_idI)
    moreover have "snd e = old" using True Cons.prems by (cases e) force
    ultimately show ?thesis using True by (simp add: count_ground_def set_value_def)
  next
    case False
    then have "count_ground (set_value k v es) = count_ground es - ground_bit old + ground_bit v" using Cons by auto
    then show ?thesis using False by (simp add: count_ground_def set_value_def)
  qed
qed simp

lemma obj_lookup_SomeD:
  assumes "obj_ok X obj" and "obj_lookup X obj k = Some e"
  shows "e \<in> set (obj_keys obj)" and "key_equal k (fst e)" and "e \<in> set (obj_elems obj (hash X k))"
proof -
  show e: "key_equal k (fst e)" "e \<in> set (obj_elems obj (hash X k))"
    using assms(2) by (auto simp: obj_lookup_def chain_get_def find_Some_iff)
  then show "e \<in> set (obj_keys obj)" using obj_okD(3) [OF assms(1)] by blast
qed

lemma obj_lookup_NoneD:
  assumes "obj_ok X obj" and "hashable k" and "obj_lookup X obj k = None" and "e \<in> set (obj_keys obj)"
  shows "\<not> key_equal k (fst e)"
proof
  assume eq: "key_equal k (fst e)"
  note I = obj_okD [OF assms(1)]
  obtain code where "(fst e, snd e) \<in> set (hm_table (obj_hm X obj) code)" using I(3) assms(4) by (auto simp: obj_hm_def)
  then have "hm_get (obj_hm X obj) k = Some (snd e)" using oh.hm_get_any [OF I(1) assms(2)] eq by blast
  then show False using assms(3) by (simp add: obj_get_hm [symmetric] obj_get_def)
qed

text \<open>Lookup through the index finds what a scan of the slice finds.\<close>

lemma obj_lookup_slice:
  assumes "obj_ok X obj" and "hashable k"
  shows "obj_lookup X obj k = List.find (\<lambda>p. key_equal k (fst p)) (obj_keys obj)"
proof (cases "obj_lookup X obj k")
  case None
  then have "\<forall>e \<in> set (obj_keys obj). \<not> key_equal k (fst e)" using obj_lookup_NoneD [OF assms None] by blast
  then have "List.find (\<lambda>p. key_equal k (fst p)) (obj_keys obj) = None" unfolding find_None_iff by blast
  then show ?thesis using None by simp
next
  case (Some e)
  note e = obj_lookup_SomeD [OF assms(1) Some]
  have "List.find (\<lambda>p. key_equal k (fst p)) (obj_keys obj) \<noteq> None" using e(1,2) unfolding find_None_iff by blast
  then obtain e' where e': "List.find (\<lambda>p. key_equal k (fst p)) (obj_keys obj) = Some e'" by auto
  then have m: "e' \<in> set (obj_keys obj)" "key_equal k (fst e')" by (auto simp: find_Some_iff)
  have "hashable (fst e)" "hashable (fst e')"
    using obj_okD(4) [OF assms(1), of "fst e" "snd e"] obj_okD(4) [OF assms(1), of "fst e'" "snd e'"] e(1) m(1) by simp_all
  then have "canon (fst e) = canon (fst e')" using e(2) m(2) assms(2) by (simp add: hashable_key_equal)
  moreover have "inj_on (canon \<circ> fst) (set (obj_keys obj))"
    using obj_keys_distinct(2) [OF assms(1)] by (simp add: distinct_map)
  ultimately have "e = e'" using e(1) m(1) by (simp add: inj_on_def)
  then show ?thesis using Some e' by simp
qed

definition object_put :: "val \<Rightarrow> val \<Rightarrow> (val \<times> val) list \<Rightarrow> (val \<times> val) list" where
  "object_put k v kvs =
     (case List.find (\<lambda>p. key_equal k (fst p)) kvs of
        Some (key, _) \<Rightarrow> set_value key v kvs
      | None \<Rightarrow> kvs @ [(k, v)])"

lemma obj_insert_keys:
  assumes "obj_ok X obj" and "hashable k"
  shows "obj_keys (obj_insert X k v obj) = object_put k v (obj_keys obj)"
proof (cases "obj_lookup X obj k")
  case None
  then show ?thesis using obj_insert_new [OF None] obj_lookup_slice [OF assms] by (simp add: object_put_def)
next
  case (Some e)
  obtain key old where e: "e = (key, old)" by (cases e)
  have "obj_keys (obj_insert X k v obj) = set_value key v (obj_keys obj)"
    using obj_insert_old [OF Some [unfolded e], of v] by force
  then show ?thesis using Some obj_lookup_slice [OF assms] e by (simp add: object_put_def)
qed

lemma obj_ok_insert_old:
  assumes "obj_ok X obj" and "hashable k" and "obj_lookup X obj k = Some (key, old)"
  shows "obj_ok X (obj_insert X k v obj)"
proof -
  note I = obj_okD [OF assms(1)]
  obtain xs ys where c: "obj_elems obj (hash X k) = xs @ (key, old) # ys" and
    ins: "obj_insert X k v obj = obj\<lparr>obj_elems := (obj_elems obj)(hash X k := xs @ (key, v) # ys),
       obj_keys := set_value key v (obj_keys obj), obj_ground := obj_ground obj - ground_bit old + ground_bit v\<rparr>"
    by (rule obj_insert_old [OF assms(3)])
  have mem: "(key, old) \<in> set (obj_keys obj)" using obj_lookup_SomeD(1) [OF assms(1,3)] .
  have H: "hashable (fst e) \<and> hash X (fst e) = code" if "e \<in> set (obj_elems obj code)" for e code
    using oh.hm_invD(4) [OF I(1), of e code] that by (simp add: obj_hm_def)
  have "sorted_wrt (\<lambda>p q. \<not> key_equal (fst q) (fst p)) (obj_elems obj (hash X k))"
    using oh.hm_invD(5) [OF I(1), of "hash X k"] by (simp add: obj_hm_def)
  then have "distinct (map canon (map fst (obj_elems obj (hash X k))))" using H by (intro canon_distinct) blast+
  then have "distinct (map fst (obj_elems obj (hash X k)))" by (rule distinct_mapD)
  then have chain: "fst e \<noteq> key" if "e \<in> set xs \<union> set ys" for e using that by (auto simp: c)
  have other: "fst e \<noteq> key" if "e \<in> set (obj_elems obj code)" "code \<noteq> hash X k" for e code
    using H [OF that(1)] H [of "(key, old)" "hash X k"] that(2) by (auto simp: c)
  have "(\<Union>code. set (((obj_elems obj)(hash X k := xs @ (key, v) # ys)) code)) =
      insert (key, v) {e \<in> (\<Union>code. set (obj_elems obj code)). fst e \<noteq> key}" (is "?L = ?R")
  proof (rule set_eqI)
    fix e
    show "e \<in> ?L \<longleftrightarrow> e \<in> ?R"
    proof (cases "fst e = key")
      case True
      then show ?thesis using chain [of e] other [of e] by (auto split: if_splits)
    next
      case False
      then have "e \<in> set (((obj_elems obj)(hash X k := xs @ (key, v) # ys)) code) \<longleftrightarrow> e \<in> set (obj_elems obj code)" for code
        by (auto simp: c)
      then show ?thesis using False by auto
    qed
  qed
  then have set: "set (obj_keys (obj_insert X k v obj)) = (\<Union>code. set (obj_elems (obj_insert X k v obj) code))"
    using set_value_set [OF mem, of v] I(3) ins by simp
  have d: "distinct (map fst (obj_keys obj))" by (rule obj_keys_distinct(3) [OF assms(1)])
  have "distinct (map fst (set_value key v (obj_keys obj)))" using d by simp
  then have "distinct (set_value key v (obj_keys obj))" by (rule distinct_mapD)
  moreover have "oh.hm_inv X (obj_hm X (obj_insert X k v obj))"
    unfolding obj_insert_hm by (rule oh.hm_put_law(1) [OF I(1) assms(2)])
  ultimately show ?thesis
    using assms(1) set count_ground_set_value [OF d mem, of v] ins
    by (simp add: obj_ok_def sorted_fst [where R = "\<lambda>a b. compare a b < 0"])
qed

lemma obj_ok_insert:
  assumes "obj_ok X obj" and "hashable k"
  shows "obj_ok X (obj_insert X k v obj)"
proof (cases "obj_lookup X obj k")
  case None
  note I = obj_okD [OF assms(1)] and ins = obj_insert_new [OF None, of v]
  have hm: "oh.hm_inv X (obj_hm X (obj_insert X k v obj))"
    unfolding obj_insert_hm by (rule oh.hm_put_law(1) [OF I(1) assms(2)])
  have "(k, v) \<notin> set (obj_keys obj)"
    using obj_lookup_NoneD [OF assms None, of "(k, v)"] assms(2) by (auto simp: hashable_key_equal)
  moreover have "(\<Union>code. set (((obj_elems obj)(hash X k := (k, v) # obj_elems obj (hash X k))) code)) =
      insert (k, v) (\<Union>code. set (obj_elems obj code))" by (auto split: if_splits)
  ultimately show ?thesis using hm I ins by (simp add: obj_ok_def count_ground_def)
next
  case (Some e)
  then show ?thesis using obj_ok_insert_old [OF assms] by (cases e) simp
qed

section \<open>The map contract and iteration\<close>

lemma obj_ok_new: "obj_ok X newobject"
proof -
  have "obj_hm X newobject = newHashMap (\<lambda>e k. key_equal k e) (hash X)"
    by (simp add: obj_hm_def newobject_def newHashMap_def obj_len_def)
  then show ?thesis using oh.hm_inv_new [of X] by (simp add: obj_ok_def newobject_def count_ground_def)
qed

interpretation oc: map_contract newobject "obj_insert X" "obj_get X" obj_enum obj_len "obj_ok X" hashable "\<lambda>a b. key_equal b a" for X
proof
  show "obj_get X newobject k = None" for k by (simp add: obj_get_def obj_lookup_def newobject_def chain_get_def)
  show "obj_get X (obj_insert X k v m) k' = (if key_equal k' k then Some v else obj_get X m k')"
    if "obj_ok X m" "hashable k" "hashable k'" for m k v k'
    unfolding obj_get_hm obj_insert_hm using oh.hm_put_law(2) [OF obj_okD(1) [OF that(1)] that(2,3)] .
  fix m kvs assume m: "obj_ok X m" and e: "obj_enum m kvs"
  obtain es where es: "oh.hm_enum (obj_hm X m) es" "mset es = mset kvs" using obj_enum_hm [OF m e] by blast
  note I = obj_okD [OF m]
  have h: "hashable (fst p)" if "p \<in> set kvs" for p
    using I(4) [of "fst p" "snd p"] that mset_eq_setD [OF e [unfolded obj_enum_def]] by simp
  then show "hashable k" if "(k, v) \<in> set kvs" for k v using that by force
  show "sorted_wrt (\<lambda>p q. \<not> key_equal (fst q) (fst p)) kvs"
    using h mset_eq_setD [OF e [unfolded obj_enum_def]]
    by (intro sorted_wrt_perm [OF e [unfolded obj_enum_def] obj_keys_distinct(1) [OF m]]) (auto simp: hashable_key_equal)
  show "(obj_get X m k = Some v) = (\<exists>k'. (k', v) \<in> set kvs \<and> key_equal k k')" if "hashable k" for k v
    unfolding obj_get_hm using oh.hm.enum_get [OF I(1) es(1) that] mset_eq_setD [OF es(2)] by simp
  show "obj_len m = int (length kvs)"
    using e by (metis obj_enum_def obj_len_def size_mset)
qed (auto simp: obj_ok_new obj_ok_insert obj_enum_def hashable_key_equal)

lemma sort_pairs_canon:
  fixes es :: "(val \<times> 'b) list"
  shows "sort_by (\<lambda>p q. compare (fst p) (fst q)) es = sort_key (\<lambda>p. canon (fst p)) es"
proof -
  have c: "(\<lambda>p q. compare (fst p) (fst q)) = (\<lambda>p q :: val \<times> 'b. cmpi (canon (fst p)) (canon (fst q)))"
    by (intro ext) (rule compare_canon)
  show ?thesis unfolding c by (rule sort_by_cmpi)
qed

lemma obj_sort_keys:
  assumes "obj_ok X obj"
  shows "mset (obj_keys (obj_sort obj)) = mset (obj_keys obj)"
    and "sorted_wrt (\<lambda>p q. compare (fst p) (fst q) < 0) (obj_keys (obj_sort obj))"
    and "obj_keys (obj_sort obj) = sort_by (\<lambda>p q. compare (fst p) (fst q)) (obj_keys obj)"
proof -
  let ?s = "sort_by (\<lambda>p q. compare (fst p) (fst q)) (obj_keys obj)"
  have d: "distinct (map (canon \<circ> fst) (obj_keys obj))" using obj_keys_distinct(2) [OF assms] by simp
  have "mset (map (\<lambda>p. canon (fst p)) ?s) = mset (map (canon \<circ> fst) (obj_keys obj))"
    by (simp add: sort_pairs_canon comp_def)
  then have "distinct (map (\<lambda>p. canon (fst p)) ?s)" using d mset_eq_imp_distinct_iff by blast
  moreover have "sorted (map (\<lambda>p. canon (fst p)) ?s)" unfolding sort_pairs_canon by (rule sorted_sort_key)
  ultimately have "sorted_wrt (<) (map (\<lambda>p. canon (fst p)) ?s)" by (simp only: strict_sorted_iff)
  then have s: "sorted_wrt (\<lambda>p q. compare (fst p) (fst q) < 0) ?s" by (simp add: sorted_wrt_map compare_canon)
  have id: "?s = obj_keys obj" if "sorted_wrt (\<lambda>p q. compare (fst p) (fst q) < 0) (obj_keys obj)"
    unfolding sort_pairs_canon
    by (rule sort_key_id_if_sorted) (use that in \<open>auto simp: compare_canon sorted_wrt_map elim: sorted_wrt_mono_rel [rotated]\<close>)
  then show eq: "obj_keys (obj_sort obj) = ?s" using assms by (auto simp: obj_sort_def obj_ok_def)
  show "sorted_wrt (\<lambda>p q. compare (fst p) (fst q) < 0) (obj_keys (obj_sort obj))" using s eq by simp
  show "mset (obj_keys (obj_sort obj)) = mset (obj_keys obj)" unfolding eq by (rule mset_sort_by)
qed

lemma obj_ok_sort:
  assumes "obj_ok X obj"
  shows "obj_ok X (obj_sort obj)"
proof -
  note m = obj_sort_keys [OF assms]
  have l: "length (obj_keys (obj_sort obj)) = length (obj_keys obj)" using m(1) by (metis size_mset)
  have f: "obj_elems (obj_sort obj) = obj_elems obj" "obj_ground (obj_sort obj) = obj_ground obj" by (simp_all add: obj_sort_def)
  have "obj_hm X (obj_sort obj) = obj_hm X obj" by (simp add: obj_hm_def obj_len_def f l)
  then show ?thesis using assms m(2) count_ground_perm [OF m(1)] mset_eq_setD [OF m(1)] mset_eq_imp_distinct_iff [OF m(1)]
    by (simp add: obj_ok_def f)
qed

lemma hashable_String: "hashable (String s)"
  by (simp add: hashable_def key_canonical_def)

lemma count_ground_bound:
  "0 \<le> count_ground es \<and> count_ground es \<le> 2 * int (length es) \<and>
   (count_ground es = 2 * int (length es) \<longleftrightarrow> isGround (Object es))"
  by (induction es) (auto simp: count_ground_def ground_bit_def)

text \<open>The results of n calls of the keys iterator.\<close>

fun ki_run :: "nat \<Rightarrow> keys_iterator \<Rightarrow> val option list" where
  "ki_run 0 it = []"
| "ki_run (Suc n) it = (case ki_next it of (r, it') \<Rightarrow> r # ki_run n it')"

lemma ki_run_from:
  assumes "obj_sorted (obj_sort (ki_obj it))" and "ki_num it = int (length ks)" and "ki_index it = int i"
    and "obj_keys (obj_sort (ki_obj it)) = es" and "ks = map fst es" and "i + n = length ks"
  shows "ki_run (n + m) it = map Some (drop i ks) @ replicate m None"
  using assms
proof (induction n arbitrary: i it)
  case 0
  then have "ki_next it = (None, it)" by (simp add: ki_next_def)
  then have "ki_run m it = replicate m None" by (induction m) simp_all
  then show ?case using 0 by simp
next
  case (Suc n)
  then have i: "i < length ks" by simp
  let ?it = "it\<lparr>ki_obj := obj_sort (ki_obj it), ki_index := ki_index it + 1\<rparr>"
  have "ki_next it = (Some (ks ! i), ?it)"
    using Suc.prems i by (auto simp: ki_next_def obj_sortedKeys_def)
  moreover have "ki_run (n + m) ?it = map Some (drop (Suc i) ks) @ replicate m None"
    by (rule Suc.IH) (use Suc.prems in \<open>auto simp: obj_sort_def\<close>)
  ultimately show ?case using i by (simp add: Cons_nth_drop_Suc [symmetric])
qed

text \<open>
  C4.  An object is a map up to \<open>Compare\<close>, for keys that the index can hold: insertion sets the value of
  the key and of no other key and adds an element exactly when the key is new; lookup through
  the index finds what a scan of the elements finds; the counter decides whether the object is
  ground; and the invariant that ties index, slice and counter together is kept.\<close>

theorem object_insert_lookup:
  assumes "obj_ok X obj" and "hashable k" and "hashable k'"
  shows "obj_ok X (obj_insert X k v obj) \<and>
    obj_get X (obj_insert X k v obj) k' = (if compare k k' = 0 then Some v else obj_get X obj k') \<and>
    obj_get X obj k' = object_get (obj_keys obj) k' \<and>
    obj_len (obj_insert X k v obj) = obj_len obj + (if obj_get X obj k = None then 1 else 0) \<and>
    obj_isGround obj = isGround (Object (obj_keys obj))"
proof (intro conjI)
  show "obj_ok X (obj_insert X k v obj)" by (rule obj_ok_insert [OF assms(1,2)])
  show "obj_get X (obj_insert X k v obj) k' = (if compare k k' = 0 then Some v else obj_get X obj k')"
    using oc.get_put [OF assms, of v] assms(2,3) by (auto simp: hashable_key_equal compare_eq_canon)
  show "obj_get X obj k' = object_get (obj_keys obj) k'"
    by (simp add: obj_get_def object_get_def obj_lookup_slice [OF assms(1,3)])
  show "obj_len (obj_insert X k v obj) = obj_len obj + (if obj_get X obj k = None then 1 else 0)"
    using obj_insert_keys [OF assms(1,2), of v] obj_lookup_slice [OF assms(1,2)]
    by (auto simp: obj_len_def object_put_def obj_get_def set_value_def split: option.splits)
  show "obj_isGround obj = isGround (Object (obj_keys obj))"
    using count_ground_bound [of "obj_keys obj"] obj_okD(5) [OF assms(1)] by (simp add: obj_isGround_def)
qed

theorem object_insert_lookup_witness:
  "obj_get xx0 (obj_insert xx0 (String ''a'') Null newobject) (String ''a'') = Some Null"
  using object_insert_lookup [of xx0 newobject "String ''a''" "String ''a''" Null]
  by (simp add: obj_ok_new hashable_String compare_eq_canon)

text \<open>
  C17.  Reading an object: the sorted elements are a permutation of the elements in strictly ascending
  order of keys; the keys iterator returns the sorted keys one by one and then nothing; and the
  comparison of objects is \<open>Compare\<close> on the values.\<close>

theorem object_iteration:
  assumes "obj_ok X obj" and "obj_ok X other"
  shows "(case obj_sortedKeys obj of (obj', es) \<Rightarrow>
        obj_ok X obj' \<and> mset es = mset (obj_keys obj) \<and> sorted_wrt (\<lambda>p q. compare (fst p) (fst q) < 0) es \<and>
        ki_run (length es + m) (newobjectKeysIterator obj) = map (Some \<circ> fst) es @ replicate m None) \<and>
     snd (snd (obj_compare obj other)) = compare (Object (obj_keys obj)) (Object (obj_keys other))"
proof
  have len: "length (obj_keys (obj_sort obj)) = length (obj_keys obj)"
    using obj_sort_keys(1) [OF assms(1)] by (metis size_mset)
  have "ki_run (length (obj_keys (obj_sort obj)) + m) (newobjectKeysIterator obj) =
      map Some (drop 0 (map fst (obj_keys (obj_sort obj)))) @ replicate m None"
    by (rule ki_run_from [where es = "obj_keys (obj_sort obj)"])
      (auto simp: newobjectKeysIterator_def obj_len_def len obj_sort_def)
  then show "case obj_sortedKeys obj of (obj', es) \<Rightarrow>
        obj_ok X obj' \<and> mset es = mset (obj_keys obj) \<and> sorted_wrt (\<lambda>p q. compare (fst p) (fst q) < 0) es \<and>
        ki_run (length es + m) (newobjectKeysIterator obj) = map (Some \<circ> fst) es @ replicate m None"
    using obj_sort_keys(1,2) [OF assms(1)] obj_ok_sort [OF assms(1)] by (simp add: obj_sortedKeys_def)
  show "snd (snd (obj_compare obj other)) = compare (Object (obj_keys obj)) (Object (obj_keys other))"
    by (simp add: obj_compare_def obj_sortedKeys_def obj_sort_keys(3) [OF assms(1)] obj_sort_keys(3) [OF assms(2)] compare.simps)
qed

theorem object_iteration_witness:
  "ki_run 3 (newobjectKeysIterator (newObject xx0 [(String ''b'', Null), (String ''a'', Null)])) =
     [Some (String ''a''), Some (String ''b''), None]"
proof -
  let ?o = "newObject xx0 [(String ''b'', Null), (String ''a'', Null)]"
  have ok: "obj_ok xx0 ?o" by (simp add: newObject_def obj_ok_insert obj_ok_new hashable_String)
  have s: "snd (obj_sortedKeys ?o) = [(String ''a'', Null), (String ''b'', Null)]" by code_simp
  then show ?thesis using object_iteration [OF ok ok, of 1] by (cases "obj_sortedKeys ?o") (simp add: numeral_eq_Suc)
qed

text \<open>
  Overwriting a value does not update the cached hash: the object \<open>{a: b}\<close> after setting a to bc and
  a new object \<open>{a: bc}\<close> have the same elements and different hashes.\<close>

theorem object_hash_stale:
  "obj_keys (obj_insert xx0 (String ''a'') (String ''bc'') (newObject xx0 [(String ''a'', String ''b'')])) =
     obj_keys (newObject xx0 [(String ''a'', String ''bc'')]) \<and>
   obj_hash (obj_insert xx0 (String ''a'') (String ''bc'') (newObject xx0 [(String ''a'', String ''b'')])) \<noteq>
     obj_hash (newObject xx0 [(String ''a'', String ''bc'')])"
  by code_simp

end
