(* ===== verification/Ast_Object_Ops.thy ===== *)
theory Ast_Object_Ops
  imports Ast_Object
begin

text \<open>
  The operations that build objects from objects (ast/term.go): \<open>Map\<close>, \<open>Copy\<close>, \<open>Diff\<close>, \<open>Intersect\<close>,
  \<open>Merge\<close> and \<open>MergeWith\<close>, on the slices of elements that the table of \<open>Ast_Object\<close> implements.

  The reference of an object is the partial map \<open>oabs\<close> from keys up to \<open>Compare\<close> to values.
\<close>

type_synonym kvs = "(val \<times> val) list"

section \<open>Operations\<close>

text \<open>The order of \<open>Iter\<close>, \<open>Until\<close> and \<open>Foreach\<close>.\<close>

definition object_sorted :: "kvs \<Rightarrow> kvs" where
  "object_sorted kvs = sort_by (\<lambda>p q. compare (fst p) (fst q)) kvs"

fun object_map_loop :: "(val \<Rightarrow> val \<Rightarrow> 'e + val \<times> val) \<Rightarrow> kvs \<Rightarrow> kvs \<Rightarrow> 'e + kvs" where
  "object_map_loop f [] cpy = Inr cpy"
| "object_map_loop f ((k, v) # kvs) cpy =
     (case f k v of
        Inl e \<Rightarrow> Inl e
      | Inr (k', v') \<Rightarrow> object_map_loop f kvs (object_put k' v' cpy))"

definition object_map :: "(val \<Rightarrow> val \<Rightarrow> 'e + val \<times> val) \<Rightarrow> kvs \<Rightarrow> 'e + kvs" where
  "object_map f obj = object_map_loop f (object_sorted obj) []"

text \<open>Copying a term gives an equal term.\<close>

definition object_copy :: "kvs \<Rightarrow> kvs" where
  "object_copy obj = (case object_map (\<lambda>k v. Inr (k, v) :: unit + val \<times> val) obj of Inl _ \<Rightarrow> [] | Inr r \<Rightarrow> r)"

text \<open>The loop that both \<open>Diff\<close> and the second half of \<open>MergeWith\<close> run: keep what the other lacks.\<close>

definition insert_missing :: "kvs \<Rightarrow> kvs \<Rightarrow> kvs \<Rightarrow> kvs" where
  "insert_missing other kvs r =
     fold (\<lambda>(k, v) r. if object_get other k = None then object_put k v r else r) (object_sorted kvs) r"

definition object_diff :: "kvs \<Rightarrow> kvs \<Rightarrow> kvs" where
  "object_diff obj other = insert_missing other obj []"

definition object_intersect :: "kvs \<Rightarrow> kvs \<Rightarrow> (val \<times> val \<times> val) list" where
  "object_intersect obj other =
     concat (map (\<lambda>(k, v). case object_get other k of None \<Rightarrow> [] | Some v2 \<Rightarrow> [(k, v, v2)]) (object_sorted obj))"

text \<open>The conflict resolver returns the merged value, or \<open>None\<close> to stop.\<close>

fun mergeWith_loop :: "(val \<Rightarrow> val \<Rightarrow> val option) \<Rightarrow> kvs \<Rightarrow> kvs \<Rightarrow> kvs \<Rightarrow> kvs option" where
  "mergeWith_loop f other [] r = Some r"
| "mergeWith_loop f other ((k, v) # kvs) r =
     (case object_get other k of
        None \<Rightarrow> mergeWith_loop f other kvs (object_put k v r)
      | Some v2 \<Rightarrow>
          (case f v v2 of
             None \<Rightarrow> None
           | Some m \<Rightarrow> mergeWith_loop f other kvs (object_put k m r)))"

definition object_mergeWith :: "(val \<Rightarrow> val \<Rightarrow> val option) \<Rightarrow> kvs \<Rightarrow> kvs \<Rightarrow> kvs option" where
  "object_mergeWith f obj other =
     (case mergeWith_loop f other (object_sorted obj) [] of
        None \<Rightarrow> None
      | Some r \<Rightarrow> Some (insert_missing obj other r))"

lemma set_object_sorted [simp]: "set (object_sorted kvs) = set kvs"
  by (simp add: object_sorted_def)

lemma mergeWith_loop_cong:
  "(\<And>k v w. (k, v) \<in> set kvs \<Longrightarrow> f v w = g v w) \<Longrightarrow> mergeWith_loop f other kvs r = mergeWith_loop g other kvs r"
  by (induction kvs arbitrary: r) (fastforce split: option.splits)+

lemma object_mergeWith_cong [fundef_cong]:
  assumes "obj = obj'" and "other = other'" and "\<And>k v w. (k, v) \<in> set obj' \<Longrightarrow> f v w = g v w"
  shows "object_mergeWith f obj other = object_mergeWith g obj' other'"
  using mergeWith_loop_cong [of "object_sorted obj'" f g other' "[]"] assms by (simp add: object_mergeWith_def)

function object_merge :: "kvs \<Rightarrow> kvs \<Rightarrow> kvs option" where
  "object_merge obj other =
     object_mergeWith (\<lambda>v1 v2.
       case v1 of
         Object obj1 \<Rightarrow>
           (case v2 of
              Object obj2 \<Rightarrow>
                (case object_merge obj1 obj2 of
                   None \<Rightarrow> None
                 | Some obj3 \<Rightarrow> Some (Object obj3))
            | _ \<Rightarrow> None)
       | _ \<Rightarrow> None) obj other"
  by pat_completeness auto

termination
  by (relation "measure (\<lambda>(a, b). size (Object a))") (auto dest: size_pair_le)

declare object_merge.simps [simp del]

section \<open>Objects as maps\<close>

definition oabs :: "kvs \<Rightarrow> ctree \<Rightarrow> val option" where
  "oabs kvs = map_of (map (\<lambda>(k, v). (canon k, v)) kvs)"

definition okeys :: "kvs \<Rightarrow> bool" where
  "okeys kvs \<longleftrightarrow> list_all (\<lambda>p. hashable (fst p)) kvs \<and> distinct (map (\<lambda>p. canon (fst p)) kvs)"

lemma okeys_Cons: "okeys ((k, v) # kvs) \<longleftrightarrow> hashable k \<and> canon k \<notin> (\<lambda>p. canon (fst p)) ` set kvs \<and> okeys kvs"
  by (auto simp: okeys_def)

lemma okeys_nil [simp]: "okeys []" "oabs [] = Map.empty"
  by (simp_all add: okeys_def oabs_def)

lemma oabs_Cons: "oabs ((k, v) # kvs) = (oabs kvs)(canon k \<mapsto> v)"
  by (simp add: oabs_def)

lemma oabs_dom: "dom (oabs kvs) = (\<lambda>p. canon (fst p)) ` set kvs"
  by (force simp: oabs_def dom_map_of_conv_image_fst)

lemma object_get_oabs: "okeys kvs \<Longrightarrow> hashable k \<Longrightarrow> object_get kvs k = oabs kvs (canon k)"
  by (induction kvs) (auto simp: object_get_def okeys_Cons oabs_Cons hashable_key_equal)

lemma object_put_Cons:
  assumes "okeys ((j, w) # kvs)" and "hashable k"
  shows "object_put k v ((j, w) # kvs) = (if canon k = canon j then (j, v) # kvs else (j, w) # object_put k v kvs)"
proof -
  have j: "hashable j" "canon j \<notin> (\<lambda>p. canon (fst p)) ` set kvs" using assms(1) by (simp_all add: okeys_Cons)
  then have "set_value j v kvs = kvs" by (force simp: set_value_def intro: map_idI)
  moreover have "key \<noteq> j" if "List.find (\<lambda>p. key_equal k (fst p)) kvs = Some (key, x)" for key x
  proof -
    have "(key, x) \<in> set kvs" using that by (auto simp: find_Some_iff)
    then show ?thesis using j(2) by force
  qed
  ultimately show ?thesis using j(1) assms(2)
    by (auto simp: object_put_def hashable_key_equal set_value_def split: option.splits)
qed

lemma object_put_oabs:
  "okeys kvs \<Longrightarrow> hashable k \<Longrightarrow>
     okeys (object_put k v kvs) \<and> oabs (object_put k v kvs) = (oabs kvs)(canon k \<mapsto> v) \<and>
     (\<lambda>p. canon (fst p)) ` set (object_put k v kvs) = insert (canon k) ((\<lambda>p. canon (fst p)) ` set kvs)"
proof (induction kvs)
  case Nil
  then show ?case by (simp add: object_put_def okeys_Cons oabs_Cons)
next
  case (Cons p kvs)
  obtain j w where p: "p = (j, w)" by (cases p)
  then have IH: "okeys (object_put k v kvs)" "oabs (object_put k v kvs) = (oabs kvs)(canon k \<mapsto> v)"
    "(\<lambda>p. canon (fst p)) ` set (object_put k v kvs) = insert (canon k) ((\<lambda>p. canon (fst p)) ` set kvs)"
    using Cons by (auto simp only: okeys_Cons)
  show ?case
  proof (cases "canon k = canon j")
    case True
    then show ?thesis using Cons.prems p
      by (auto simp: object_put_Cons okeys_Cons oabs_Cons fun_eq_iff)
  next
    case False
    then show ?thesis using Cons.prems p IH
      by (auto simp: object_put_Cons okeys_Cons oabs_Cons fun_upd_twist)
  qed
qed

lemma oabs_mset: "okeys xs \<Longrightarrow> mset xs = mset ys \<Longrightarrow> okeys ys \<and> oabs ys = oabs xs"
proof
  assume xs: "okeys xs" and eq: "mset xs = mset ys"
  have "mset (map (\<lambda>p. canon (fst p)) xs) = mset (map (\<lambda>p. canon (fst p)) ys)" using eq by simp
  then have dist: "distinct (map (\<lambda>p. canon (fst p)) ys)" using xs by (metis okeys_def mset_eq_imp_distinct_iff)
  then show "okeys ys" using xs eq by (metis okeys_def list_all_iff mset_eq_setD)
  let ?g = "\<lambda>(k, v). (canon k, v)"
  have fst: "map fst (map ?g zs) = map (\<lambda>p. canon (fst p)) zs" for zs :: kvs by (simp add: case_prod_beta o_def)
  have "distinct (map fst (map ?g xs))" "distinct (map fst (map ?g ys))"
    using xs dist unfolding fst okeys_def by blast+
  moreover have "set (map ?g xs) = set (map ?g ys)" using mset_eq_setD [OF eq] by simp
  ultimately show "oabs ys = oabs xs" using map_of_inject_set unfolding oabs_def by blast
qed

lemma object_sorted_oabs:
  assumes "okeys kvs"
  shows "okeys (object_sorted kvs)" "oabs (object_sorted kvs) = oabs kvs"
  using oabs_mset [OF assms, of "object_sorted kvs"] by (simp_all add: object_sorted_def)

section \<open>What the operations compute\<close>

text \<open>Building an object by inserting pairs with distinct keys.\<close>

lemma put_fold:
  assumes "okeys r" and "okeys kvs" and "\<And>k v. (k, v) \<in> set kvs \<Longrightarrow> P k v \<Longrightarrow> oabs r (canon k) = None"
  shows "okeys (fold (\<lambda>(k, v) r. if P k v then object_put k v r else r) kvs r) \<and>
    oabs (fold (\<lambda>(k, v) r. if P k v then object_put k v r else r) kvs r) =
      (\<lambda>x. case oabs r x of
         Some v \<Rightarrow> Some v
       | None \<Rightarrow> oabs (filter (\<lambda>(k, v). P k v) kvs) x)"
  using assms
proof (induction kvs arbitrary: r)
  case Nil
  then show ?case by (auto simp: fun_eq_iff split: option.splits)
next
  case (Cons p kvs)
  obtain k v where p: "p = (k, v)" by (cases p)
  have kv: "hashable k" "canon k \<notin> (\<lambda>p. canon (fst p)) ` set kvs" "okeys kvs"
    using Cons.prems(2) p by (simp_all add: okeys_Cons)
  show ?case
  proof (cases "P k v")
    case True
    have r: "okeys (object_put k v r)" "oabs (object_put k v r) = (oabs r)(canon k \<mapsto> v)"
      using object_put_oabs [OF Cons.prems(1) kv(1)] by auto
    have miss: "oabs (object_put k v r) (canon j) = None" if "(j, w) \<in> set kvs" "P j w" for j w
      using that r(2) kv(2) Cons.prems(3) [of j w] by (force simp: p)
    have "canon k \<notin> dom (oabs (filter (\<lambda>(k, v). P k v) kvs))" using kv(2) by (auto simp: oabs_dom)
    moreover have "oabs r (canon k) = None" using Cons.prems(3) [of k v] True p by simp
    ultimately show ?thesis using Cons.IH [OF r(1) kv(3) miss] True p r(2)
      by (auto simp: oabs_Cons fun_eq_iff dom_def split: option.splits)
  next
    case False
    have miss: "oabs r (canon j) = None" if "(j, w) \<in> set kvs" "P j w" for j w
      using that Cons.prems(3) [of j w] by simp
    have "okeys (fold (\<lambda>(k, v) r. if P k v then object_put k v r else r) kvs r) \<and>
        oabs (fold (\<lambda>(k, v) r. if P k v then object_put k v r else r) kvs r) =
          (\<lambda>x. case oabs r x of Some v \<Rightarrow> Some v | None \<Rightarrow> oabs (filter (\<lambda>(k, v). P k v) kvs) x)"
      by (rule Cons.IH [OF Cons.prems(1) kv(3)]) (use miss in blast)
    then show ?thesis using False by (auto simp: p fun_eq_iff split: option.splits)
  qed
qed

lemma oabs_filter:
  assumes "okeys kvs"
  shows "oabs (filter (\<lambda>(k, v). Q (canon k)) kvs) x = (if Q x then oabs kvs x else None)"
  using assms by (induction kvs) (auto simp: okeys_Cons oabs_Cons)

lemma insert_missing_oabs:
  assumes "okeys r" and "okeys kvs" and "okeys other"
    and "\<And>x. x \<in> dom (oabs kvs) \<Longrightarrow> oabs other x = None \<Longrightarrow> oabs r x = None"
  shows "okeys (insert_missing other kvs r) \<and>
    oabs (insert_missing other kvs r) =
      (\<lambda>x. case oabs r x of Some v \<Rightarrow> Some v | None \<Rightarrow> if oabs other x = None then oabs kvs x else None)"
proof -
  let ?P = "\<lambda>k (v :: val). object_get other k = None"
  note sorted = object_sorted_oabs [OF assms(2)]
  have hash: "(k, v) \<in> set kvs \<Longrightarrow> hashable k" for k v using assms(2) by (auto simp: okeys_def list_all_iff)
  then have "filter (\<lambda>(k, v). ?P k v) (object_sorted kvs) = filter (\<lambda>(k, v). oabs other (canon k) = None) (object_sorted kvs)"
    using assms(3) by (auto intro!: filter_cong simp: object_get_oabs)
  then have filtered: "oabs (filter (\<lambda>(k, v). ?P k v) (object_sorted kvs)) x = (if oabs other x = None then oabs kvs x else None)" for x
    using oabs_filter [OF sorted(1), of "\<lambda>y. oabs other y = None" x] sorted(2) by simp
  have miss: "oabs r (canon k) = None" if "(k, v) \<in> set (object_sorted kvs)" "?P k v" for k v
    using that hash assms(3) assms(4) [of "canon k"] by (force simp: object_get_oabs oabs_dom)
  have "okeys (insert_missing other kvs r) \<and> oabs (insert_missing other kvs r) =
      (\<lambda>x. case oabs r x of Some v \<Rightarrow> Some v | None \<Rightarrow> oabs (filter (\<lambda>(k, v). ?P k v) (object_sorted kvs)) x)"
    unfolding insert_missing_def by (rule put_fold [OF assms(1) sorted(1)]) (use miss in blast)
  then show ?thesis unfolding filtered .
qed

lemma mergeWith_loop_oabs:
  assumes "okeys r" and "okeys kvs" and "okeys other" and "\<And>x. x \<in> dom (oabs kvs) \<Longrightarrow> oabs r x = None"
  shows "case mergeWith_loop f other kvs r of
     None \<Rightarrow> \<exists>x v w. oabs kvs x = Some v \<and> oabs other x = Some w \<and> f v w = None
   | Some r' \<Rightarrow> okeys r' \<and> (\<forall>x v w. oabs kvs x = Some v \<longrightarrow> oabs other x = Some w \<longrightarrow> f v w \<noteq> None) \<and>
       oabs r' = (\<lambda>x. case oabs kvs x of
          None \<Rightarrow> oabs r x
        | Some v \<Rightarrow> (case oabs other x of None \<Rightarrow> Some v | Some w \<Rightarrow> f v w))"
  using assms(1,2,4)
proof (induction kvs arbitrary: r)
  case Nil
  then show ?case by simp
next
  case (Cons p kvs)
  obtain k v where p: "p = (k, v)" by (cases p)
  have kv: "hashable k" "canon k \<notin> dom (oabs kvs)" "okeys kvs"
    using Cons.prems(2) p by (simp_all add: okeys_Cons oabs_dom)
  have get: "object_get other k = oabs other (canon k)" using assms(3) kv(1) by (rule object_get_oabs)
  have r: "okeys (object_put k m r)" "oabs (object_put k m r) = (oabs r)(canon k \<mapsto> m)" for m
    using object_put_oabs [OF Cons.prems(1) kv(1)] by auto
  have miss: "oabs (object_put k m r) x = None" if "x \<in> dom (oabs kvs)" for m x
  proof -
    have "x \<in> dom (oabs (p # kvs))" using that p by (auto simp: oabs_Cons)
    then have "oabs r x = None" by (rule Cons.prems(3))
    moreover have "x \<noteq> canon k" using that kv(2) by blast
    ultimately show ?thesis using r(2) by simp
  qed
  show ?case
  proof (cases "oabs other (canon k)")
    case None
    then show ?thesis using Cons.IH [OF r(1) kv(3) miss, of v] get p kv(2) r(2)
      by (auto simp: oabs_Cons fun_eq_iff dom_def split: option.splits) (metis option.distinct(1))
  next
    case (Some w)
    show ?thesis
    proof (cases "f v w")
      case None
      then show ?thesis using Some get p by (auto simp: oabs_Cons)
    next
      case m: (Some m)
      then show ?thesis using Some Cons.IH [OF r(1) kv(3) miss, of m] get p kv(2) r(2)
        by (auto simp: oabs_Cons fun_eq_iff dom_def split: option.splits) (metis option.distinct(1))
    qed
  qed
qed

text \<open>The map that a merge with a conflict resolver denotes.\<close>

definition omerge :: "(val \<Rightarrow> val \<Rightarrow> val option) \<Rightarrow> (ctree \<Rightarrow> val option) \<Rightarrow> (ctree \<Rightarrow> val option) \<Rightarrow> ctree \<Rightarrow> val option" where
  "omerge f a b x =
     (case a x of
        None \<Rightarrow> b x
      | Some v \<Rightarrow> (case b x of None \<Rightarrow> Some v | Some w \<Rightarrow> f v w))"

lemma object_mergeWith_oabs:
  assumes "okeys obj" and "okeys other"
  shows "case object_mergeWith f obj other of
     None \<Rightarrow> \<exists>x v w. oabs obj x = Some v \<and> oabs other x = Some w \<and> f v w = None
   | Some r \<Rightarrow> okeys r \<and> (\<forall>x v w. oabs obj x = Some v \<longrightarrow> oabs other x = Some w \<longrightarrow> f v w \<noteq> None) \<and>
       oabs r = omerge f (oabs obj) (oabs other)"
proof -
  note sorted = object_sorted_oabs [OF assms(1)]
  have loop: "case mergeWith_loop f other (object_sorted obj) [] of
       None \<Rightarrow> \<exists>x v w. oabs obj x = Some v \<and> oabs other x = Some w \<and> f v w = None
     | Some r' \<Rightarrow> okeys r' \<and> (\<forall>x v w. oabs obj x = Some v \<longrightarrow> oabs other x = Some w \<longrightarrow> f v w \<noteq> None) \<and>
         oabs r' = (\<lambda>x. case oabs obj x of
            None \<Rightarrow> None | Some v \<Rightarrow> (case oabs other x of None \<Rightarrow> Some v | Some w \<Rightarrow> f v w))"
    using mergeWith_loop_oabs [OF okeys_nil(1) sorted(1) assms(2), of f]
    unfolding sorted(2) okeys_nil(2) by (simp add: option.case_eq_if)
  show ?thesis
  proof (cases "mergeWith_loop f other (object_sorted obj) []")
    case None
    then show ?thesis using loop by (simp add: object_mergeWith_def)
  next
    case (Some r)
    then have r: "okeys r" "\<forall>x v w. oabs obj x = Some v \<longrightarrow> oabs other x = Some w \<longrightarrow> f v w \<noteq> None"
      "oabs r = (\<lambda>x. case oabs obj x of
          None \<Rightarrow> None | Some v \<Rightarrow> (case oabs other x of None \<Rightarrow> Some v | Some w \<Rightarrow> f v w))"
      using loop by simp_all
    have "okeys (insert_missing obj other r) \<and> oabs (insert_missing obj other r) =
        (\<lambda>x. case oabs r x of Some v \<Rightarrow> Some v | None \<Rightarrow> if oabs obj x = None then oabs other x else None)"
      by (rule insert_missing_oabs [OF r(1) assms(2,1)]) (simp add: r(3))
    moreover have "(case oabs r x of Some v \<Rightarrow> Some v | None \<Rightarrow> if oabs obj x = None then oabs other x else None) =
        omerge f (oabs obj) (oabs other) x" for x
      using r(2) by (auto simp: r(3) omerge_def split: option.splits)
    ultimately show ?thesis using Some r(2) by (simp add: object_mergeWith_def)
  qed
qed

lemma object_diff_oabs:
  assumes "okeys obj" and "okeys other"
  shows "okeys (object_diff obj other) \<and> oabs (object_diff obj other) = (\<lambda>x. if oabs other x = None then oabs obj x else None)"
  using insert_missing_oabs [OF okeys_nil(1) assms(1,2)] by (simp add: object_diff_def)

lemma object_copy_oabs:
  assumes "okeys obj"
  shows "okeys (object_copy obj) \<and> oabs (object_copy obj) = oabs obj"
proof -
  have "object_map_loop (\<lambda>k v. Inr (k, v) :: unit + val \<times> val) kvs r = Inr (fold (\<lambda>(k, v) r. object_put k v r) kvs r)" for kvs r
    by (induction kvs arbitrary: r) auto
  then have "object_copy obj = insert_missing [] obj []"
    by (simp add: object_copy_def object_map_def insert_missing_def object_get_def)
  then show ?thesis using insert_missing_oabs [OF okeys_nil(1) assms okeys_nil(1)] by simp
qed

lemma object_intersect_keys:
  assumes "okeys obj" and "okeys other"
  shows "(k, v, w) \<in> set (object_intersect obj other) \<longleftrightarrow> (k, v) \<in> set obj \<and> oabs other (canon k) = Some w"
proof -
  have "hashable k" if "(k, v) \<in> set obj" for k v using that assms(1) by (auto simp: okeys_def list_all_iff)
  then show ?thesis using assms(2)
    by (force simp: object_intersect_def object_get_oabs split: option.splits)
qed

text \<open>The conflict resolver of \<open>Merge\<close>.\<close>

definition merge_values :: "val \<Rightarrow> val \<Rightarrow> val option" where
  "merge_values v w =
     (case (v, w) of
        (Object a, Object b) \<Rightarrow> map_option Object (object_merge a b)
      | _ \<Rightarrow> None)"

lemma object_merge_values: "object_merge a b = object_mergeWith merge_values a b"
  unfolding object_merge.simps [of a b]
  by (rule arg_cong [where f = "\<lambda>f. object_mergeWith f a b"])
    (auto simp: merge_values_def fun_eq_iff split: val.splits option.splits)

text \<open>
  C16.  The operations that build objects are operations on maps from keys, up to \<open>Compare\<close>, to values:
  \<open>Diff\<close> keeps the keys the other lacks, \<open>Copy\<close> keeps all, \<open>MergeWith\<close> keeps the keys of either and
  resolves the common ones, and \<open>Merge\<close> fails exactly when two common values cannot be merged.
\<close>

theorem object_algebra:
  assumes "okeys a" and "okeys b"
  shows "oabs (object_diff a b) = (\<lambda>x. if oabs b x = None then oabs a x else None) \<and>
    oabs (object_copy a) = oabs a \<and>
    ((\<forall>x v w. oabs a x = Some v \<longrightarrow> oabs b x = Some w \<longrightarrow> f v w \<noteq> None) \<longleftrightarrow>
      (\<exists>r. object_mergeWith f a b = Some r \<and> okeys r \<and> oabs r = omerge f (oabs a) (oabs b))) \<and>
    ((\<forall>x v w. oabs a x = Some v \<longrightarrow> oabs b x = Some w \<longrightarrow> merge_values v w \<noteq> None) \<longleftrightarrow>
      (\<exists>r. object_merge a b = Some r \<and> okeys r \<and> oabs r = omerge merge_values (oabs a) (oabs b)))"
proof -
  have merge: "(\<forall>x v w. oabs a x = Some v \<longrightarrow> oabs b x = Some w \<longrightarrow> g v w \<noteq> None) \<longleftrightarrow>
      (\<exists>r. object_mergeWith g a b = Some r \<and> okeys r \<and> oabs r = omerge g (oabs a) (oabs b))" for g
    using object_mergeWith_oabs [OF assms, of g] by (cases "object_mergeWith g a b") auto
  show ?thesis unfolding object_merge_values
    by (intro conjI merge object_diff_oabs [OF assms, THEN conjunct2] object_copy_oabs [OF assms(1), THEN conjunct2])
qed

theorem object_algebra_witness:
  "oabs (object_diff [(String ''a'', Null), (String ''b'', Null)] [(String ''a'', Null)]) (canon (String ''b'')) = Some Null"
proof -
  let ?a = "[(String ''a'', Null), (String ''b'', Null)]" and ?b = "[(String ''a'', Null)]"
  have "okeys ?a" "okeys ?b" by (simp_all add: okeys_def hashable_String)
  then have "oabs (object_diff ?a ?b) = (\<lambda>x. if oabs ?b x = None then oabs ?a x else None)"
    by (rule object_algebra [THEN conjunct1])
  then show ?thesis by (simp add: oabs_def)
qed

end
