(* ===== verification/Leb128.thy ===== *)
theory Leb128
  imports Opa_Prelude
begin

unbundle bit_operations_syntax

text \<open>
  LEB128 integers (internal/leb128/leb128.go), the variable-length encoding of the Wasm binary
  format.  A reader is the list of bytes still to be read; reading from an empty list is the
  error \<open>EOF\<close>.  A writer is the list of bytes that a call appends.  int64 values are words whose
  right shift is arithmetic.
\<close>

type_synonym byte = "8 word"

datatype io_error = EOF

type_synonym 'a reader = "byte list \<Rightarrow> io_error + ('a \<times> byte list)"

section \<open>Encoding\<close>

definition uleb_byte :: "64 word \<Rightarrow> byte" where
  "uleb_byte v =
     (let c = ucast (v AND 0x7f)
      in if drop_bit 7 v \<noteq> 0 then c OR 0x80 else c)"

definition sleb_byte :: "64 word \<Rightarrow> byte" where
  "sleb_byte v =
     (let c = ucast (v AND 0x7f); s = (ucast (v AND 0x40) :: byte); v' = signed_drop_bit 7 v
      in if (v' \<noteq> -1 \<or> s = 0) \<and> (v' \<noteq> 0 \<or> s \<noteq> 0) then c OR 0x80 else c)"

lemma low_byte_7: "\<not> bit (ucast (v AND 0x7f) :: byte) 7"
  by (simp add: bit_ucast_iff bit_and_iff)

lemma and_80: "(c :: byte) AND 0x80 = 0 \<longleftrightarrow> \<not> bit c 7" "(w :: 64 word) AND 0x80 = 0 \<longleftrightarrow> \<not> bit w 7"
  and and_40: "w AND 0x40 = 0 \<longleftrightarrow> \<not> bit w 6"
  using and_exp_eq_0_iff_not_bit [of c 7] and_exp_eq_0_iff_not_bit [of w 7]
    and_exp_eq_0_iff_not_bit [of w 6] by simp_all

lemma bit_int_pow:
  "bit (128 :: int) n \<longleftrightarrow> n = 7" "bit (64 :: int) n \<longleftrightarrow> n = 6"
proof -
  have "(128 :: int) = 2 ^ 7" "(64 :: int) = 2 ^ 6" by simp_all
  then show "bit (128 :: int) n \<longleftrightarrow> n = 7" "bit (64 :: int) n \<longleftrightarrow> n = 6"
    by (simp_all only: bit_exp_iff) auto
qed

lemma mask7: "(0x7f :: 'a::len word) = mask 7"
  by (simp add: mask_eq_exp_minus_1)

lemma and_7f: "(v :: 64 word) AND 0x7f = take_bit 7 v"
  by (simp add: mask7 take_bit_eq_mask)

lemma byte_low7:
  "ucast (b :: byte) AND (0x7f :: 64 word) = take_bit 7 (ucast b)"
  by (rule and_7f)

lemma uleb_byte_more: "uleb_byte v AND 0x80 = 0 \<longleftrightarrow> drop_bit 7 v = 0"
  using low_byte_7 [of v] by (simp add: uleb_byte_def Let_def and_80 bit_or_iff)

lemma uleb_byte_low: "ucast (uleb_byte v) AND (0x7f :: 64 word) = take_bit 7 v"
  unfolding uleb_byte_def Let_def
  by (rule bit_word_eqI) (auto simp: mask7 bit_int_pow bit_simps)

lemma sleb_byte_more:
  "sleb_byte v AND 0x80 = 0 \<longleftrightarrow>
     \<not> ((signed_drop_bit 7 v \<noteq> -1 \<or> \<not> bit v 6) \<and> (signed_drop_bit 7 v \<noteq> 0 \<or> bit v 6))"
proof -
  have "(ucast (v AND 0x40) :: byte) = 0 \<longleftrightarrow> \<not> bit v 6"
  proof (cases "bit v 6")
    case True
    then have "bit (ucast (v AND 0x40) :: byte) 6" by (simp add: bit_simps bit_int_pow)
    then show ?thesis using True by auto
  next
    case False
    then have "v AND 0x40 = 0" by (simp add: and_40)
    then show ?thesis using False by simp
  qed
  then show ?thesis using low_byte_7 [of v] by (simp add: sleb_byte_def Let_def and_80 bit_or_iff)
qed

lemma sleb_byte_low: "ucast (sleb_byte v) AND (0x7f :: 64 word) = take_bit 7 v"
  unfolding sleb_byte_def Let_def
  by (rule bit_word_eqI) (auto simp: mask7 bit_int_pow bit_simps)

function appendUleb128 :: "byte list \<Rightarrow> 64 word \<Rightarrow> byte list" where
  "appendUleb128 b v =
     (let c = uleb_byte v; b' = b @ [c]
      in if c AND 0x80 = 0 then b' else appendUleb128 b' (drop_bit 7 v))"
  by pat_completeness auto

termination
proof (relation "measure (\<lambda>(b, v). unat v)")
  fix b b' :: "byte list" and v :: "64 word" and c
  assume "c = uleb_byte v" "\<not> c AND 0x80 = 0"
  then have "drop_bit 7 v \<noteq> 0" by (simp add: uleb_byte_more)
  then have "unat v \<noteq> 0" by (auto simp: unat_eq_0)
  then have "unat v div 128 < unat v" by simp
  then show "((b', drop_bit 7 v), b, v) \<in> measure (\<lambda>(b, v). unat v)"
    by (simp add: unat_drop_bit_eq) (simp add: drop_bit_eq_div)
qed simp

lemma sint_shift7: "sint (signed_drop_bit 7 (v :: 64 word)) = sint v div 128"
  by (simp add: sint_signed_drop_bit_eq drop_bit_eq_div)

function appendSleb128 :: "byte list \<Rightarrow> 64 word \<Rightarrow> byte list" where
  "appendSleb128 b v =
     (let c = sleb_byte v; b' = b @ [c]
      in if c AND 0x80 = 0 then b' else appendSleb128 b' (signed_drop_bit 7 v))"
  by pat_completeness auto

termination
proof (relation "measure (\<lambda>(b, v). nat \<bar>sint v\<bar>)")
  fix b b' :: "byte list" and v :: "64 word" and c
  assume c: "c = sleb_byte v" "\<not> c AND 0x80 = 0"
  have "v \<noteq> 0" "v \<noteq> -1" using c by (auto simp: sleb_byte_more)
  then have "sint v \<noteq> 0" "sint v \<noteq> -1" by (auto simp: signed_eq_0_iff) (metis signed_minus_1 signed_word_eqI)
  then have "\<bar>sint v div 128\<bar> < \<bar>sint v\<bar>" by linarith
  then show "((b', signed_drop_bit 7 v), b, v) \<in> measure (\<lambda>(b, v). nat \<bar>sint v\<bar>)"
    by (simp add: sint_shift7)
qed simp

section \<open>Decoding\<close>

fun readVarUint64_loop :: "64 word \<Rightarrow> 64 word \<Rightarrow> 64 word reader" where
  "readVarUint64_loop result shift [] = Inl EOF"
| "readVarUint64_loop result shift (b # r) =
     (let v = ucast b;
          result' = result OR push_bit (unat shift) (v AND 0x7f)
      in if v AND 0x80 = (0 :: 64 word) then Inr (result', r)
         else readVarUint64_loop result' (shift + 7) r)"

definition readVarUint64 :: "64 word reader" where
  "readVarUint64 r = readVarUint64_loop 0 0 r"

definition readVarUint32 :: "32 word reader" where
  "readVarUint32 r = bind_result (readVarUint64 r) (\<lambda>(u64, r'). Inr (ucast u64, r'))"

text \<open>The signed reader takes 32 as the size of the result, for int64 as well.\<close>

fun readVarInt64_loop :: "64 word \<Rightarrow> 64 word \<Rightarrow> 64 word reader" where
  "readVarInt64_loop result shift [] = Inl EOF"
| "readVarInt64_loop result shift (b # r) =
     (let v = ucast b;
          result' = result OR push_bit (unat shift) (v AND 0x7f);
          shift' = shift + 7
      in if v AND 0x80 = (0 :: 64 word) then
           Inr (if shift' < 32 \<and> v AND 0x40 \<noteq> 0 then result' OR push_bit (unat shift') (-1) else result', r)
         else readVarInt64_loop result' shift' r)"

definition readVarInt64 :: "64 word reader" where
  "readVarInt64 r = readVarInt64_loop 0 0 r"

definition readVarInt32 :: "32 word reader" where
  "readVarInt32 r = bind_result (readVarInt64 r) (\<lambda>(i64, r'). Inr (ucast i64, r'))"

text \<open>The writers.\<close>

definition writeVarUint32 :: "32 word \<Rightarrow> byte list" where
  "writeVarUint32 u = appendUleb128 [] (ucast u)"

definition writeVarUint64 :: "64 word \<Rightarrow> byte list" where
  "writeVarUint64 u = appendUleb128 [] u"

definition writeVarInt32 :: "32 word \<Rightarrow> byte list" where
  "writeVarInt32 i = appendSleb128 [] (scast i)"

definition writeVarInt64 :: "64 word \<Rightarrow> byte list" where
  "writeVarInt64 i = appendSleb128 [] i"

section \<open>Round trips\<close>

lemma cast_80: "ucast (c :: byte) AND (0x80 :: 64 word) = 0 \<longleftrightarrow> c AND 0x80 = 0"
  by (simp add: and_80 bit_simps)

declare appendUleb128.simps [simp del] appendSleb128.simps [simp del]

lemma appendUleb128_acc: "appendUleb128 (b' @ b) v = b' @ appendUleb128 b v"
proof (induction b v rule: appendUleb128.induct)
  case (1 b v)
  then show ?case by (simp add: appendUleb128.simps [of "b' @ b" v] appendUleb128.simps [of b v] Let_def)
qed

lemma appendUleb128_step:
  "appendUleb128 [] v =
     (if drop_bit 7 v = 0 then [uleb_byte v] else uleb_byte v # appendUleb128 [] (drop_bit 7 v))"
  using appendUleb128_acc [of "[uleb_byte v]" "[]"]
  by (simp add: appendUleb128.simps [of "[]" v] uleb_byte_more)

lemma appendSleb128_acc: "appendSleb128 (b' @ b) v = b' @ appendSleb128 b v"
proof (induction b v rule: appendSleb128.induct)
  case (1 b v)
  then show ?case by (simp add: appendSleb128.simps [of "b' @ b" v] appendSleb128.simps [of b v] Let_def)
qed

definition sleb_last :: "64 word \<Rightarrow> bool" where
  "sleb_last v \<longleftrightarrow> (if bit v 6 then signed_drop_bit 7 v = -1 else signed_drop_bit 7 v = 0)"

lemma appendSleb128_step:
  "appendSleb128 [] v =
     (if sleb_last v then [sleb_byte v] else sleb_byte v # appendSleb128 [] (signed_drop_bit 7 v))"
  using appendSleb128_acc [of "[sleb_byte v]" "[]"]
  by (auto simp: appendSleb128.simps [of "[]" v] sleb_byte_more sleb_last_def)

text \<open>The number of bytes.\<close>

lemma uleb_length: "unat v < 2 ^ (7 * n) \<Longrightarrow> 0 < n \<Longrightarrow> length (appendUleb128 [] v) \<le> n"
proof (induction n arbitrary: v)
  case (Suc n)
  show ?case
  proof (cases "drop_bit 7 v = 0")
    case True
    then show ?thesis by (simp add: appendUleb128_step [of v])
  next
    case False
    have "unat (drop_bit 7 v) < 2 ^ (7 * n)"
      unfolding unat_drop_bit_eq
      using Suc.prems(1) by (simp add: drop_bit_eq_div less_mult_imp_div_less power_add mult.commute)
    moreover have "0 < n"
    proof (rule ccontr)
      assume "\<not> 0 < n"
      then show False using calculation False by (simp add: unat_eq_0)
    qed
    ultimately show ?thesis using Suc.IH False by (simp add: appendUleb128_step [of v])
  qed
qed simp

lemma bit_6_sint: "bit (v :: 64 word) 6 \<longleftrightarrow> odd (sint v div 64)"
proof -
  have "bit v 6 = bit (sint v) 6" by (simp add: bit_sint_iff)
  then show ?thesis by (simp add: bit_iff_odd)
qed

lemma signed_drop_bit_cases:
  "signed_drop_bit 7 (v :: 64 word) = 0 \<longleftrightarrow> sint v div 128 = 0"
  "signed_drop_bit 7 (v :: 64 word) = -1 \<longleftrightarrow> sint v div 128 = -1"
  unfolding sint_shift7 [symmetric] by (simp_all add: signed_eq_0_iff) (metis signed_minus_1 signed_word_eqI)

lemma sleb_last_small: "- 64 \<le> sint v \<Longrightarrow> sint v < 64 \<Longrightarrow> sleb_last v"
proof -
  assume r: "- 64 \<le> sint v" "sint v < 64"
  have "sint v div 128 = (if sint v < 0 then -1 else 0)" "sint v div 64 = (if sint v < 0 then -1 else 0)"
    using r by auto
  then show ?thesis by (simp add: sleb_last_def bit_6_sint signed_drop_bit_cases)
qed

lemma sleb_length: "- (2 ^ (7 * n + 6)) \<le> sint v \<Longrightarrow> sint v < 2 ^ (7 * n + 6) \<Longrightarrow>
  length (appendSleb128 [] v) \<le> Suc n"
proof (induction n arbitrary: v)
  case 0
  then show ?case using sleb_last_small [of v] by (simp add: appendSleb128_step [of v])
next
  case (Suc n)
  have "- (2 ^ (7 * n + 6)) \<le> sint v div 128" "sint v div 128 < 2 ^ (7 * n + 6)"
    using Suc.prems by (simp_all add: power_add)
  then have "length (appendSleb128 [] (signed_drop_bit 7 v)) \<le> Suc n"
    using Suc.IH by (simp add: sint_shift7)
  then show ?case by (simp add: appendSleb128_step [of v])
qed

section \<open>Reading what was written\<close>

lemma push_split:
  "push_bit n (take_bit 7 (v :: 64 word)) OR push_bit (n + 7) (drop_bit 7 v) = push_bit n v"
proof (rule bit_word_eqI)
  fix m
  have "m - n < 7 \<or> 7 + (m - (n + 7)) = m - n" by arith
  moreover have "n + 7 \<le> m \<Longrightarrow> \<not> m - n < 7" "n \<le> m \<Longrightarrow> \<not> m - n < 7 \<Longrightarrow> n + 7 \<le> m" by arith+
  moreover assume "m < LENGTH(64)"
  ultimately show "bit (push_bit n (take_bit 7 v) OR push_bit (n + 7) (drop_bit 7 v)) m = bit (push_bit n v) m"
    by (auto simp: bit_simps)
qed

lemma read_uleb:
  "unat shift + 7 * length (appendUleb128 [] v) < 2 ^ 64 \<Longrightarrow>
   readVarUint64_loop result shift (appendUleb128 [] v @ r) = Inr (result OR push_bit (unat shift) v, r)"
proof (induction "appendUleb128 [] v" arbitrary: v result shift)
  case Nil
  then show ?case by (simp add: appendUleb128_step [of v] split: if_splits)
next
  case (Cons c cs)
  have low: "ucast c AND (0x7f :: 64 word) = take_bit 7 v"
    and more: "c AND 0x80 = 0 \<longleftrightarrow> drop_bit 7 v = 0"
    using Cons.hyps(2) by (auto simp: appendUleb128_step [of v] uleb_byte_low uleb_byte_more split: if_splits)
  show ?case
  proof (cases "drop_bit 7 v = 0")
    case True
    then have "cs = []" using Cons.hyps(2) by (simp add: appendUleb128_step [of v])
    moreover have "take_bit 7 v = v" using True
      by (metis take_bit_eq_self_iff_drop_bit_eq_0)
    ultimately show ?thesis using True Cons.hyps(2) [symmetric] low more by (simp add: cast_80 del: push_bit_and)
  next
    case False
    then have cs: "cs = appendUleb128 [] (drop_bit 7 v)" using Cons.hyps(2) by (simp add: appendUleb128_step [of v])
    have s: "unat (shift + 7) = unat shift + 7"
      using Cons.prems Cons.hyps(2) [symmetric] by (simp add: unat_word_ariths)
    have "readVarUint64_loop (result OR push_bit (unat shift) (take_bit 7 v)) (shift + 7) (cs @ r) =
        Inr ((result OR push_bit (unat shift) (take_bit 7 v)) OR push_bit (unat (shift + 7)) (drop_bit 7 v), r)"
      unfolding cs by (rule Cons.hyps(1)) (use cs s Cons.prems Cons.hyps(2) [symmetric] in auto)
    then show ?thesis
      using False Cons.hyps(2) [symmetric] low more by (simp add: cast_80 s or.assoc push_split del: push_bit_and)
  qed
qed

lemma push_split_signed:
  "push_bit n (take_bit 7 (v :: 64 word)) OR push_bit (n + 7) (signed_drop_bit 7 v) = push_bit n v"
proof (rule bit_word_eqI)
  fix m
  have "m - n < 7 \<or> 7 + (m - (n + 7)) = m - n" by arith
  moreover have "n + 7 \<le> m \<Longrightarrow> \<not> m - n < 7" "n \<le> m \<Longrightarrow> \<not> m - n < 7 \<Longrightarrow> n + 7 \<le> m" by arith+
  moreover assume "m < LENGTH(64)"
  ultimately show "bit (push_bit n (take_bit 7 v) OR push_bit (n + 7) (signed_drop_bit 7 v)) m = bit (push_bit n v) m"
    by (auto simp: bit_simps)
qed

lemma take_bit_or_high: "k \<le> n \<Longrightarrow> take_bit k ((w :: 64 word) OR push_bit n u) = take_bit k w"
  by (rule bit_word_eqI) (auto simp: bit_simps)

text \<open>
  What the signed reader makes of an encoded value: the low 32 bits are right, and the whole
  is right if the value is not negative or its encoding is shorter than five bytes.
\<close>

lemma read_sleb:
  "unat shift + 7 * length (appendSleb128 [] v) < 2 ^ 64 \<Longrightarrow>
   \<exists>w. readVarInt64_loop result shift (appendSleb128 [] v @ r) = Inr (w, r) \<and>
     take_bit 32 w = take_bit 32 (result OR push_bit (unat shift) v) \<and>
     (0 \<le> sint v \<or> unat shift + 7 * length (appendSleb128 [] v) < 32 \<longrightarrow> w = result OR push_bit (unat shift) v)"
proof (induction "appendSleb128 [] v" arbitrary: v result shift)
  case Nil
  then show ?case by (simp add: appendSleb128_step [of v] split: if_splits)
next
  case (Cons c cs)
  let ?res = "result OR push_bit (unat shift) (take_bit 7 v)"
  have c: "c = sleb_byte v" using Cons.hyps(2) by (simp add: appendSleb128_step [of v] split: if_splits)
  have low: "ucast c AND (0x7f :: 64 word) = take_bit 7 v"
    and more: "ucast c AND (0x80 :: 64 word) = 0 \<longleftrightarrow> sleb_last v"
    by (auto simp: c sleb_byte_low cast_80 sleb_byte_more sleb_last_def)
  have s: "unat (shift + 7) = unat shift + 7"
    using Cons.prems Cons.hyps(2) [symmetric] by (simp add: unat_word_ariths)
  show ?case
  proof (cases "sleb_last v")
    case True
    have sign: "ucast c AND (0x40 :: 64 word) = 0 \<longleftrightarrow> \<not> bit v 6"
      using arg_cong [OF low, of "\<lambda>w. bit w 6"] by (simp add: and_40 mask7 bit_simps)
    have cs: "cs = []" using True Cons.hyps(2) by (simp add: appendSleb128_step [of v])
    have v: "signed_drop_bit 7 v = (if bit v 6 then -1 else 0)" using True by (simp add: sleb_last_def)
    have neg: "bit v 6 \<longleftrightarrow> sint v < 0" using v signed_drop_bit_cases [of v] by (auto split: if_splits)
    define h where "h = push_bit (unat shift + 7) (- 1 :: 64 word)"
    have split: "result OR push_bit (unat shift) v = (if bit v 6 then ?res OR h else ?res)"
      using push_split_signed [of "unat shift" v] v
      by (cases "bit v 6") (simp_all add: or.assoc h_def)
    have high: "\<not> unat shift + 7 < 32 \<Longrightarrow> take_bit 32 (?res OR h) = take_bit 32 ?res"
      unfolding h_def by (rule take_bit_or_high) simp
    have "shift + 7 < 32 \<longleftrightarrow> unat shift + 7 < 32" using s by (simp add: word_less_nat_alt)
    then have "readVarInt64_loop result shift (c # r) = Inr (if unat shift + 7 < 32 \<and> bit v 6 then ?res OR h else ?res, r)"
      using True low more sign by (simp add: s Let_def h_def del: push_bit_and)
    moreover have "appendSleb128 [] v = [c]" using Cons.hyps(2) cs by simp
    ultimately show ?thesis using split neg high by (auto simp del: readVarInt64_loop.simps take_bit_or)
  next
    case False
    then have cs: "cs = appendSleb128 [] (signed_drop_bit 7 v)" using Cons.hyps(2) by (simp add: appendSleb128_step [of v])
    have "\<exists>w. readVarInt64_loop ?res (shift + 7) (appendSleb128 [] (signed_drop_bit 7 v) @ r) = Inr (w, r) \<and>
       take_bit 32 w = take_bit 32 (?res OR push_bit (unat (shift + 7)) (signed_drop_bit 7 v)) \<and>
       (0 \<le> sint (signed_drop_bit 7 v) \<or> unat (shift + 7) + 7 * length (appendSleb128 [] (signed_drop_bit 7 v)) < 32 \<longrightarrow>
          w = ?res OR push_bit (unat (shift + 7)) (signed_drop_bit 7 v))"
      by (rule Cons.hyps(1)) (use cs s Cons.prems Cons.hyps(2) [symmetric] in auto)
    moreover have "0 \<le> sint (signed_drop_bit 7 v) \<longleftrightarrow> 0 \<le> sint v" unfolding sint_shift7 by linarith
    ultimately show ?thesis
      using False Cons.hyps(2) [symmetric] low more cs
      by (simp add: s or.assoc push_split_signed del: push_bit_and)
  qed
qed

lemma ucast_ucast_up: "ucast (ucast (x :: 32 word) :: 64 word) = x"
  by (rule bit_word_eqI) (auto simp: bit_simps)

lemma ucast_take_bit_32: "(ucast (w :: 64 word) :: 32 word) = ucast (take_bit 32 w)"
  by (rule bit_word_eqI) (auto simp: bit_simps)

text \<open>A reader that runs out of bytes before a final byte reports the end of the input.\<close>

lemma read_uleb_eof: "list_all (\<lambda>c. c AND 0x80 \<noteq> 0) bs \<Longrightarrow> readVarUint64_loop result shift bs = Inl EOF"
  by (induction bs arbitrary: result shift) (simp_all add: Let_def cast_80)

lemma uleb_more: "list_all (\<lambda>c. c AND 0x80 \<noteq> 0) (butlast (appendUleb128 [] v))"
proof (induction "appendUleb128 [] v" arbitrary: v)
  case Nil
  then show ?case by simp
next
  case (Cons c cs)
  then show ?case by (cases "drop_bit 7 v = 0") (auto simp: appendUleb128_step [of v] uleb_byte_more)
qed

lemma uleb_length_64: "length (appendUleb128 [] v) \<le> 10"
  using uleb_length [of v 10] unsigned_less [where 'a = nat, of v] by simp

lemma sleb_length_64: "length (appendSleb128 [] v) \<le> 10"
  using sleb_length [of 9 v] sint_ge [of v] sint_less [of v] by simp

section \<open>Properties\<close>

text \<open>
  C23.  Round trip of the unsigned integers.  Reading what \<open>WriteVarUint64\<close> or \<open>WriteVarUint32\<close> wrote
  gives the value back and leaves what follows it; an encoding has at most 10 bytes, 5 for
  uint32; and every proper prefix of an encoding is reported as the end of the input.
\<close>

theorem leb128_unsigned_roundtrip:
  "readVarUint64 (writeVarUint64 u @ r) = Inr (u, r) \<and>
   readVarUint32 (writeVarUint32 x @ r) = Inr (x, r) \<and>
   length (writeVarUint64 u) \<le> 10 \<and> length (writeVarUint32 x) \<le> 5 \<and>
   (\<forall>n < length (writeVarUint64 u). readVarUint64 (take n (writeVarUint64 u)) = Inl EOF)"
proof (intro conjI allI impI)
  have r: "readVarUint64 (writeVarUint64 v @ r) = Inr (v, r)" for v
    using read_uleb [of 0 v 0 r] uleb_length_64 [of v] by (simp add: readVarUint64_def writeVarUint64_def)
  then show "readVarUint64 (writeVarUint64 u @ r) = Inr (u, r)" .
  show "readVarUint32 (writeVarUint32 x @ r) = Inr (x, r)"
    using r [of "ucast x"] ucast_ucast_up [of x] by (simp add: readVarUint32_def writeVarUint32_def writeVarUint64_def)
  show "length (writeVarUint64 u) \<le> 10" unfolding writeVarUint64_def by (rule uleb_length_64)
  show "length (writeVarUint32 x) \<le> 5"
    using uleb_length [of "ucast x" 5] unsigned_less [where 'a = nat, of x] by (simp add: writeVarUint32_def unsigned_ucast_eq take_bit_eq_mod)
  fix n assume "n < length (writeVarUint64 u)"
  then have "take n (writeVarUint64 u) = take n (butlast (writeVarUint64 u))"
    by (simp add: take_butlast)
  then show "readVarUint64 (take n (writeVarUint64 u)) = Inl EOF"
    using uleb_more [of u] unfolding readVarUint64_def writeVarUint64_def
    by (intro read_uleb_eof) (auto simp: list_all_iff dest: in_set_takeD)
qed

theorem leb128_unsigned_roundtrip_witness:
  "writeVarUint64 624485 = [0xe5, 0x8e, 0x26] \<and> readVarUint64 (take 2 (writeVarUint64 624485)) = Inl EOF"
proof -
  have "writeVarUint64 624485 = [0xe5, 0x8e, 0x26]"
    by (simp add: writeVarUint64_def appendUleb128.simps uleb_byte_def drop_bit_eq_div)
  then show ?thesis
    using leb128_unsigned_roundtrip [of 624485 "[]" 0, THEN conjunct2, THEN conjunct2, THEN conjunct2,
        THEN conjunct2, rule_format, of 2] by simp
qed

text \<open>
  C24.  Round trip of the signed integers.  Every int32 is read back; an int64 is read back if it is
  not negative or at least \<open>-2 ^ 27\<close>.
\<close>

theorem leb128_signed_roundtrip:
  "readVarInt32 (writeVarInt32 i @ r) = Inr (i, r) \<and>
   (0 \<le> sint v \<or> - (2 ^ 27) \<le> sint v \<longrightarrow> readVarInt64 (writeVarInt64 v @ r) = Inr (v, r))"
proof (intro conjI impI)
  have len: "unat (0 :: 64 word) + 7 * length (appendSleb128 [] w) < 2 ^ 64" for w
    using sleb_length_64 [of w] by simp
  obtain w where w: "readVarInt64 (writeVarInt32 i @ r) = Inr (w, r)" "take_bit 32 w = take_bit 32 (scast i)"
    using read_sleb [OF len, where v = "scast i" and result = 0 and r = r] by (auto simp: readVarInt64_def writeVarInt32_def)
  have "(ucast w :: 32 word) = ucast (take_bit 32 w)" by (rule ucast_take_bit_32)
  also have "\<dots> = ucast (scast i :: 64 word)" unfolding w(2) by (rule ucast_take_bit_32 [symmetric])
  also have "\<dots> = i" by (rule bit_word_eqI) (auto simp: bit_simps)
  finally show "readVarInt32 (writeVarInt32 i @ r) = Inr (i, r)" using w(1) by (simp add: readVarInt32_def)
  assume v: "0 \<le> sint v \<or> - (2 ^ 27) \<le> sint v"
  have "7 * length (appendSleb128 [] v) < 32" if "sint v < 0" "- (2 ^ 27) \<le> sint v"
    using sleb_length [of 3 v] that by simp
  then show "readVarInt64 (writeVarInt64 v @ r) = Inr (v, r)"
    using read_sleb [OF len, where v = v and result = 0 and r = r] v by (auto simp: readVarInt64_def writeVarInt64_def)
qed

theorem leb128_signed_roundtrip_witness:
  "writeVarInt64 (- 2) = [0x7e] \<and> readVarInt64 [0x7e, 0x05] = Inr (- 2, [0x05])"
proof -
  have w: "writeVarInt64 (- 2) = [0x7e]" by code_simp
  have "sint (- 2 :: 64 word) = - 2" by code_simp
  then show ?thesis using leb128_signed_roundtrip [of 0 "[0x05]" "- 2"] w by simp
qed

text \<open>
  \<open>ReadVarInt64\<close> decides about sign extension with the size of an int32.  A negative int64 whose
  encoding takes five bytes is read as a positive number: \<open>-2 ^ 32\<close> comes back as \<open>2 ^ 35 - 2 ^ 32\<close>.
\<close>

theorem leb128_int64_sign_lost:
  "writeVarInt64 (- (2 ^ 32)) = [0x80, 0x80, 0x80, 0x80, 0x70] \<and>
   readVarInt64 (writeVarInt64 (- (2 ^ 32))) = Inr (2 ^ 35 - 2 ^ 32, [])"
  by code_simp

end
