(* ===== verification/Bitvector.thy ===== *)
theory Bitvector
  imports Opa_Prelude
begin

unbundle bit_operations_syntax

text \<open>
  The bit vector of the edit tree (internal/edittree/bitvector/bitvector.go), refined to lists of
  booleans.  Indices into the byte slice that are out of range, and the explicit assertion of the
  code, make an operation panic (\<open>None\<close>).  Bit positions are converted to uint32 before they are
  split into byte and offset, which is written out.
\<close>

type_synonym bv_byte = "8 word"

record bitvec =
  bv_data :: "bv_byte list"
  bv_length :: int

definition newBitVector :: "bv_byte list \<Rightarrow> int \<Rightarrow> bitvec" where
  "newBitVector data len = \<lparr>bv_data = data, bv_length = len\<rparr>"

text \<open>
  The two shift loops, on the bytes of a slice; the result is the bit shifted out and the new
  bytes.  \<open>shiftLower\<close> runs from the last byte to the first.
\<close>

fun shiftLower_loop :: "bv_byte \<Rightarrow> bv_byte list \<Rightarrow> bv_byte \<times> bv_byte list" where
  "shiftLower_loop bt [] = (bt, [])"
| "shiftLower_loop bt (b # bs) =
     (case shiftLower_loop bt bs of (bt', bs') \<Rightarrow>
        (push_bit 7 (b AND 1), (drop_bit 1 b OR bt') # bs'))"

definition shiftLower :: "bv_byte \<Rightarrow> bv_byte list \<Rightarrow> bv_byte \<times> bv_byte list" where
  "shiftLower bt b =
     (case shiftLower_loop (push_bit 7 bt) b of (bt', b') \<Rightarrow> (drop_bit 7 bt', b'))"

fun shiftHigher :: "bv_byte \<Rightarrow> bv_byte list \<Rightarrow> bv_byte \<times> bv_byte list" where
  "shiftHigher bt [] = (bt, [])"
| "shiftHigher bt (b # bs) =
     (case shiftHigher (drop_bit 7 (b AND 0x80)) bs of (bt', bs') \<Rightarrow>
        (bt', (push_bit 1 b OR bt) # bs'))"

definition bytesLength :: "bitvec \<Rightarrow> int" where
  "bytesLength v = (bv_length v - 1) div 8 + 1"

definition indexAssert :: "bitvec \<Rightarrow> int \<Rightarrow> bool" where
  "indexAssert v i \<longleftrightarrow> 0 \<le> i \<and> i < bv_length v"

text \<open>The split of a position into byte and offset, with the conversion to uint32.\<close>

definition byteIndex :: "int \<Rightarrow> nat" where
  "byteIndex i = nat ((i div 8) mod 2 ^ 32)"

definition byteOffset :: "int \<Rightarrow> nat" where
  "byteOffset i = nat (i mod 8)"

definition set_bit_of :: "bv_byte \<Rightarrow> bv_byte \<Rightarrow> nat \<Rightarrow> bv_byte" where
  "set_bit_of bt oldByte off =
     (if bt = 1 then oldByte OR push_bit off 1 else oldByte AND NOT (push_bit off 1))"

definition bv_append :: "bv_byte \<Rightarrow> bitvec \<Rightarrow> bitvec option" where
  "bv_append bt v =
     (let index = bv_length v mod 2 ^ 32;
          v1 = v\<lparr>bv_length := bv_length v + 1\<rparr>;
          data = (if int (length (bv_data v1)) < bytesLength v1 then bv_data v1 @ [0] else bv_data v1);
          bi = nat (index div 8)
      in if bi < length data
         then Some (v1\<lparr>bv_data := data[bi := set_bit_of bt (data ! bi) (nat (index mod 8))]\<rparr>)
         else None)"

definition bv_element :: "bitvec \<Rightarrow> int \<Rightarrow> bv_byte option" where
  "bv_element v i =
     (if \<not> indexAssert v i then None
      else let bi = nat (i div 8)
           in if bi < length (bv_data v) then Some (drop_bit (byteOffset i) (bv_data v ! bi) AND 1) else None)"

definition bv_set :: "bv_byte \<Rightarrow> int \<Rightarrow> bitvec \<Rightarrow> bitvec option" where
  "bv_set bt index v =
     (if \<not> indexAssert v index then None
      else let bi = byteIndex index
           in if bi < length (bv_data v)
              then Some (v\<lparr>bv_data := (bv_data v)[bi := set_bit_of bt (bv_data v ! bi) (byteOffset index)]\<rparr>)
              else None)"

definition bv_insert :: "bv_byte \<Rightarrow> int \<Rightarrow> bitvec \<Rightarrow> bitvec option" where
  "bv_insert bt index v =
     (if \<not> indexAssert v index then None
      else let v1 = v\<lparr>bv_length := bv_length v + 1\<rparr>;
               data = (if int (length (bv_data v1)) < bytesLength v1 then bv_data v1 @ [0] else bv_data v1);
               bi = byteIndex index; off = byteOffset index
           in if length data \<le> bi then None
              else let bitToInsert = (if bt = 1 then push_bit off 1 else 0);
                       oldByte = data ! bi;
                       leftoverBit = drop_bit 7 (oldByte AND 0x80);
                       bottomMask = push_bit off 1 - 1;
                       topMask = NOT bottomMask;
                       top = push_bit 1 (oldByte AND topMask);
                       newByte = bitToInsert OR (oldByte AND bottomMask) OR top
                   in Some (v1\<lparr>bv_data := take bi data @ newByte # snd (shiftHigher leftoverBit (drop (Suc bi) data))\<rparr>))"

definition bv_delete :: "int \<Rightarrow> bitvec \<Rightarrow> bitvec option" where
  "bv_delete index v =
     (if \<not> indexAssert v index then None
      else let v1 = v\<lparr>bv_length := bv_length v - 1\<rparr>;
               data = bv_data v; bi = byteIndex index; off = byteOffset index
           in if length data \<le> bi then None
              else let oldByte = data ! bi;
                       (bt, post) = shiftLower 0 (drop (Suc bi) data);
                       bottomMask = push_bit off 1 - 1;
                       topMask = NOT (push_bit (off + 1) 1 - 1);
                       newTop = drop_bit 1 (oldByte AND topMask) OR push_bit 7 bt;
                       newByte = (bottomMask AND oldByte) OR newTop;
                       data' = take bi data @ newByte # post;
                       n = bytesLength v1
                   in Some (v1\<lparr>bv_data := if n < int (length data') then take (nat n) data' else data'\<rparr>))"

section \<open>Bit lists\<close>

definition byte_bits :: "bv_byte \<Rightarrow> bool list" where
  "byte_bits b = map (bit b) [0..<8]"

definition bits_of :: "bv_byte list \<Rightarrow> bool list" where
  "bits_of bs = concat (map byte_bits bs)"

definition bv_abs :: "bitvec \<Rightarrow> bool list" where
  "bv_abs v = take (nat (bv_length v)) (bits_of (bv_data v))"

text \<open>The byte slice has exactly the bytes that the length needs, and positions fit a uint32.\<close>

definition bv_ok :: "bitvec \<Rightarrow> bool" where
  "bv_ok v \<longleftrightarrow> 0 \<le> bv_length v \<and> bv_length v < 2 ^ 32 \<and> int (length (bv_data v)) = bytesLength v"

lemma length_bits_of [simp]: "length (bits_of bs) = 8 * length bs"
  by (induction bs) (simp_all add: bits_of_def byte_bits_def)

lemma bits_of_simps [simp]:
  "bits_of [] = []" "bits_of (b # bs) = byte_bits b @ bits_of bs" "bits_of (xs @ ys) = bits_of xs @ bits_of ys"
  by (simp_all add: bits_of_def)

lemma length_byte_bits [simp]: "length (byte_bits b) = 8"
  by (simp add: byte_bits_def)

lemma byte_bits_nth [simp]: "k < 8 \<Longrightarrow> byte_bits b ! k = bit b k"
  by (simp add: byte_bits_def)

lemma bit_one_byte: "bit (1 :: bv_byte) n \<longleftrightarrow> n = 0"
  by (simp add: bit_1_iff)

lemma byte_bits_up:
  assumes "c = 0 \<or> c = 1"
  shows "byte_bits (push_bit 1 b OR c) = bit c 0 # take 7 (byte_bits b)"
proof (rule nth_equalityI)
  fix i assume "i < length (byte_bits (push_bit 1 b OR c))"
  then have i: "i < 8" by simp
  have "bit (push_bit 1 b OR c) i \<longleftrightarrow> 1 \<le> i \<and> bit b (i - 1) \<or> bit c i"
    using i unfolding bit_or_iff bit_push_bit_iff by (auto simp: possible_bit_def)
  then show "byte_bits (push_bit 1 b OR c) ! i = (bit c 0 # take 7 (byte_bits b)) ! i"
    using assms i byte_bits_nth [OF i, of "push_bit 1 b OR c"] by (cases i) (auto simp: bit_1_iff)
qed simp

lemma top_bit: "drop_bit 7 ((b :: bv_byte) AND 0x80) = (if bit b 7 then 1 else 0)"
proof (rule bit_word_eqI)
  fix n assume "n < LENGTH(8)"
  have e: "(128 :: int) = 2 ^ 7" by simp
  have "bit (128 :: int) (7 + n) \<longleftrightarrow> n = 0" unfolding e by (subst bit_exp_iff) auto
  then show "bit (drop_bit 7 (b AND 0x80)) n = bit (if bit b 7 then 1 else (0 :: bv_byte)) n"
    using \<open>n < LENGTH(8)\<close> by (auto simp: bit_simps)
qed

lemma take_Cons_append:
  "length xs = 8 \<Longrightarrow> take (8 + n) (c # xs @ ys) = (c # take 7 xs) @ take n (xs ! 7 # ys)"
  by (cases xs rule: rev_cases) (auto simp: take_Cons' nth_append)

lemma shiftHigher_bits:
  assumes "c = 0 \<or> c = 1"
  shows "bits_of (snd (shiftHigher c bs)) = take (8 * length bs) (bit c 0 # bits_of bs)"
  using assms
proof (induction c bs rule: shiftHigher.induct)
  case (2 c b bs)
  let ?c' = "drop_bit 7 (b AND 0x80)"
  have "?c' = 0 \<or> ?c' = 1" unfolding top_bit by simp
  then have "bits_of (snd (shiftHigher ?c' bs)) = take (8 * length bs) (bit ?c' 0 # bits_of bs)" by (rule "2.IH")
  then have "bits_of (snd (shiftHigher c (b # bs))) =
      (bit c 0 # take 7 (byte_bits b)) @ take (8 * length bs) (bit b 7 # bits_of bs)"
    unfolding top_bit
    by (simp add: byte_bits_up [OF "2.prems", simplified] top_bit [simplified] case_prod_beta split: if_splits)
  then show ?case using take_Cons_append [of "byte_bits b" "8 * length bs" "bit c 0"] by simp
qed simp

lemma byte_bits_down:
  assumes "c = 0 \<or> c = push_bit 7 1"
  shows "byte_bits (drop_bit (Suc 0) b OR c) = drop (Suc 0) (byte_bits b) @ [bit c 7]"
proof (rule nth_equalityI)
  fix i assume "i < length (byte_bits (drop_bit (Suc 0) b OR c))"
  then have i: "i < 8" by simp
  have "\<not> bit b 8" using bit_imp_le_length [of b 8] by auto
  then have "bit (drop_bit (Suc 0) b OR c) i \<longleftrightarrow> i < 7 \<and> bit b (Suc i) \<or> i = 7 \<and> bit c 7"
    using i assms unfolding bit_or_iff bit_drop_bit_eq by (cases "i = 7") (auto simp: bit_push_bit_iff bit_1_iff simp del: push_bit_of_1)
  then show "byte_bits (drop_bit (Suc 0) b OR c) ! i = (drop (Suc 0) (byte_bits b) @ [bit c 7]) ! i"
    using i byte_bits_nth [OF i, of "drop_bit (Suc 0) b OR c"] by (auto simp: nth_append)
qed simp

lemma shiftLower_bits:
  assumes "c = 0 \<or> c = push_bit 7 1"
  shows "fst (shiftLower_loop c bs) = push_bit 7 (if hd (bits_of bs @ [bit c 7]) then 1 else 0) \<and>
    bits_of (snd (shiftLower_loop c bs)) = tl (bits_of bs @ [bit c 7])"
  using assms
proof (induction c bs rule: shiftLower_loop.induct)
  case (2 c b bs)
  obtain c' bs' where r: "shiftLower_loop c bs = (c', bs')" by fastforce
  then have IH: "c' = push_bit 7 (if hd (bits_of bs @ [bit c 7]) then 1 else 0)"
      "bits_of bs' = tl (bits_of bs @ [bit c 7])"
    using "2.IH" "2.prems" by auto
  then have c': "c' = 0 \<or> c' = push_bit 7 1" by auto
  have "bit c' 7 = hd (bits_of bs @ [bit c 7])" using IH(1) by (simp add: bit_push_bit_iff)
  then have "[bit c' 7] @ bits_of bs' = bits_of bs @ [bit c 7]" using IH(2) by simp
  then have "bits_of (snd (shiftLower_loop c (b # bs))) = drop (Suc 0) (byte_bits b) @ bits_of bs @ [bit c 7]"
    using r by (simp add: byte_bits_down [OF c'])
  moreover have "b AND 1 = (if bit b 0 then 1 else 0)" by (simp add: and_one_eq mod2_eq_if bit_0)
  moreover have "hd (byte_bits b) = bit b 0" by (simp add: byte_bits_def upt_rec)
  moreover have "byte_bits b \<noteq> []" by (simp add: byte_bits_def)
  ultimately show ?case using r by (simp add: drop_Suc tl_append2)
qed (auto simp: bit_push_bit_iff)

section \<open>Single bytes\<close>

lemma bit_push_one: "n < 8 \<Longrightarrow> bit (push_bit off (1 :: bv_byte)) n \<longleftrightarrow> n = off"
  unfolding bit_push_bit_iff by (auto simp: possible_bit_def bit_1_iff)

lemma bit_low_mask: "n < 8 \<Longrightarrow> bit (push_bit off (1 :: bv_byte) - 1) n \<longleftrightarrow> n < off"
  unfolding push_bit_of_1 mask_eq_exp_minus_1 [symmetric] by (auto simp: bit_mask_iff possible_bit_def)

lemma byte_bits_set: "off < 8 \<Longrightarrow> byte_bits (set_bit_of c old off) = (byte_bits old)[off := (c = 1)]"
proof (rule nth_equalityI)
  fix n assume "off < 8" "n < length (byte_bits (set_bit_of c old off))"
  then have n: "n < 8" by simp
  show "byte_bits (set_bit_of c old off) ! n = (byte_bits old)[off := (c = 1)] ! n"
    unfolding byte_bits_nth [OF n] set_bit_of_def using n
    by (cases "n = off") (auto simp: bit_or_iff bit_and_iff bit_not_iff bit_push_one possible_bit_def
        simp del: push_bit_of_1)
qed simp

lemma byte_bits_insert:
  assumes "off < 8"
  shows "byte_bits ((if c = 1 then push_bit off 1 else 0) OR (old AND (push_bit off 1 - 1)) OR
      push_bit 1 (old AND NOT (push_bit off 1 - 1))) =
    take off (byte_bits old) @ (c = 1) # drop off (take 7 (byte_bits old))"
    (is "byte_bits ?b = ?xs")
proof (rule nth_equalityI)
  show "length (byte_bits ?b) = length ?xs" using assms by simp
  fix n assume "n < length (byte_bits ?b)"
  then have n: "n < 8" by simp
  then have n': "n - 1 < 8" by simp
  have up: "bit (push_bit 1 (old AND NOT (push_bit off 1 - 1))) n \<longleftrightarrow> off < n \<and> bit old (n - 1)"
    unfolding bit_push_bit_iff bit_and_iff bit_not_iff using n bit_low_mask [OF n', of off]
    by (auto simp: possible_bit_def)
  have "bit ?b n \<longleftrightarrow> (if n < off then bit old n else if n = off then c = 1 else bit old (n - 1))"
    unfolding bit_or_iff bit_and_iff up using n bit_low_mask [OF n, of off] bit_push_one [OF n, of off] by auto
  then show "byte_bits ?b ! n = ?xs ! n"
    unfolding byte_bits_nth [OF n] using n assms by (auto simp: nth_append nth_Cons' not_less_iff_gr_or_eq)
qed

lemma byte_bits_delete:
  assumes "off < 8" and "bt = 0 \<or> bt = 1"
  shows "byte_bits (((push_bit off 1 - 1) AND old) OR
      (drop_bit 1 (old AND NOT (push_bit (off + 1) 1 - 1)) OR push_bit 7 bt)) =
    take off (byte_bits old) @ drop (Suc off) (byte_bits old) @ [bt = 1]"
    (is "byte_bits ?b = ?xs")
proof (rule nth_equalityI)
  show "length (byte_bits ?b) = length ?xs" using assms by simp
  fix n assume "n < length (byte_bits ?b)"
  then have n: "n < 8" by simp
  have "\<not> bit old 8" using bit_imp_le_length [of old 8] by auto
  then have down: "bit (drop_bit 1 (old AND NOT (push_bit (off + 1) 1 - 1))) n \<longleftrightarrow>
      n < 7 \<and> off \<le> n \<and> bit old (Suc n)"
    unfolding bit_drop_bit_eq bit_and_iff bit_not_iff
    using n bit_low_mask [of "Suc n" "off + 1"] by (cases "n = 7") (auto simp: possible_bit_def)
  have seven: "bit (push_bit 7 bt) n \<longleftrightarrow> n = 7 \<and> bt = 1"
    unfolding bit_push_bit_iff using n assms(2) by (auto simp: possible_bit_def)
  have "bit ?b n \<longleftrightarrow> (if n = 7 then bt = 1 \<or> n < off \<and> bit old 7
      else if n < off then bit old n else bit old (Suc n))"
    unfolding bit_or_iff bit_and_iff down seven using n bit_low_mask [OF n, of off] by auto
  then show "byte_bits ?b ! n = ?xs ! n"
    unfolding byte_bits_nth [OF n] using n assms(1) by (auto simp: nth_append)
qed

section \<open>Whole vectors\<close>

lemma length_shiftHigher: "length (snd (shiftHigher c bs)) = length bs"
  by (induction c bs rule: shiftHigher.induct) (auto simp: case_prod_beta)

lemma length_shiftLower: "length (snd (shiftLower_loop c bs)) = length bs"
  by (induction c bs rule: shiftLower_loop.induct) (auto simp: case_prod_beta)

lemma bits_of_take: "bits_of (take k bs) = take (8 * k) (bits_of bs)"
proof (induction bs arbitrary: k)
  case (Cons b bs)
  then show ?case by (cases k) simp_all
qed simp

lemma bits_of_drop: "bits_of (drop k bs) = drop (8 * k) (bits_of bs)"
proof (induction bs arbitrary: k)
  case (Cons b bs)
  then show ?case by (cases k) simp_all
qed simp

lemma bits_of_at:
  assumes "k < length bs"
  shows "bits_of bs = take (8 * k) (bits_of bs) @ byte_bits (bs ! k) @ bits_of (drop (Suc k) bs)"
  using arg_cong [OF id_take_nth_drop [OF assms], of bits_of] by (simp add: bits_of_take)

lemma bits_of_update:
  assumes "k < length bs" and "off < 8" and "byte_bits x = (byte_bits (bs ! k))[off := c]"
  shows "bits_of (bs[k := x]) = (bits_of bs)[8 * k + off := c]"
proof -
  have "bits_of (bs[k := x]) = take (8 * k) (bits_of bs) @ byte_bits x @ bits_of (drop (Suc k) bs)"
    using assms(1) by (simp add: upd_conv_take_nth_drop bits_of_take)
  also have "\<dots> = (take (8 * k) (bits_of bs) @ byte_bits (bs ! k) @ bits_of (drop (Suc k) bs))[8 * k + off := c]"
    using assms by (simp add: list_update_append)
  finally show ?thesis using bits_of_at [OF assms(1)] by simp
qed

lemma take_length_add: "take (length xs + m) (xs @ ys) = xs @ take m ys"
  by simp

lemma bits_of_insert:
  assumes "k < length bs" and "off < 8" and "c = 0 \<or> c = 1"
    and "bit c 0 = byte_bits (bs ! k) ! 7"
    and x: "byte_bits x = take off (byte_bits (bs ! k)) @ b # drop off (take 7 (byte_bits (bs ! k)))"
  shows "bits_of (take k bs @ x # snd (shiftHigher c (drop (Suc k) bs))) =
    take (8 * length bs) (take (8 * k + off) (bits_of bs) @ b # drop (8 * k + off) (bits_of bs))"
proof -
  let ?B = "bits_of bs" and ?o = "byte_bits (bs ! k)" and ?P = "bits_of (drop (Suc k) bs)"
  have B: "?B = take (8 * k) ?B @ ?o @ ?P" by (rule bits_of_at [OF assms(1)])
  have lB: "length (take (8 * k) ?B) = 8 * k" using assms(1) by simp
  have t: "take (8 * k + off) ?B = take (8 * k) ?B @ take off ?o"
    by (subst B) (use lB assms(2) in simp)
  have d: "drop (8 * k + off) ?B = drop off ?o @ ?P"
    by (subst B) (use lB assms(2) in simp)
  have o7: "take 7 ?o @ [?o ! 7] = ?o" using take_Suc_conv_app_nth [of 7 ?o] by simp
  have "drop off (take 7 ?o @ [?o ! 7]) = drop off (take 7 ?o) @ [?o ! 7]" using assms(2) by simp
  then have d7: "drop off ?o = drop off (take 7 ?o) @ [?o ! 7]" unfolding o7 .
  let ?Z = "take (8 * k) ?B @ take off ?o @ b # drop off (take 7 ?o)"
  have len: "8 * length bs = length ?Z + 8 * length (drop (Suc k) bs)" using assms(1,2) lB by simp
  have "take (8 * k + off) ?B @ b # drop (8 * k + off) ?B = ?Z @ ?o ! 7 # ?P" unfolding t d d7 by simp
  then have "take (8 * length bs) (take (8 * k + off) ?B @ b # drop (8 * k + off) ?B)
      = ?Z @ take (8 * length (drop (Suc k) bs)) (?o ! 7 # ?P)"
    unfolding len by (simp only: take_length_add)
  also have "\<dots> = bits_of (take k bs @ x # snd (shiftHigher c (drop (Suc k) bs)))"
    using assms(3,4) by (simp add: x bits_of_take shiftHigher_bits)
  finally show ?thesis ..
qed

lemma bits_of_delete:
  assumes "k < length bs" and "off < 8" and "shiftLower 0 (drop (Suc k) bs) = (bt, post)"
    and x: "byte_bits x = take off (byte_bits (bs ! k)) @ drop (Suc off) (byte_bits (bs ! k)) @ [bt = 1]"
  shows "bits_of (take k bs @ x # post) =
    take (8 * k + off) (bits_of bs) @ drop (Suc (8 * k + off)) (bits_of bs) @ [False]"
proof -
  let ?B = "bits_of bs" and ?o = "byte_bits (bs ! k)" and ?P = "bits_of (drop (Suc k) bs)"
  have B: "?B = take (8 * k) ?B @ ?o @ ?P" by (rule bits_of_at [OF assms(1)])
  have lB: "length (take (8 * k) ?B) = 8 * k" using assms(1) by simp
  have t: "take (8 * k + off) ?B = take (8 * k) ?B @ take off ?o"
    by (subst B) (use lB assms(2) in simp)
  have d: "drop (Suc (8 * k + off)) ?B = drop (Suc off) ?o @ ?P"
    by (subst B) (use lB assms(2) in simp)
  have "bt = drop_bit 7 (push_bit 7 (if hd (?P @ [False]) then 1 else 0))" "bits_of post = tl (?P @ [False])"
    using shiftLower_bits [of 0 "drop (Suc k) bs"] assms(3) by (auto simp: shiftLower_def split: prod.splits)
  then have "(bt = 1) # bits_of post = ?P @ [False]" by (cases ?P) auto
  then show ?thesis by (simp add: x bits_of_take t d)
qed

lemma index_split:
  assumes "0 \<le> i" and "i < 2 ^ 32"
  shows "byteIndex i = nat i div 8" and "byteOffset i = nat i mod 8" and "byteOffset i < 8"
    and "8 * byteIndex i + byteOffset i = nat i"
proof -
  have "(i div 8) mod 2 ^ 32 = i div 8" using assms by simp
  then show a: "byteIndex i = nat i div 8" by (simp add: byteIndex_def nat_div_distrib)
  show b: "byteOffset i = nat i mod 8" using assms by (simp add: byteOffset_def nat_mod_distrib)
  show "byteOffset i < 8" "8 * byteIndex i + byteOffset i = nat i" unfolding a b by simp_all
qed

lemma bv_ok_index:
  assumes "bv_ok v" and "indexAssert v i"
  shows "byteIndex i < length (bv_data v)" and "0 \<le> i" and "i < 2 ^ 32"
    and "nat (bv_length v) \<le> 8 * length (bv_data v)"
proof -
  show i: "0 \<le> i" "i < 2 ^ 32" using assms by (auto simp: bv_ok_def indexAssert_def)
  have "int (nat i div 8) \<le> (bv_length v - 1) div 8"
    using assms i by (simp add: indexAssert_def zdiv_int zdiv_mono1)
  then show "byteIndex i < length (bv_data v)"
    using assms(1) index_split(1) [OF i] by (simp add: bv_ok_def bytesLength_def)
  show "nat (bv_length v) \<le> 8 * length (bv_data v)"
    using assms(1) unfolding bv_ok_def bytesLength_def by linarith
qed

text \<open>The slice after the length has grown by one.\<close>

definition bv_grown :: "bitvec \<Rightarrow> bv_byte list" where
  "bv_grown v = (if int (length (bv_data v)) < bytesLength (v\<lparr>bv_length := bv_length v + 1\<rparr>)
     then bv_data v @ [0] else bv_data v)"

lemma bv_grown_ok:
  assumes "bv_ok v"
  shows "int (length (bv_grown v)) = bytesLength (v\<lparr>bv_length := bv_length v + 1\<rparr>)"
    and "take (nat (bv_length v)) (bits_of (bv_grown v)) = bv_abs v"
    and "nat (bv_length v) < 8 * length (bv_grown v)"
proof -
  have l: "0 \<le> bv_length v" "int (length (bv_data v)) = (bv_length v - 1) div 8 + 1"
    using assms by (auto simp: bv_ok_def bytesLength_def)
  show g: "int (length (bv_grown v)) = bytesLength (v\<lparr>bv_length := bv_length v + 1\<rparr>)"
    using l by (auto simp: bv_grown_def bytesLength_def)
  show "nat (bv_length v) < 8 * length (bv_grown v)" using g l(1) by (simp add: bytesLength_def)
  have "nat (bv_length v) \<le> 8 * length (bv_data v)" using l by simp
  then show "take (nat (bv_length v)) (bits_of (bv_grown v)) = bv_abs v"
    by (simp add: bv_grown_def bv_abs_def)
qed

lemma bv_append_ok:
  assumes "bv_ok v" and "bv_length v + 1 < 2 ^ 32"
  shows "\<exists>v'. bv_append c v = Some v' \<and> bv_ok v' \<and> bv_abs v' = bv_abs v @ [c = 1]"
proof -
  let ?i = "bv_length v" and ?d = "bv_grown v"
  note g = bv_grown_ok [OF assms(1)]
  have i: "0 \<le> ?i" "?i < 2 ^ 32" using assms by (auto simp: bv_ok_def)
  note sp = index_split [OF i]
  have k: "byteIndex ?i < length ?d" using g(3) sp(1) by simp
  have e: "nat (?i mod 2 ^ 32 div 8) = byteIndex ?i" "nat (?i mod 2 ^ 32 mod 8) = byteOffset ?i"
    using i by (simp_all add: byteIndex_def byteOffset_def)
  let ?v' = "v\<lparr>bv_length := ?i + 1, bv_data := ?d[byteIndex ?i := set_bit_of c (?d ! byteIndex ?i) (byteOffset ?i)]\<rparr>"
  have "bv_append c v = Some ?v'"
    using k unfolding bv_append_def Let_def e by (simp add: bv_grown_def split: if_splits)
  moreover have "bv_ok ?v'" using g(1) i assms(2) by (simp add: bv_ok_def bytesLength_def)
  moreover have "bv_abs ?v' = bv_abs v @ [c = 1]"
  proof -
    have "bits_of (bv_data ?v') = (bits_of ?d)[nat ?i := (c = 1)]"
      using bits_of_update [OF k sp(3) byte_bits_set [OF sp(3)], of c] sp(4) by simp
    moreover have "take (Suc (nat ?i)) ((bits_of ?d)[nat ?i := (c = 1)]) = take (nat ?i) (bits_of ?d) @ [c = 1]"
      using g(3) by (simp add: take_Suc_conv_app_nth)
    ultimately show ?thesis using g(2) i by (simp add: bv_abs_def nat_add_distrib)
  qed
  ultimately show ?thesis by blast
qed

lemma bv_set_ok:
  assumes "bv_ok v" and "indexAssert v i"
  shows "\<exists>v'. bv_set c i v = Some v' \<and> bv_ok v' \<and> bv_abs v' = (bv_abs v)[nat i := (c = 1)]"
proof -
  note x = bv_ok_index [OF assms]
  note sp = index_split [OF x(2,3)]
  let ?v' = "v\<lparr>bv_data := (bv_data v)[byteIndex i := set_bit_of c (bv_data v ! byteIndex i) (byteOffset i)]\<rparr>"
  have "bv_set c i v = Some ?v'" using x(1) assms(2) by (simp add: bv_set_def Let_def)
  moreover have "bv_ok ?v'" using assms(1) by (simp add: bv_ok_def bytesLength_def)
  moreover have "bits_of (bv_data ?v') = (bits_of (bv_data v))[nat i := (c = 1)]"
    using bits_of_update [OF x(1) sp(3) byte_bits_set [OF sp(3)], of c] sp(4) by simp
  then have "bv_abs ?v' = (bv_abs v)[nat i := (c = 1)]" by (simp add: bv_abs_def take_update_swap)
  ultimately show ?thesis by blast
qed

lemma bv_element_ok:
  assumes "bv_ok v" and "indexAssert v i"
  shows "bv_element v i = Some (if bv_abs v ! nat i then 1 else 0)"
proof -
  note x = bv_ok_index [OF assms]
  note sp = index_split [OF x(2,3)]
  have k: "nat (i div 8) = byteIndex i" using x(2) sp(1) by (simp add: nat_div_distrib)
  let ?b = "bv_data v ! byteIndex i"
  have "bits_of (bv_data v) ! nat i = byte_bits ?b ! byteOffset i"
    unfolding sp(4) [symmetric] using x(1) sp(3) by (subst bits_of_at [OF x(1)]) (simp add: nth_append)
  then have "bv_abs v ! nat i = bit ?b (byteOffset i)"
    using sp(3) assms(2) by (simp add: bv_abs_def indexAssert_def)
  moreover have "drop_bit (byteOffset i) ?b AND 1 = (if bit ?b (byteOffset i) then 1 else 0)"
    by (simp add: and_one_eq mod2_eq_if bit_iff_odd_drop_bit)
  ultimately show ?thesis using x(1) assms(2) k by (simp add: bv_element_def)
qed

lemma take_insert:
  "i \<le> n \<Longrightarrow> n \<le> length B \<Longrightarrow>
   take (Suc n) (take i B @ b # drop i B) = take i (take n B) @ b # drop i (take n B)"
  by (simp add: Suc_diff_le drop_take min_absorb1 min_absorb2)

lemma take_delete:
  "i < n \<Longrightarrow> n \<le> length B \<Longrightarrow>
   take (n - 1) (take i B @ drop (Suc i) B @ [b]) = take i (take n B) @ drop (Suc i) (take n B)"
  by (simp add: drop_take min_absorb1 min_absorb2)

lemma bv_insert_ok:
  assumes "bv_ok v" and "indexAssert v i" and "bv_length v + 1 < 2 ^ 32"
  shows "\<exists>v'. bv_insert c i v = Some v' \<and> bv_ok v' \<and>
    bv_abs v' = take (nat i) (bv_abs v) @ (c = 1) # drop (nat i) (bv_abs v)"
proof -
  let ?d = "bv_grown v" and ?k = "byteIndex i" and ?off = "byteOffset i"
  note g = bv_grown_ok [OF assms(1)] and x = bv_ok_index [OF assms(1,2)]
  note sp = index_split [OF x(2,3)]
  have i: "nat i < nat (bv_length v)" using assms(2) by (simp add: indexAssert_def)
  have k: "?k < length ?d" unfolding sp(1) using g(3) i by linarith
  let ?old = "?d ! ?k"
  define nb where "nb = (if c = 1 then push_bit ?off 1 else 0) OR (?old AND (push_bit ?off 1 - 1)) OR
      push_bit 1 (?old AND NOT (push_bit ?off 1 - 1))"
  define left where "left = drop_bit 7 (?old AND 0x80)"
  let ?v' = "v\<lparr>bv_length := bv_length v + 1, bv_data := take ?k ?d @ nb # snd (shiftHigher left (drop (Suc ?k) ?d))\<rparr>"
  let ?v1 = "v\<lparr>bv_length := bv_length v + 1\<rparr>"
  have gr: "(if int (length (bv_data ?v1)) < bytesLength ?v1 then bv_data ?v1 @ [0] else bv_data ?v1) = ?d"
    by (simp add: bv_grown_def)
  have "bv_insert c i v = Some ?v'"
    unfolding bv_insert_def Let_def gr nb_def left_def using k assms(2) by simp
  moreover have "length (bv_data ?v') = length ?d"
    using k by (simp add: length_shiftHigher)
  then have "bv_ok ?v'" using g(1) assms(1,3) by (simp add: bv_ok_def bytesLength_def)
  moreover have "bv_abs ?v' = take (nat i) (bv_abs v) @ (c = 1) # drop (nat i) (bv_abs v)"
  proof -
    have nbb: "byte_bits nb = take ?off (byte_bits ?old) @ (c = 1) # drop ?off (take 7 (byte_bits ?old))"
      unfolding nb_def by (rule byte_bits_insert [OF sp(3)])
    have lf: "left = (if bit ?old 7 then 1 else 0)" unfolding left_def by (rule top_bit)
    have "bits_of (take ?k ?d @ nb # snd (shiftHigher left (drop (Suc ?k) ?d))) =
        take (8 * length ?d) (take (nat i) (bits_of ?d) @ (c = 1) # drop (nat i) (bits_of ?d))"
      unfolding sp(4) [symmetric] by (rule bits_of_insert [OF k sp(3) _ _ nbb]) (simp_all add: lf)
    then have "bits_of (bv_data ?v') = take (8 * length ?d) (take (nat i) (bits_of ?d) @ (c = 1) # drop (nat i) (bits_of ?d))"
      by simp
    moreover have "take (Suc (nat (bv_length v))) (take (nat i) (bits_of ?d) @ (c = 1) # drop (nat i) (bits_of ?d)) =
        take (nat i) (bv_abs v) @ (c = 1) # drop (nat i) (bv_abs v)"
      unfolding g(2) [symmetric] by (rule take_insert) (use i g(3) length_bits_of [of ?d] in linarith)+
    moreover have "Suc (nat (bv_length v)) \<le> 8 * length ?d" using g(3) by simp
    ultimately show ?thesis using i by (simp add: bv_abs_def nat_add_distrib min_absorb1 del: take_append)
  qed
  ultimately show ?thesis by blast
qed

lemma shiftLower_bit: "fst (shiftLower 0 bs) = 0 \<or> fst (shiftLower 0 bs) = 1"
  using shiftLower_bits [of 0 bs] by (auto simp: shiftLower_def case_prod_beta)

lemma bv_delete_ok:
  assumes "bv_ok v" and "indexAssert v i"
  shows "\<exists>v'. bv_delete i v = Some v' \<and> bv_ok v' \<and>
    bv_abs v' = take (nat i) (bv_abs v) @ drop (Suc (nat i)) (bv_abs v)"
proof -
  let ?d = "bv_data v" and ?k = "byteIndex i" and ?off = "byteOffset i" and ?n = "nat (bv_length v)"
  note x = bv_ok_index [OF assms]
  note sp = index_split [OF x(2,3)]
  have i: "nat i < ?n" using assms(2) by (simp add: indexAssert_def)
  let ?old = "?d ! ?k"
  obtain bt post where sl: "shiftLower 0 (drop (Suc ?k) ?d) = (bt, post)" by fastforce
  then have bt: "bt = 0 \<or> bt = 1" using shiftLower_bit [of "drop (Suc ?k) ?d"] by simp
  define nb where "nb = ((push_bit ?off 1 - 1) AND ?old) OR
      (drop_bit 1 (?old AND NOT (push_bit (?off + 1) 1 - 1)) OR push_bit 7 bt)"
  define data where "data = take ?k ?d @ nb # post"
  let ?m = "bytesLength (v\<lparr>bv_length := bv_length v - 1\<rparr>)"
  let ?v' = "v\<lparr>bv_length := bv_length v - 1, bv_data := if ?m < int (length data) then take (nat ?m) data else data\<rparr>"
  have "length post = length ?d - Suc ?k"
    using sl length_shiftLower [of "push_bit 7 0" "drop (Suc ?k) ?d"] by (simp add: shiftLower_def case_prod_beta)
  then have len: "length data = length ?d" using x(1) by (simp add: data_def)
  have m: "0 \<le> ?m" "?m \<le> int (length ?d)" "?n - 1 \<le> 8 * nat ?m"
    using assms i unfolding bv_ok_def bytesLength_def indexAssert_def by auto
  have "bv_delete i v = Some ?v'"
    using x(1) assms(2) sl unfolding bv_delete_def Let_def nb_def data_def by (simp add: not_le)
  moreover have "int (length (bv_data ?v')) = ?m" using m len by (auto simp: min_def)
  then have "bv_ok ?v'" using assms i by (simp add: bv_ok_def bytesLength_def indexAssert_def)
  moreover have "bv_abs ?v' = take (nat i) (bv_abs v) @ drop (Suc (nat i)) (bv_abs v)"
  proof -
    have b: "bits_of data = take (nat i) (bits_of ?d) @ drop (Suc (nat i)) (bits_of ?d) @ [False]"
      unfolding sp(4) [symmetric] data_def
      using bits_of_delete [OF x(1) sp(3) sl, of nb] byte_bits_delete [OF sp(3) bt, of ?old]
      by (simp add: nb_def)
    have "bits_of (bv_data ?v') = take (8 * nat ?m) (bits_of data)"
      using m len by (auto simp: bits_of_take)
    moreover have "nat (bv_length v - 1) = ?n - 1" by simp
    ultimately have "bv_abs ?v' = take (?n - 1) (bits_of data)"
      using m(3) by (simp add: bv_abs_def nat_diff_distrib min_absorb1)
    also have "\<dots> = take (nat i) (take ?n (bits_of ?d)) @ drop (Suc (nat i)) (take ?n (bits_of ?d))"
      unfolding b by (rule take_delete [OF i]) (use x(4) in simp)
    finally show ?thesis by (simp add: bv_abs_def)
  qed
  ultimately show ?thesis by blast
qed

section \<open>Properties\<close>

text \<open>
  C25.  The bit vector implements lists of bits.  On a well-formed vector with room for another
  position, \<open>Append\<close>, \<open>Insert\<close>, \<open>Delete\<close> and \<open>Set\<close> return well-formed vectors that hold the list with the bit
  appended, inserted, deleted or replaced, and \<open>Element\<close> returns the bit of the list.
\<close>

theorem bitvector_refines_list:
  assumes "bv_ok v" and "bv_length v + 1 < 2 ^ 32" and "0 \<le> i" and "i < bv_length v"
  shows "(\<exists>v'. bv_append c v = Some v' \<and> bv_ok v' \<and> bv_abs v' = bv_abs v @ [c = 1]) \<and>
    (\<exists>v'. bv_insert c i v = Some v' \<and> bv_ok v' \<and>
       bv_abs v' = take (nat i) (bv_abs v) @ (c = 1) # drop (nat i) (bv_abs v)) \<and>
    (\<exists>v'. bv_delete i v = Some v' \<and> bv_ok v' \<and> bv_abs v' = take (nat i) (bv_abs v) @ drop (Suc (nat i)) (bv_abs v)) \<and>
    (\<exists>v'. bv_set c i v = Some v' \<and> bv_ok v' \<and> bv_abs v' = (bv_abs v)[nat i := (c = 1)]) \<and>
    bv_element v i = Some (if bv_abs v ! nat i then 1 else 0)"
proof -
  have "indexAssert v i" using assms(3,4) by (simp add: indexAssert_def)
  then show ?thesis
    using bv_append_ok [OF assms(1,2)] bv_insert_ok [OF assms(1) _ assms(2)] bv_delete_ok [OF assms(1)]
      bv_set_ok [OF assms(1)] bv_element_ok [OF assms(1)] by blast
qed

theorem bitvector_refines_list_witness:
  "bv_ok (newBitVector [0xA5, 1] 9) \<and>
   bv_abs (newBitVector [0xA5, 1] 9) = [True, False, True, False, False, True, False, True, True] \<and>
   (\<exists>v'. bv_delete 1 (newBitVector [0xA5, 1] 9) = Some v' \<and>
      bv_abs v' = [True, True, False, False, True, False, True, True])"
proof -
  have ok: "bv_ok (newBitVector [0xA5, 1] 9)" by (simp add: bv_ok_def newBitVector_def bytesLength_def)
  have abs: "bv_abs (newBitVector [0xA5, 1] 9) = [True, False, True, False, False, True, False, True, True]"
    by code_simp
  show ?thesis
    using bitvector_refines_list [OF ok, of 1 0] ok by (simp add: abs) (auto simp: newBitVector_def)
qed

text \<open>
  Positions outside the vector make \<open>Element\<close>, \<open>Set\<close>, \<open>Insert\<close> and \<open>Delete\<close> panic; in
  particular, \<open>Insert\<close> does not insert at the end.
\<close>

theorem bitvector_bounds:
  assumes "i < 0 \<or> bv_length v \<le> i"
  shows "bv_element v i = None \<and> bv_set c i v = None \<and> bv_insert c i v = None \<and> bv_delete i v = None"
  using assms by (auto simp: bv_element_def bv_set_def bv_insert_def bv_delete_def indexAssert_def)

theorem bitvector_bounds_witness: "bv_insert 1 9 (newBitVector [0xA5, 1] 9) = None"
  using bitvector_bounds [of 9 "newBitVector [0xA5, 1] 9" 1] by (simp add: newBitVector_def)

end
