(* ===== verification/Util_Queue.thy ===== *)
theory Util_Queue
  imports Opa_Prelude
begin

text \<open>
  The queues of util/queue.go.  Both are linked lists of nodes; the FIFO appends a node by writing
  the \<open>next\<close> field of the last one, so that its nodes live in a store of cells.  The contract
  \<open>worklist\<close> is what the graph searches need of a queue: pushing adds an element, popping removes
  the first, and the size counts the elements.
\<close>

section \<open>The contract\<close>

locale worklist =
  fixes emp :: 'q
    and push :: "'a \<Rightarrow> 'q \<Rightarrow> 'q"
    and pop :: "'q \<Rightarrow> 'a option \<times> 'q"
    and size_of :: "'q \<Rightarrow> int"
    and items :: "'q \<Rightarrow> 'a list"
    and inv :: "'q \<Rightarrow> bool"
  assumes inv_emp: "inv emp" "items emp = []"
    and inv_push: "inv q \<Longrightarrow> inv (push x q)"
    and items_push: "inv q \<Longrightarrow> mset (items (push x q)) = add_mset x (mset (items q))"
    and pop_empty: "inv q \<Longrightarrow> items q = [] \<Longrightarrow> pop q = (None, q)"
    and pop_some: "inv q \<Longrightarrow> items q = x # xs \<Longrightarrow> \<exists>q'. pop q = (Some x, q') \<and> inv q' \<and> items q' = xs"
    and size_items: "inv q \<Longrightarrow> size_of q = int (length (items q))"
begin

lemma push_all:
  "inv q \<Longrightarrow> inv (fold push xs q) \<and> mset (items (fold push xs q)) = mset xs + mset (items q)"
proof (induction xs arbitrary: q)
  case (Cons x xs)
  then show ?case using Cons.IH [of "push x q"] inv_push [of q x] items_push [of q x] by simp
qed simp

lemma push_all_set: "inv q \<Longrightarrow> set (items (fold push xs q)) = set xs \<union> set (items q)"
  using push_all [of q xs] by (metis set_mset_mset set_mset_union)

end

section \<open>LIFO\<close>

text \<open>The nodes of a LIFO are never changed once they are linked: the chain from \<open>top\<close> is a list.\<close>

record 'a lifo =
  l_top :: "'a list"
  l_size :: int

definition lifo_empty :: "'a lifo" where
  "lifo_empty = \<lparr>l_top = [], l_size = 0\<rparr>"

definition lifo_push :: "'a \<Rightarrow> 'a lifo \<Rightarrow> 'a lifo" where
  "lifo_push t s = \<lparr>l_top = t # l_top s, l_size = l_size s + 1\<rparr>"

definition newLIFO :: "'a list \<Rightarrow> 'a lifo" where
  "newLIFO ts = fold lifo_push ts lifo_empty"

definition lifo_peek :: "'a lifo \<Rightarrow> 'a option" where
  "lifo_peek s = (case l_top s of [] \<Rightarrow> None | v # _ \<Rightarrow> Some v)"

definition lifo_pop :: "'a lifo \<Rightarrow> 'a option \<times> 'a lifo" where
  "lifo_pop s =
     (case l_top s of
        [] \<Rightarrow> (None, s)
      | v # next \<Rightarrow> (Some v, \<lparr>l_top = next, l_size = l_size s - 1\<rparr>))"

definition lifo_size :: "'a lifo \<Rightarrow> int" where
  "lifo_size s = l_size s"

definition lifo_ok :: "'a lifo \<Rightarrow> bool" where
  "lifo_ok s \<longleftrightarrow> l_size s = int (length (l_top s))"

interpretation lifo: worklist lifo_empty lifo_push lifo_pop lifo_size l_top lifo_ok
  by unfold_locales (auto simp: lifo_empty_def lifo_push_def lifo_pop_def lifo_size_def lifo_ok_def)

section \<open>FIFO\<close>

record 'a queue_node =
  qn_v :: 'a
  qn_next :: "nat option"

record 'a fifo =
  f_nodes :: "nat \<rightharpoonup> 'a queue_node"
  f_fresh :: nat
  f_front :: "nat option"
  f_back :: "nat option"
  f_size :: int

definition fifo_empty :: "'a fifo" where
  "fifo_empty = \<lparr>f_nodes = \<lambda>_. None, f_fresh = 0, f_front = None, f_back = None, f_size = 0\<rparr>"

text \<open>Writing the \<open>next\<close> field of a node.\<close>

definition set_next :: "nat option \<Rightarrow> nat \<Rightarrow> (nat \<rightharpoonup> 'a queue_node) \<Rightarrow> (nat \<rightharpoonup> 'a queue_node)" where
  "set_next p n m =
     (case p of None \<Rightarrow> m | Some b \<Rightarrow>
        (case m b of None \<Rightarrow> m | Some nd \<Rightarrow> m(b \<mapsto> nd\<lparr>qn_next := Some n\<rparr>)))"

definition fifo_push :: "'a \<Rightarrow> 'a fifo \<Rightarrow> 'a fifo" where
  "fifo_push t s =
     (let node = f_fresh s;
          nodes = (f_nodes s)(node \<mapsto> \<lparr>qn_v = t, qn_next = None\<rparr>)
      in if f_front s = None
         then \<lparr>f_nodes = nodes, f_fresh = node + 1, f_front = Some node, f_back = Some node, f_size = f_size s + 1\<rparr>
         else \<lparr>f_nodes = set_next (f_back s) node nodes, f_fresh = node + 1, f_front = f_front s,
               f_back = Some node, f_size = f_size s + 1\<rparr>)"

definition newFIFO :: "'a list \<Rightarrow> 'a fifo" where
  "newFIFO ts = fold fifo_push ts fifo_empty"

definition fifo_peek :: "'a fifo \<Rightarrow> 'a option" where
  "fifo_peek s = Option.bind (f_front s) (\<lambda>p. map_option qn_v (f_nodes s p))"

definition fifo_pop :: "'a fifo \<Rightarrow> 'a option \<times> 'a fifo" where
  "fifo_pop s =
     (case f_front s of
        None \<Rightarrow> (None, s)
      | Some p \<Rightarrow> (case f_nodes s p of
            None \<Rightarrow> (None, s)
          | Some nd \<Rightarrow> (Some (qn_v nd), s\<lparr>f_front := qn_next nd, f_size := f_size s - 1\<rparr>)))"

definition fifo_size :: "'a fifo \<Rightarrow> int" where
  "fifo_size s = f_size s"

text \<open>The elements in order: the chain of nodes from the front.\<close>

fun walk :: "nat \<Rightarrow> (nat \<rightharpoonup> 'a queue_node) \<Rightarrow> nat option \<Rightarrow> 'a list" where
  "walk 0 m p = []"
| "walk (Suc k) m p =
     (case p of None \<Rightarrow> [] | Some n \<Rightarrow>
        (case m n of None \<Rightarrow> [] | Some nd \<Rightarrow> qn_v nd # walk k m (qn_next nd)))"

definition fifo_items :: "'a fifo \<Rightarrow> 'a list" where
  "fifo_items s = walk (nat (f_size s)) (f_nodes s) (f_front s)"

fun linked :: "(nat \<rightharpoonup> 'a queue_node) \<Rightarrow> nat option \<Rightarrow> nat list \<Rightarrow> bool" where
  "linked m p [] = (p = None)"
| "linked m p (n # ns) = (p = Some n \<and> (case m n of None \<Rightarrow> False | Some nd \<Rightarrow> linked m (qn_next nd) ns))"

definition fifo_ok :: "'a fifo \<Rightarrow> bool" where
  "fifo_ok s \<longleftrightarrow> (\<exists>ns. linked (f_nodes s) (f_front s) ns \<and> distinct ns \<and> (\<forall>n \<in> set ns. n < f_fresh s) \<and>
     f_size s = int (length ns) \<and> (ns \<noteq> [] \<longrightarrow> f_back s = Some (last ns)))"

lemma walk_linked:
  "linked m p ns \<Longrightarrow> walk (length ns) m p = map (\<lambda>n. qn_v (the (m n))) ns"
  by (induction m p ns rule: linked.induct) (auto split: option.splits)

lemma linked_frame:
  "linked m p ns \<Longrightarrow> \<forall>n \<in> set ns. m' n = m n \<Longrightarrow> linked m' p ns"
  by (induction m p ns rule: linked.induct) (auto split: option.splits)

lemma linked_append:
  assumes "linked m p ns" and "ns \<noteq> []" and "distinct ns" and "new \<notin> set ns" and "m new = Some \<lparr>qn_v = t, qn_next = None\<rparr>"
  shows "linked (set_next (Some (last ns)) new m) p (ns @ [new])"
  using assms
proof (induction m p ns rule: linked.induct)
  case (2 m p n ns)
  then obtain nd where nd: "m n = Some nd" "linked m (qn_next nd) ns" "p = Some n"
    by (auto split: option.splits)
  show ?case
  proof (cases "ns = []")
    case True
    then show ?thesis using 2 nd by (auto simp: set_next_def)
  next
    case False
    then have IH: "linked (set_next (Some (last ns)) new m) (qn_next nd) (ns @ [new])"
      using "2.IH" [OF nd(1,2) False] "2.prems" by auto
    have "n \<noteq> last ns" using "2.prems"(3) False by auto
    then have "set_next (Some (last ns)) new m n = Some nd"
      using nd(1) by (auto simp: set_next_def split: option.split)
    then show ?thesis using IH False nd(3) by simp
  qed
qed simp

lemma fifo_items_linked:
  assumes "linked (f_nodes s) (f_front s) ns" and "f_size s = int (length ns)"
  shows "fifo_items s = map (\<lambda>n. qn_v (the (f_nodes s n))) ns"
  using walk_linked [OF assms(1)] assms(2) by (simp add: fifo_items_def)

lemma set_next_v: "m n \<noteq> None \<Longrightarrow> qn_v (the (set_next p k m n)) = qn_v (the (m n))"
  by (auto simp: set_next_def split: option.split)

lemma linked_dom: "linked m p ns \<Longrightarrow> n \<in> set ns \<Longrightarrow> m n \<noteq> None"
  by (induction m p ns rule: linked.induct) (auto split: option.splits)

lemma fifo_push_ok:
  assumes "fifo_ok s"
  shows "fifo_ok (fifo_push t s)" and "fifo_items (fifo_push t s) = fifo_items s @ [t]"
proof -
  obtain ns where ns: "linked (f_nodes s) (f_front s) ns" "distinct ns" "\<forall>n \<in> set ns. n < f_fresh s"
      "f_size s = int (length ns)" "ns \<noteq> [] \<longrightarrow> f_back s = Some (last ns)"
    using assms by (auto simp: fifo_ok_def)
  let ?new = "f_fresh s" and ?m = "(f_nodes s)(f_fresh s \<mapsto> \<lparr>qn_v = t, qn_next = None\<rparr>)"
  have new: "?new \<notin> set ns" using ns(3) by auto
  have l: "linked ?m (f_front s) ns" using linked_frame [OF ns(1)] new by (metis fun_upd_other)
  have front: "f_front s = None \<longleftrightarrow> ns = []" using ns(1) by (cases ns) auto
  have "linked (f_nodes (fifo_push t s)) (f_front (fifo_push t s)) (ns @ [?new])"
  proof (cases "ns = []")
    case True
    then show ?thesis using front by (simp add: fifo_push_def Let_def)
  next
    case False
    then show ?thesis
      using linked_append [OF l False ns(2) new] ns(5) front by (auto simp: fifo_push_def Let_def)
  qed
  moreover have size: "f_size (fifo_push t s) = int (length (ns @ [?new]))"
    using ns(4) by (simp add: fifo_push_def Let_def)
  moreover have "f_back (fifo_push t s) = Some ?new" "f_fresh (fifo_push t s) = ?new + 1"
    by (simp_all add: fifo_push_def Let_def)
  ultimately show "fifo_ok (fifo_push t s)"
    unfolding fifo_ok_def using ns(2,3) new by (intro exI [of _ "ns @ [?new]"]) auto
  have v: "qn_v (the (f_nodes (fifo_push t s) n)) = qn_v (the (?m n))" if "?m n \<noteq> None" for n
  proof -
    have "f_nodes (fifo_push t s) = (if f_front s = None then ?m else set_next (f_back s) ?new ?m)"
      by (simp add: fifo_push_def Let_def)
    moreover have "qn_v (the (set_next (f_back s) ?new ?m n)) = qn_v (the (?m n))"
      using that by (rule set_next_v)
    ultimately show ?thesis by (simp only: split: if_split) simp
  qed
  have "fifo_items (fifo_push t s) = map (\<lambda>n. qn_v (the (f_nodes (fifo_push t s) n))) (ns @ [?new])"
    by (rule fifo_items_linked) fact+
  also have "\<dots> = map (\<lambda>n. qn_v (the (?m n))) (ns @ [?new])"
    using v linked_dom [OF l] by auto
  also have "\<dots> = map (\<lambda>n. qn_v (the (f_nodes s n))) ns @ [t]" using new by auto
  finally show "fifo_items (fifo_push t s) = fifo_items s @ [t]"
    using fifo_items_linked [OF ns(1,4)] by simp
qed

lemma fifo_pop_ok:
  assumes "fifo_ok s" and "fifo_items s = x # xs"
  shows "\<exists>s'. fifo_pop s = (Some x, s') \<and> fifo_ok s' \<and> fifo_items s' = xs"
proof -
  obtain ns where ns: "linked (f_nodes s) (f_front s) ns" "distinct ns" "\<forall>n \<in> set ns. n < f_fresh s"
      "f_size s = int (length ns)" "ns \<noteq> [] \<longrightarrow> f_back s = Some (last ns)"
    using assms(1) by (auto simp: fifo_ok_def)
  have it: "fifo_items s = map (\<lambda>n. qn_v (the (f_nodes s n))) ns" by (rule fifo_items_linked [OF ns(1,4)])
  then obtain n ms where n: "ns = n # ms" using assms(2) by (cases ns) auto
  then obtain nd where nd: "f_front s = Some n" "f_nodes s n = Some nd" "linked (f_nodes s) (qn_next nd) ms"
    using ns(1) by (auto split: option.splits)
  let ?s = "s\<lparr>f_front := qn_next nd, f_size := f_size s - 1\<rparr>"
  have "fifo_ok ?s" unfolding fifo_ok_def using nd(3) ns n by (intro exI [of _ ms]) auto
  moreover have "fifo_items ?s = map (\<lambda>n. qn_v (the (f_nodes ?s n))) ms"
    by (rule fifo_items_linked) (use nd(3) ns(4) n in auto)
  ultimately show ?thesis using it assms(2) n nd by (simp add: fifo_pop_def)
qed

interpretation fifo: worklist fifo_empty fifo_push fifo_pop fifo_size fifo_items fifo_ok
proof
  show "fifo_ok (fifo_empty :: 'a fifo)"
    unfolding fifo_ok_def by (intro exI [of _ "[]"]) (simp add: fifo_empty_def)
  show "fifo_items (fifo_empty :: 'a fifo) = []" by (simp add: fifo_items_def fifo_empty_def)
  fix s :: "'a fifo" assume s: "fifo_ok s"
  then obtain ns where ns: "linked (f_nodes s) (f_front s) ns" "f_size s = int (length ns)"
    by (auto simp: fifo_ok_def)
  note it = fifo_items_linked [OF ns]
  show "fifo_size s = int (length (fifo_items s))" using it ns(2) by (simp add: fifo_size_def)
  show "fifo_pop s = (None, s)" if "fifo_items s = []"
    using that it ns(1) by (cases ns) (simp_all add: fifo_pop_def)
qed (simp_all add: fifo_push_ok fifo_pop_ok)

section \<open>Properties\<close>

text \<open>
  The linked FIFO refines a list: on a well-formed queue \<open>Push\<close> appends to the end, \<open>Pop\<close> and
  \<open>Peek\<close> take the first element, \<open>Size\<close> counts the elements, an empty queue reports that it is
  empty, and pushing after the queue was emptied works although the back pointer is stale.
\<close>

theorem fifo_refines_list:
  assumes "fifo_ok s"
  shows "fifo_ok (fifo_push t s) \<and> fifo_items (fifo_push t s) = fifo_items s @ [t] \<and>
    fifo_size s = int (length (fifo_items s)) \<and>
    (case fifo_items s of
       [] \<Rightarrow> fifo_pop s = (None, s) \<and> fifo_peek s = None
     | x # xs \<Rightarrow> fifo_peek s = Some x \<and> (\<exists>s'. fifo_pop s = (Some x, s') \<and> fifo_ok s' \<and> fifo_items s' = xs))"
proof -
  have "fifo_peek s = fst (fifo_pop s)"
    by (auto simp: fifo_peek_def fifo_pop_def split: option.split)
  then show ?thesis
    using fifo_push_ok [OF assms] fifo.size_items [OF assms] fifo.pop_empty [OF assms] fifo_pop_ok [OF assms]
    by (auto split: list.split)
qed

theorem fifo_refines_list_witness:
  "fifo_ok (fifo_empty :: nat fifo) \<and> fifo_items (fifo_push (7 :: nat) fifo_empty) = [7]"
proof -
  have ok: "fifo_ok (fifo_empty :: nat fifo)" by (rule fifo.inv_emp)
  show ?thesis using fifo_refines_list [OF ok, of 7] ok fifo.inv_emp(2) by simp
qed

end
