(* ===== verification/Util_Graph.thy ===== *)
theory Util_Graph
  imports Util_Queue
begin

text \<open>
  Graph searches (util/graph.go).  A traversal is given by its edges and by a visited test that
  may change the traversal's state; the callback may change a state of its own.  The two searches
  of the code have the same loop and differ in the queue: \<open>search\<close> is that loop, over the
  operations of a queue.  The loop may run forever and is partial.

  \<open>visited_set\<close> is the visited test of \<open>ast.GraphTraversal\<close>, which keeps the set of the nodes it was
  asked about.
\<close>

partial_function (option) search ::
  "('a \<Rightarrow> 'q \<Rightarrow> 'q) \<Rightarrow> ('q \<Rightarrow> 'a option \<times> 'q) \<Rightarrow> ('q \<Rightarrow> int) \<Rightarrow>
   ('a \<Rightarrow> 'a list) \<Rightarrow> ('a \<Rightarrow> 'v \<Rightarrow> bool \<times> 'v) \<Rightarrow> ('a \<Rightarrow> 's \<Rightarrow> bool \<times> 's) \<Rightarrow>
   'q \<Rightarrow> 'v \<Rightarrow> 's \<Rightarrow> (bool \<times> 'v \<times> 's) option" where
  "search push pop size_of edges visited f q vs st =
     (if size_of q \<le> 0 then Some (False, vs, st)
      else case pop q of (front, q') \<Rightarrow>
        (case front of
           None \<Rightarrow> None
         | Some next \<Rightarrow>
             (case visited next vs of (seen, vs') \<Rightarrow>
                if seen then search push pop size_of edges visited f q' vs' st
                else case f next st of (stop, st') \<Rightarrow>
                  if stop then Some (True, vs', st')
                  else search push pop size_of edges visited f (fold push (edges next) q') vs' st')))"

declare search.simps [code]

definition DFS :: "('a \<Rightarrow> 'a list) \<Rightarrow> ('a \<Rightarrow> 'v \<Rightarrow> bool \<times> 'v) \<Rightarrow> ('a \<Rightarrow> 's \<Rightarrow> bool \<times> 's) \<Rightarrow>
    'a \<Rightarrow> 'v \<Rightarrow> 's \<Rightarrow> (bool \<times> 'v \<times> 's) option" where
  "DFS edges visited f u vs st = search lifo_push lifo_pop lifo_size edges visited f (newLIFO [u]) vs st"

definition BFS :: "('a \<Rightarrow> 'a list) \<Rightarrow> ('a \<Rightarrow> 'v \<Rightarrow> bool \<times> 'v) \<Rightarrow> ('a \<Rightarrow> 's \<Rightarrow> bool \<times> 's) \<Rightarrow>
    'a \<Rightarrow> 'v \<Rightarrow> 's \<Rightarrow> (bool \<times> 'v \<times> 's) option" where
  "BFS edges visited f u vs st = search fifo_push fifo_pop fifo_size edges visited f (newFIFO [u]) vs st"

definition visited_set :: "'a \<Rightarrow> 'a set \<Rightarrow> bool \<times> 'a set" where
  "visited_set u vs = (u \<in> vs, insert u vs)"

text \<open>A callback that records the nodes it is called with and stops at a node with property P.\<close>

definition record_until :: "('a \<Rightarrow> bool) \<Rightarrow> 'a \<Rightarrow> 'a list \<Rightarrow> bool \<times> 'a list" where
  "record_until P x log = (P x, log @ [x])"

section \<open>Reachable nodes\<close>

definition edge_rel :: "('a \<Rightarrow> 'a list) \<Rightarrow> ('a \<times> 'a) set" where
  "edge_rel edges = {(u, v). v \<in> set (edges u)}"

definition reachable :: "('a \<Rightarrow> 'a list) \<Rightarrow> 'a \<Rightarrow> 'a set" where
  "reachable edges u = {v. (u, v) \<in> (edge_rel edges)\<^sup>*}"

lemma reachable_step: "x \<in> reachable edges u \<Longrightarrow> set (edges x) \<subseteq> reachable edges u"
  by (auto simp: reachable_def edge_rel_def intro: rtrancl_into_rtrancl)

lemma reachable_closed:
  assumes "u \<in> S" and "\<And>x. x \<in> S \<Longrightarrow> set (edges x) \<subseteq> S"
  shows "reachable edges u \<subseteq> S"
proof
  fix v assume "v \<in> reachable edges u"
  then have "(u, v) \<in> (edge_rel edges)\<^sup>*" by (simp add: reachable_def)
  then show "v \<in> S" by induction (use assms in \<open>auto simp: edge_rel_def\<close>)
qed

section \<open>The search over any worklist\<close>

context worklist
begin

definition search_inv :: "('a \<Rightarrow> 'a list) \<Rightarrow> ('a \<Rightarrow> bool) \<Rightarrow> 'a \<Rightarrow> 'q \<Rightarrow> 'a set \<Rightarrow> 'a list \<Rightarrow> bool" where
  "search_inv edges P u q vs log \<longleftrightarrow>
     inv q \<and> set (items q) \<subseteq> reachable edges u \<and> vs \<subseteq> reachable edges u \<and>
     u \<in> vs \<union> set (items q) \<and> (\<forall>x \<in> vs. set (edges x) \<subseteq> vs \<union> set (items q)) \<and>
     set log = vs \<and> distinct log \<and> (\<forall>x \<in> vs. \<not> P x)"

lemma search_result:
  assumes "finite (reachable edges u)" and "search_inv edges P u q vs log"
  shows "\<exists>b vs' log'. search push pop size_of edges visited_set (record_until P) q vs log = Some (b, vs', log') \<and>
    distinct log' \<and> set log' \<subseteq> reachable edges u \<and>
    (if b then log' \<noteq> [] \<and> P (last log') else set log' = reachable edges u \<and> (\<forall>x \<in> reachable edges u. \<not> P x))"
  using assms(2)
proof (induction "(card (reachable edges u - vs), length (items q))" arbitrary: q vs log
    rule: wf_induct_rule [OF wf_lex_prod [OF wf_less wf_less]])
  case 1
  let ?R = "reachable edges u"
  let ?search = "search push pop size_of edges visited_set (record_until P)"
  have inv: "inv q" using "1.prems" by (simp add: search_inv_def)
  show ?case
  proof (cases "items q")
    case Nil
    then have "size_of q \<le> 0" using size_items [OF inv] by simp
    then have "?search q vs log = Some (False, vs, log)" by (simp add: search.simps)
    moreover have "?R \<subseteq> vs" using "1.prems" Nil by (intro reachable_closed) (auto simp: search_inv_def)
    then have "vs = ?R" using "1.prems" by (auto simp: search_inv_def)
    ultimately show ?thesis using "1.prems" by (auto simp: search_inv_def)
  next
    case (Cons x xs)
    then obtain q' where q': "pop q = (Some x, q')" "inv q'" "items q' = xs" using pop_some [OF inv] by blast
    have size: "\<not> size_of q \<le> 0" using size_items [OF inv] Cons by simp
    have xR: "x \<in> ?R" using "1.prems" Cons by (simp add: search_inv_def)
    show ?thesis
    proof (cases "x \<in> vs")
      case True
      then have "visited_set x vs = (True, vs)" by (auto simp: visited_set_def)
      then have step: "?search q vs log = ?search q' vs log"
        using size q'(1) by (subst search.simps) simp
      have "search_inv edges P u q' vs log" using "1.prems" Cons q' True by (auto simp: search_inv_def)
      then show ?thesis unfolding step by (intro "1.hyps") (auto simp: q' Cons)
    next
      case new: False
      then have v: "visited_set x vs = (False, insert x vs)" by (simp add: visited_set_def)
      show ?thesis
      proof (cases "P x")
        case True
        then have "?search q vs log = Some (True, insert x vs, log @ [x])"
          using size q'(1) v by (subst search.simps) (simp add: record_until_def)
        then show ?thesis using True "1.prems" new xR by (auto simp: search_inv_def)
      next
        case False
        let ?q = "fold push (edges x) q'"
        have step: "?search q vs log = ?search ?q (insert x vs) (log @ [x])"
          using size q'(1) v False by (subst search.simps) (simp add: record_until_def)
        have it: "inv ?q" "set (items ?q) = set (edges x) \<union> set xs"
          using push_all [OF q'(2), of "edges x"] push_all_set [OF q'(2), of "edges x"] q'(3) by auto
        have "search_inv edges P u ?q (insert x vs) (log @ [x])"
          using "1.prems" Cons it False new xR reachable_step [OF xR] by (auto simp: search_inv_def)
        moreover have "card (?R - insert x vs) < card (?R - vs)"
          using assms(1) xR new by (intro psubset_card_mono) auto
        ultimately show ?thesis unfolding step by (intro "1.hyps") auto
      qed
    qed
  qed
qed

lemma search_start:
  assumes "finite (reachable edges u)"
  shows "\<exists>b vs' log'. search push pop size_of edges visited_set (record_until P) (push u emp) {} [] = Some (b, vs', log') \<and>
    distinct log' \<and> set log' \<subseteq> reachable edges u \<and>
    (if b then log' \<noteq> [] \<and> P (last log') else set log' = reachable edges u \<and> (\<forall>x \<in> reachable edges u. \<not> P x))"
proof (rule search_result [OF assms])
  have "mset (items (push u emp)) = {#u#}" using items_push [OF inv_emp(1)] inv_emp(2) by simp
  then have "set (items (push u emp)) = {u}" by (metis set_mset_mset set_mset_single)
  then show "search_inv edges P u (push u emp) {} []"
    using inv_push [OF inv_emp(1)] by (simp add: search_inv_def reachable_def)
qed

end

section \<open>Paths\<close>

text \<open>
  \<open>dfsRecursive\<close> and the loop over the edges of a node.  \<open>dfs_loop\<close> is the rest of the loop for the
  node \<open>u\<close>, over the edges that are left.
\<close>

partial_function (option) dfs_loop ::
  "('a \<Rightarrow> 'a list) \<Rightarrow> ('a \<Rightarrow> 'v \<Rightarrow> bool \<times> 'v) \<Rightarrow> ('a \<Rightarrow> 'a \<Rightarrow> bool) \<Rightarrow> 'a \<Rightarrow> 'a list \<Rightarrow>
   'a \<Rightarrow> 'a list \<Rightarrow> 'v \<Rightarrow> ('a list \<times> 'v) option" where
  "dfs_loop edges visited eq z path u es vs =
     (case es of
        [] \<Rightarrow> Some (path, vs)
      | v # rest \<Rightarrow>
          if eq v z then Some (path @ [z, u], vs)
          else case visited v vs of (b, vs1) \<Rightarrow>
            Option.bind (if b then Some (path, vs1) else dfs_loop edges visited eq z path v (edges v) vs1)
              (\<lambda>r. case r of (p, vs2) \<Rightarrow>
                 if p \<noteq> [] then Some (p @ [u], vs2)
                 else dfs_loop edges visited eq z path u rest vs2))"

declare dfs_loop.simps [code]

definition dfsRecursive :: "('a \<Rightarrow> 'a list) \<Rightarrow> ('a \<Rightarrow> 'v \<Rightarrow> bool \<times> 'v) \<Rightarrow> ('a \<Rightarrow> 'a \<Rightarrow> bool) \<Rightarrow>
    'a \<Rightarrow> 'a \<Rightarrow> 'a list \<Rightarrow> 'v \<Rightarrow> ('a list \<times> 'v) option" where
  "dfsRecursive edges visited eq u z path vs =
     (case visited u vs of
        (True, vs') \<Rightarrow> Some (path, vs')
      | (False, vs') \<Rightarrow> dfs_loop edges visited eq z path u (edges u) vs')"

text \<open>\<open>DFSPath\<close> reverses the path in place.\<close>

definition DFSPath :: "('a \<Rightarrow> 'a list) \<Rightarrow> ('a \<Rightarrow> 'v \<Rightarrow> bool \<times> 'v) \<Rightarrow> ('a \<Rightarrow> 'a \<Rightarrow> bool) \<Rightarrow>
    'a \<Rightarrow> 'a \<Rightarrow> 'v \<Rightarrow> ('a list \<times> 'v) option" where
  "DFSPath edges visited eq a z vs =
     map_option (\<lambda>(p, vs'). (rev p, vs')) (dfsRecursive edges visited eq a z [] vs)"

definition path_to :: "('a \<Rightarrow> 'a list) \<Rightarrow> 'a \<Rightarrow> 'a list \<Rightarrow> 'a \<Rightarrow> bool" where
  "path_to edges a p z \<longleftrightarrow> 2 \<le> length p \<and> hd p = a \<and> last p = z \<and> successively (\<lambda>x y. y \<in> set (edges x)) p"

lemma path_to_Cons: "path_to edges v p z \<Longrightarrow> v \<in> set (edges u) \<Longrightarrow> path_to edges u (u # p) z"
  by (cases p) (auto simp: path_to_def)

lemma dfs_loop_result:
  assumes "finite R" and "\<And>x. x \<in> R \<Longrightarrow> set (edges x) \<subseteq> R"
    and "set es \<subseteq> set (edges u)" and "u \<in> R"
  shows "\<exists>p vs'. dfs_loop edges visited_set (=) z [] u es vs = Some (p, vs') \<and> vs \<subseteq> vs' \<and> vs' \<subseteq> vs \<union> R \<and>
    (if p = [] then z \<notin> set es \<and> set es \<subseteq> vs' \<and> (\<forall>x \<in> vs' - vs. z \<notin> set (edges x) \<and> set (edges x) \<subseteq> vs')
     else path_to edges u (rev p) z)"
  using assms(3,4)
proof (induction "(card (R - vs), length es)" arbitrary: u es vs
    rule: wf_induct_rule [OF wf_lex_prod [OF wf_less wf_less]])
  case 1
  let ?loop = "dfs_loop edges visited_set (=) z []"
  show ?case
  proof (cases es)
    case Nil
    then show ?thesis by (simp add: dfs_loop.simps)
  next
    case (Cons v rest)
    have v: "v \<in> set (edges u)" "v \<in> R" "set rest \<subseteq> set (edges u)"
      using "1.prems" Cons assms(2) by auto
    show ?thesis
    proof (cases "v = z")
      case True
      then have "?loop u es vs = Some ([z, u], vs)" by (simp add: dfs_loop.simps Cons)
      moreover have "path_to edges u [u, z] z" using v True by (simp add: path_to_def)
      ultimately show ?thesis by simp
    next
      case nz: False
      show ?thesis
      proof (cases "v \<in> vs")
        case True
        then have "visited_set v vs = (True, vs)" by (auto simp: visited_set_def)
        then have step: "?loop u es vs = ?loop u rest vs" using nz Cons by (subst dfs_loop.simps) simp
        obtain p vs' where "?loop u rest vs = Some (p, vs')" "vs \<subseteq> vs'" "vs' \<subseteq> vs \<union> R"
          "if p = [] then z \<notin> set rest \<and> set rest \<subseteq> vs' \<and> (\<forall>x \<in> vs' - vs. z \<notin> set (edges x) \<and> set (edges x) \<subseteq> vs')
           else path_to edges u (rev p) z"
          using "1.hyps" [of vs rest u] Cons v(3) "1.prems"(2) by auto
        then show ?thesis unfolding step using Cons nz True by (auto split: if_splits)
      next
        case new: False
        let ?vs1 = "insert v vs"
        have vis: "visited_set v vs = (False, ?vs1)" using new by (simp add: visited_set_def)
        have card: "card (R - ?vs1) < card (R - vs)" using assms(1) v(2) new by (intro psubset_card_mono) auto
        obtain p vs2 where p: "?loop v (edges v) ?vs1 = Some (p, vs2)" "?vs1 \<subseteq> vs2" "vs2 \<subseteq> ?vs1 \<union> R"
          "if p = [] then z \<notin> set (edges v) \<and> set (edges v) \<subseteq> vs2 \<and>
             (\<forall>x \<in> vs2 - ?vs1. z \<notin> set (edges x) \<and> set (edges x) \<subseteq> vs2) else path_to edges v (rev p) z"
          using "1.hyps" [of ?vs1 "edges v" v] card v(2) by auto
        show ?thesis
        proof (cases "p = []")
          case False
          then have "?loop u es vs = Some (p @ [u], vs2)"
            using nz Cons vis p(1) by (subst dfs_loop.simps) simp
          moreover have "path_to edges u (u # rev p) z" using False p(4) v(1) by (intro path_to_Cons) auto
          ultimately show ?thesis using False p(2,3) v(2) by auto
        next
          case True
          then have step: "?loop u es vs = ?loop u rest vs2"
            using nz Cons vis p(1) by (subst dfs_loop.simps) simp
          have "card (R - vs2) < card (R - vs)"
            using card card_mono [of "R - ?vs1" "R - vs2"] assms(1) p(2) by (auto simp: Diff_mono)
          then obtain p' vs' where p': "?loop u rest vs2 = Some (p', vs')" "vs2 \<subseteq> vs'" "vs' \<subseteq> vs2 \<union> R"
            "if p' = [] then z \<notin> set rest \<and> set rest \<subseteq> vs' \<and> (\<forall>x \<in> vs' - vs2. z \<notin> set (edges x) \<and> set (edges x) \<subseteq> vs')
             else path_to edges u (rev p') z"
            using "1.hyps" [of vs2 rest u] v(3) "1.prems"(2) by auto
          have "z \<notin> set (edges x) \<and> set (edges x) \<subseteq> vs'" if "p' = []" "x \<in> vs' - vs" for x
            using that p(4) p'(2,4) True by (cases "x \<in> vs2"; cases "x = v") auto
          then show ?thesis unfolding step using p' p(2,3) Cons nz v(2) by (auto split: if_splits)
        qed
      qed
    qed
  qed
qed

lemma path_to_trancl: "path_to edges a p z \<Longrightarrow> (a, z) \<in> (edge_rel edges)\<^sup>+"
proof (induction p arbitrary: a)
  case (Cons x xs)
  then obtain y ys where y: "xs = y # ys" "x = a" "y \<in> set (edges a)" by (cases xs) (auto simp: path_to_def)
  then have e: "(a, y) \<in> edge_rel edges" by (simp add: edge_rel_def)
  show ?case
  proof (cases ys)
    case Nil
    then show ?thesis using Cons.prems y e by (auto simp: path_to_def)
  next
    case (Cons w ws)
    then have "path_to edges y xs z" using Cons.prems y by (simp add: path_to_def)
    then show ?thesis using Cons.IH e by (meson trancl_into_trancl2)
  qed
qed (simp add: path_to_def)

lemma dfs_path_result:
  assumes "finite (reachable edges a)"
  shows "\<exists>p vs'. DFSPath edges visited_set (=) a z {} = Some (p, vs') \<and>
    (p \<noteq> [] \<longrightarrow> path_to edges a p z) \<and> (p = [] \<longleftrightarrow> (a, z) \<notin> (edge_rel edges)\<^sup>+)"
proof -
  have R: "a \<in> reachable edges a" "\<And>x. x \<in> reachable edges a \<Longrightarrow> set (edges x) \<subseteq> reachable edges a"
    by (simp add: reachable_def) (rule reachable_step)
  obtain p vs' where p: "dfs_loop edges visited_set (=) z [] a (edges a) {a} = Some (p, vs')" "{a} \<subseteq> vs'"
    "if p = [] then z \<notin> set (edges a) \<and> set (edges a) \<subseteq> vs' \<and>
       (\<forall>x \<in> vs' - {a}. z \<notin> set (edges x) \<and> set (edges x) \<subseteq> vs') else path_to edges a (rev p) z"
    using dfs_loop_result [where R = "reachable edges a" and edges = edges and es = "edges a" and u = a and z = z
        and vs = "{a}", OF assms R(2) order_refl R(1)] by blast
  have "DFSPath edges visited_set (=) a z {} = Some (rev p, vs')"
    using p(1) by (simp add: DFSPath_def dfsRecursive_def visited_set_def)
  moreover have "(a, z) \<notin> (edge_rel edges)\<^sup>+" if "p = []"
  proof
    assume "(a, z) \<in> (edge_rel edges)\<^sup>+"
    then obtain y where y: "(a, y) \<in> (edge_rel edges)\<^sup>*" "(y, z) \<in> edge_rel edges" by (meson tranclD2)
    have "x \<in> vs' \<Longrightarrow> z \<notin> set (edges x) \<and> set (edges x) \<subseteq> vs'" for x using p(3) that by (cases "x = a") auto
    moreover have "y \<in> vs'"
      using y(1) reachable_closed [of a vs' edges] p(2) calculation by (auto simp: reachable_def)
    ultimately show False using y(2) by (auto simp: edge_rel_def)
  qed
  moreover have path: "path_to edges a (rev p) z" if "p \<noteq> []" using p(3) that by simp
  moreover have "(a, z) \<in> (edge_rel edges)\<^sup>+" if "p \<noteq> []" using path_to_trancl path that by metis
  ultimately show ?thesis by (intro exI [of _ "rev p"]) auto
qed

section \<open>Properties\<close>

text \<open>
  C26.  \<open>DFS\<close> and \<open>BFS\<close> return on every graph with finitely many reachable nodes, visit every node at
  most once and only reachable nodes, return true exactly when the callback asked to stop (at a
  node with the property), and otherwise have visited every reachable node.
\<close>

theorem graph_search:
  assumes "finite (reachable edges u)"
  shows "(\<exists>b vs log. DFS edges visited_set (record_until P) u {} [] = Some (b, vs, log) \<and>
      distinct log \<and> set log \<subseteq> reachable edges u \<and>
      (if b then log \<noteq> [] \<and> P (last log) else set log = reachable edges u \<and> (\<forall>x \<in> reachable edges u. \<not> P x))) \<and>
    (\<exists>b vs log. BFS edges visited_set (record_until P) u {} [] = Some (b, vs, log) \<and>
      distinct log \<and> set log \<subseteq> reachable edges u \<and>
      (if b then log \<noteq> [] \<and> P (last log) else set log = reachable edges u \<and> (\<forall>x \<in> reachable edges u. \<not> P x)))"
  using lifo.search_start [OF assms, of P] fifo.search_start [OF assms, of P]
  by (simp add: DFS_def BFS_def newLIFO_def newFIFO_def)

theorem graph_search_witness:
  "reachable (\<lambda>n :: nat. if n < 3 then [n + 1, n] else []) 1 \<subseteq> {1, 2, 3} \<and>
   (\<exists>b vs log. DFS (\<lambda>n :: nat. if n < 3 then [n + 1, n] else []) visited_set (record_until (\<lambda>n. n = 3)) 1 {} []
      = Some (b, vs, log) \<and> distinct log \<and> set log \<subseteq> {1, 2, 3})"
proof -
  have r: "reachable (\<lambda>n :: nat. if n < 3 then [n + 1, n] else []) 1 \<subseteq> {1, 2, 3}"
    by (rule reachable_closed) auto
  then have "finite (reachable (\<lambda>n :: nat. if n < 3 then [n + 1, n] else []) 1)"
    by (rule finite_subset) simp
  from graph_search [OF this, of "\<lambda>n. n = 3"] r show ?thesis by fast
qed

text \<open>
  C38.  \<open>DFSPath\<close> returns on every graph with finitely many reachable nodes.  A non-empty result is a
  path from the first to the second node along the edges, and the result is empty exactly when
  the second node cannot be reached from the first in one step or more.
\<close>

theorem dfs_path_correct:
  assumes "finite (reachable edges a)"
  shows "\<exists>p vs'. DFSPath edges visited_set (=) a z {} = Some (p, vs') \<and>
    (p \<noteq> [] \<longrightarrow> path_to edges a p z) \<and> (p = [] \<longleftrightarrow> (a, z) \<notin> (edge_rel edges)\<^sup>+)"
  using assms by (rule dfs_path_result)

theorem dfs_path_correct_witness:
  "\<exists>p vs'. DFSPath (\<lambda>n :: nat. if n < 2 then [n + 1] else []) visited_set (=) 0 2 {} = Some (p, vs') \<and>
     path_to (\<lambda>n. if n < 2 then [n + 1] else []) 0 p 2"
proof -
  let ?e = "\<lambda>n :: nat. if n < 2 then [n + 1] else []"
  have "reachable ?e 0 \<subseteq> {0, 1, 2}" by (rule reachable_closed) auto
  then have f: "finite (reachable ?e 0)" by (rule finite_subset) simp
  have "(0, 1) \<in> edge_rel ?e" "(1, 2) \<in> edge_rel ?e" by (simp_all add: edge_rel_def)
  then have "(0, 2) \<in> (edge_rel ?e)\<^sup>+" by (meson trancl.simps)
  then show ?thesis using dfs_path_correct [OF f, of 2] by blast
qed

end
