(* ===== verification/Ast_Graph.thy ===== *)
theory Ast_Graph
  imports Util_Graph
begin

text \<open>
  The rule dependency graph of the compiler (ast/compile.go): construction of the adjacency maps,
  the topological sort that the compiler uses to order rules, and recursion detection.

  A Go map is iterated in an unspecified order.  The maps of the graph are represented by lists
  without duplicates; the order of a list is the order of iteration, and no lemma assumes
  anything about it.
\<close>

record 'a graph =
  g_adj :: "'a \<Rightarrow> 'a list"
  g_radj :: "'a \<Rightarrow> 'a list"
  g_nodes :: "'a list"
  g_sorted :: "'a list option"

definition empty_graph :: "'a graph" where
  "empty_graph = \<lparr>g_adj = \<lambda>_. [], g_radj = \<lambda>_. [], g_nodes = [], g_sorted = None\<rparr>"

text \<open>Writing a key of a map that is used as a set.\<close>

definition put_key :: "'a \<Rightarrow> 'a list \<Rightarrow> 'a list" where
  "put_key x xs = (if x \<in> set xs then xs else xs @ [x])"

definition addNode :: "'a \<Rightarrow> 'a graph \<Rightarrow> 'a graph" where
  "addNode n g = g\<lparr>g_nodes := put_key n (g_nodes g)\<rparr>"

definition addDependency :: "'a \<Rightarrow> 'a \<Rightarrow> 'a graph \<Rightarrow> 'a graph" where
  "addDependency u v g =
     (let g1 = (if u \<in> set (g_nodes g) then g else addNode u g);
          g2 = (if v \<in> set (g_nodes g1) then g1 else addNode v g1);
          g3 = g2\<lparr>g_adj := (g_adj g2)(u := put_key v (g_adj g2 u))\<rparr>
      in g3\<lparr>g_radj := (g_radj g3)(v := put_key u (g_radj g3 v))\<rparr>)"

definition Dependencies :: "'a graph \<Rightarrow> 'a \<Rightarrow> 'a list" where
  "Dependencies g x = g_adj g x"

definition Dependents :: "'a graph \<Rightarrow> 'a \<Rightarrow> 'a list" where
  "Dependents g x = g_radj g x"

section \<open>Topological sort\<close>

record 'a graphSort =
  s_sorted :: "'a list"
  s_marked :: "'a set"
  s_temp :: "'a set"

text \<open>
  \<open>Visit\<close> and its loop over the dependencies: \<open>visit_all\<close> visits a list of nodes and stops at the
  first that fails.
\<close>

partial_function (option) visit_all ::
  "('a \<Rightarrow> 'a list) \<Rightarrow> 'a list \<Rightarrow> 'a graphSort \<Rightarrow> (bool \<times> 'a graphSort) option" where
  "visit_all deps ns s =
     (case ns of
        [] \<Rightarrow> Some (True, s)
      | node # rest \<Rightarrow>
          if node \<in> s_temp s then Some (False, s)
          else if node \<in> s_marked s then visit_all deps rest s
          else Option.bind (visit_all deps (deps node) (s\<lparr>s_temp := insert node (s_temp s)\<rparr>))
            (\<lambda>r. case r of (ok, s1) \<Rightarrow>
               if \<not> ok then Some (False, s1)
               else visit_all deps rest
                 (s1\<lparr>s_marked := insert node (s_marked s1), s_temp := s_temp s1 - {node},
                    s_sorted := s_sorted s1 @ [node]\<rparr>)))"

declare visit_all.simps [code]

definition graphSort_Visit :: "('a \<Rightarrow> 'a list) \<Rightarrow> 'a \<Rightarrow> 'a graphSort \<Rightarrow> (bool \<times> 'a graphSort) option" where
  "graphSort_Visit deps node s = visit_all deps [node] s"

text \<open>\<open>Sort\<close>: \<open>None\<close> in the second component stands for the result not ok.\<close>

definition graph_Sort :: "'a graph \<Rightarrow> ('a graph \<times> 'a list option) option" where
  "graph_Sort g =
     (case g_sorted g of
        Some xs \<Rightarrow> Some (g, Some xs)
      | None \<Rightarrow>
          (case visit_all (Dependencies g) (g_nodes g) \<lparr>s_sorted = [], s_marked = {}, s_temp = {}\<rparr> of
             None \<Rightarrow> None
           | Some (ok, s) \<Rightarrow>
               if ok then Some (g\<lparr>g_sorted := Some (s_sorted s)\<rparr>, Some (s_sorted s)) else Some (g, None)))"

text \<open>The edges and the visited test of \<open>GraphTraversal\<close>.\<close>

definition traversal_Edges :: "'a graph \<Rightarrow> 'a \<Rightarrow> 'a list" where
  "traversal_Edges g x = Dependencies g x"

section \<open>The graph invariant\<close>

definition graph_ok :: "'a graph \<Rightarrow> bool" where
  "graph_ok g \<longleftrightarrow>
     (\<forall>u. distinct (g_adj g u) \<and> distinct (g_radj g u) \<and> set (g_adj g u) \<subseteq> set (g_nodes g)) \<and>
     (\<forall>u v. v \<in> set (g_adj g u) \<longleftrightarrow> u \<in> set (g_radj g v)) \<and>
     (\<forall>u. g_adj g u \<noteq> [] \<longrightarrow> u \<in> set (g_nodes g)) \<and> distinct (g_nodes g)"

lemma set_put_key [simp]: "set (put_key x xs) = insert x (set xs)"
  by (auto simp: put_key_def)

lemma distinct_put_key [simp]: "distinct (put_key x xs) = distinct xs"
  by (auto simp: put_key_def)

lemma graph_ok_empty: "graph_ok empty_graph"
  by (simp add: graph_ok_def empty_graph_def)

lemma graph_ok_addNode: "graph_ok g \<Longrightarrow> graph_ok (addNode n g)"
  by (auto simp: graph_ok_def addNode_def)

lemma addDependency_fields:
  "g_adj (addDependency u v g) = (g_adj g)(u := put_key v (g_adj g u))"
  "g_radj (addDependency u v g) = (g_radj g)(v := put_key u (g_radj g v))"
  "set (g_nodes (addDependency u v g)) = insert u (insert v (set (g_nodes g)))"
  "distinct (g_nodes (addDependency u v g)) = distinct (g_nodes g)"
  by (auto simp: addDependency_def addNode_def Let_def)

lemma graph_ok_addDependency:
  assumes "graph_ok g"
  shows "graph_ok (addDependency u v g)"
  using assms unfolding graph_ok_def addDependency_fields by (auto split: if_splits)

section \<open>Correctness of the sort\<close>

text \<open>Every node comes after the nodes it depends on.\<close>

fun topological :: "('a \<Rightarrow> 'a list) \<Rightarrow> 'a set \<Rightarrow> 'a list \<Rightarrow> bool" where
  "topological deps seen [] = True"
| "topological deps seen (n # ns) = (set (deps n) \<subseteq> seen \<and> n \<notin> seen \<and> topological deps (insert n seen) ns)"

lemma topological_append:
  "topological deps seen (xs @ ys) = (topological deps seen xs \<and> topological deps (seen \<union> set xs) ys)"
  by (induction xs arbitrary: seen) auto

lemma topological_reaches_before:
  assumes "topological deps {} ns" and "u \<in> set ns" and "(u, v) \<in> (edge_rel deps)\<^sup>+"
  shows "v \<in> set ns \<and> v \<noteq> u"
  using assms
proof (induction ns arbitrary: u v rule: rev_induct)
  case Nil
  then show ?case by simp
next
  case (snoc n ns)
  have n: "topological deps {} ns" "set (deps n) \<subseteq> set ns" "n \<notin> set ns"
    using snoc.prems(1) by (auto simp: topological_append)
  show ?case
  proof (cases "u \<in> set ns")
    case True
    then show ?thesis using snoc.IH [OF n(1) True snoc.prems(3)] by auto
  next
    case False
    then have u: "u = n" using snoc.prems(2) by auto
    obtain w where w: "(n, w) \<in> edge_rel deps" "w = v \<or> (w, v) \<in> (edge_rel deps)\<^sup>+"
      using snoc.prems(3) unfolding u by (meson tranclD rtranclD)
    have "w \<in> set ns" using w(1) n(2) by (auto simp: edge_rel_def)
    then have "v \<in> set ns" using w(2) snoc.IH [OF n(1), of w v] by auto
    then show ?thesis using u n(3) by auto
  qed
qed

definition sort_inv :: "('a \<Rightarrow> 'a list) \<Rightarrow> 'a graphSort \<Rightarrow> bool" where
  "sort_inv deps s \<longleftrightarrow> s_marked s = set (s_sorted s) \<and> topological deps {} (s_sorted s) \<and> s_temp s \<inter> s_marked s = {}"

lemma visit_all_result:
  assumes "finite N" and "\<And>x. x \<in> N \<Longrightarrow> set (deps x) \<subseteq> N"
    and "sort_inv deps s" and "set ns \<subseteq> N" and "\<forall>t \<in> s_temp s. \<forall>x \<in> set ns. (t, x) \<in> (edge_rel deps)\<^sup>+"
  shows "\<exists>ok s'. visit_all deps ns s = Some (ok, s') \<and>
    (if ok then sort_inv deps s' \<and> s_temp s' = s_temp s \<and> s_marked s \<union> set ns \<subseteq> s_marked s' \<and>
       s_marked s' \<subseteq> s_marked s \<union> N
     else \<exists>n. (n, n) \<in> (edge_rel deps)\<^sup>+)"
  using assms(3-5)
proof (induction "(card (N - (s_temp s \<union> s_marked s)), length ns)" arbitrary: ns s
    rule: wf_induct_rule [OF wf_lex_prod [OF wf_less wf_less]])
  case 1
  show ?case
  proof (cases ns)
    case Nil
    then show ?thesis using "1.prems" by (auto simp: visit_all.simps intro!: exI [of _ True])
  next
    case (Cons n rest)
    have n: "n \<in> N" "set rest \<subseteq> N" using "1.prems"(2) Cons by auto
    have rest: "\<forall>t \<in> s_temp s. \<forall>x \<in> set rest. (t, x) \<in> (edge_rel deps)\<^sup>+" using "1.prems"(3) Cons by auto
    consider (temp) "n \<in> s_temp s" | (marked) "n \<notin> s_temp s" "n \<in> s_marked s"
      | (fresh) "n \<notin> s_temp s" "n \<notin> s_marked s" by blast
    then show ?thesis
    proof cases
      case temp
      then have "visit_all deps ns s = Some (False, s)" using Cons by (simp add: visit_all.simps)
      moreover have "(n, n) \<in> (edge_rel deps)\<^sup>+" using temp "1.prems"(3) Cons by simp
      ultimately show ?thesis by auto
    next
      case marked
      then have step: "visit_all deps ns s = visit_all deps rest s" using Cons by (subst visit_all.simps) simp
      obtain ok s' where "visit_all deps rest s = Some (ok, s')"
        "if ok then sort_inv deps s' \<and> s_temp s' = s_temp s \<and> s_marked s \<union> set rest \<subseteq> s_marked s' \<and>
           s_marked s' \<subseteq> s_marked s \<union> N else \<exists>n. (n, n) \<in> (edge_rel deps)\<^sup>+"
        using "1.hyps" [of s rest] "1.prems"(1) Cons n(2) rest by auto
      then show ?thesis unfolding step using Cons marked by (auto split: if_splits)
    next
      case fresh
      let ?s = "s\<lparr>s_temp := insert n (s_temp s)\<rparr>"
      have card: "card (N - (s_temp ?s \<union> s_marked ?s)) < card (N - (s_temp s \<union> s_marked s))"
        using assms(1) n(1) fresh by (intro psubset_card_mono) auto
      have reach: "\<forall>t \<in> s_temp ?s. \<forall>x \<in> set (deps n). (t, x) \<in> (edge_rel deps)\<^sup>+"
      proof (intro ballI)
        fix t x assume "t \<in> s_temp ?s" "x \<in> set (deps n)"
        then have e: "(n, x) \<in> edge_rel deps" and "t = n \<or> (t, n) \<in> (edge_rel deps)\<^sup>+"
          using "1.prems"(3) Cons by (auto simp: edge_rel_def)
        then show "(t, x) \<in> (edge_rel deps)\<^sup>+" by (meson r_into_trancl trancl.trancl_into_trancl)
      qed
      have "sort_inv deps ?s" using "1.prems"(1) fresh by (auto simp: sort_inv_def)
      then obtain ok s1 where s1: "visit_all deps (deps n) ?s = Some (ok, s1)"
        "if ok then sort_inv deps s1 \<and> s_temp s1 = s_temp ?s \<and> s_marked ?s \<union> set (deps n) \<subseteq> s_marked s1 \<and>
           s_marked s1 \<subseteq> s_marked ?s \<union> N else \<exists>n. (n, n) \<in> (edge_rel deps)\<^sup>+"
        using "1.hyps" [of ?s "deps n"] card assms(2) [OF n(1)] reach by auto
      show ?thesis
      proof (cases ok)
        case False
        then have "visit_all deps ns s = Some (False, s1)"
          using s1(1) Cons fresh by (subst visit_all.simps) simp
        then show ?thesis using s1(2) False by auto
      next
        case True
        let ?s2 = "s1\<lparr>s_marked := insert n (s_marked s1), s_temp := s_temp s1 - {n}, s_sorted := s_sorted s1 @ [n]\<rparr>"
        have step: "visit_all deps ns s = visit_all deps rest ?s2"
          using s1(1) Cons fresh True by (subst visit_all.simps) simp
        have i: "sort_inv deps s1" "s_temp s1 = insert n (s_temp s)" "s_marked s \<union> set (deps n) \<subseteq> s_marked s1"
          "s_marked s1 \<subseteq> s_marked s \<union> N" using s1(2) True by auto
        have t2: "s_temp ?s2 = s_temp s" using i(2) fresh by auto
        have "n \<notin> s_marked s1" using i(1,2) by (auto simp: sort_inv_def)
        then have inv2: "sort_inv deps ?s2"
          using i by (auto simp: sort_inv_def topological_append)
        have "card (N - (s_temp ?s2 \<union> s_marked ?s2)) < card (N - (s_temp s \<union> s_marked s))"
          unfolding t2 using assms(1) n(1) fresh i(3) by (intro psubset_card_mono) auto
        then obtain ok' s' where "visit_all deps rest ?s2 = Some (ok', s')"
          "if ok' then sort_inv deps s' \<and> s_temp s' = s_temp ?s2 \<and> s_marked ?s2 \<union> set rest \<subseteq> s_marked s' \<and>
             s_marked s' \<subseteq> s_marked ?s2 \<union> N else \<exists>n. (n, n) \<in> (edge_rel deps)\<^sup>+"
          using "1.hyps" [of ?s2 rest] inv2 n(2) rest unfolding t2 by auto
        then show ?thesis unfolding step using Cons n(1) i(3,4) t2 by (auto split: if_splits)
      qed
    qed
  qed
qed

text \<open>A path through the graph stays inside its nodes, so a cycle consists of nodes.\<close>

lemma graph_ok_cycle:
  assumes "graph_ok g" and "(n, m) \<in> (edge_rel (Dependencies g))\<^sup>+"
  shows "n \<in> set (g_nodes g)"
proof -
  have "g_adj g n \<noteq> []" using tranclD [OF assms(2)] by (auto simp: edge_rel_def Dependencies_def)
  then show ?thesis using assms(1) unfolding graph_ok_def by blast
qed

lemma topological_distinct: "topological deps seen ns \<Longrightarrow> distinct ns \<and> set ns \<inter> seen = {}"
  by (induction ns arbitrary: seen) auto

text \<open>
  C10.  Sorting a graph that was not sorted before always terminates.  If no node depends on itself,
  directly or through others, the result lists every node of the graph exactly once, each after
  all the nodes it depends on, and a second call returns the same list; if some node does, the
  result is not ok and the graph is unchanged.\<close>

theorem graph_sort_topological:
  assumes "graph_ok g" and "g_sorted g = None"
  shows "if acyclic (edge_rel (Dependencies g))
     then \<exists>xs g'. graph_Sort g = Some (g', Some xs) \<and> set xs = set (g_nodes g) \<and> distinct xs \<and>
       topological (Dependencies g) {} xs \<and> graph_Sort g' = Some (g', Some xs) \<and>
       Dependencies g' = Dependencies g
     else graph_Sort g = Some (g, None)"
proof -
  let ?s = "\<lparr>s_sorted = [], s_marked = {}, s_temp = {}\<rparr> :: 'a graphSort"
  have deps: "set (Dependencies g x) \<subseteq> set (g_nodes g)" for x
    using assms(1) by (simp add: graph_ok_def Dependencies_def)
  have "\<exists>ok s. visit_all (Dependencies g) (g_nodes g) ?s = Some (ok, s) \<and>
      (if ok then sort_inv (Dependencies g) s \<and> s_temp s = s_temp ?s \<and> s_marked ?s \<union> set (g_nodes g) \<subseteq> s_marked s \<and>
         s_marked s \<subseteq> s_marked ?s \<union> set (g_nodes g)
       else \<exists>n. (n, n) \<in> (edge_rel (Dependencies g))\<^sup>+)"
    by (rule visit_all_result) (use deps in \<open>auto simp: sort_inv_def\<close>)
  then obtain ok s where v: "visit_all (Dependencies g) (g_nodes g) ?s = Some (ok, s)"
    and r: "if ok then sort_inv (Dependencies g) s \<and> s_temp s = s_temp ?s \<and> s_marked ?s \<union> set (g_nodes g) \<subseteq> s_marked s \<and>
         s_marked s \<subseteq> s_marked ?s \<union> set (g_nodes g)
       else \<exists>n. (n, n) \<in> (edge_rel (Dependencies g))\<^sup>+" by blast
  show ?thesis
  proof (cases ok)
    case True
    then have s: "topological (Dependencies g) {} (s_sorted s)" "set (s_sorted s) = set (g_nodes g)"
      using r by (auto simp: sort_inv_def)
    have "acyclic (edge_rel (Dependencies g))"
      unfolding acyclic_def using topological_reaches_before [OF s(1)] graph_ok_cycle [OF assms(1)] s(2) by blast
    then show ?thesis using s v True topological_distinct [OF s(1)] assms(2)
      by (simp add: graph_Sort_def) (simp add: Dependencies_def fun_eq_iff)
  next
    case False
    then show ?thesis using r v assms(2) by (auto simp: graph_Sort_def acyclic_def)
  qed
qed

definition sample_graph :: "nat graph" where
  "sample_graph = addDependency 2 3 (addDependency 1 2 (addNode 4 empty_graph))"

lemma graph_ok_sample: "graph_ok sample_graph"
  by (simp add: sample_graph_def graph_ok_empty graph_ok_addNode graph_ok_addDependency)

theorem graph_sort_topological_witness:
  "acyclic (edge_rel (Dependencies sample_graph)) \<and>
   (\<exists>g'. graph_Sort sample_graph = Some (g', Some [4, 3, 2, 1])) \<and>
   graph_Sort (addDependency 3 1 sample_graph) = Some (addDependency 3 1 sample_graph, None)"
proof -
  have s: "map_option (map_prod id id) (map_option (\<lambda>(g, r). ((), r)) (graph_Sort sample_graph)) = Some ((), Some [4, 3, 2, 1])"
    by code_simp
  have n: "g_sorted sample_graph = None" "g_sorted (addDependency 3 1 sample_graph) = None" by code_simp+
  have ac: "acyclic (edge_rel (Dependencies sample_graph))"
    using graph_sort_topological [OF graph_ok_sample n(1)] s by (auto split: if_splits)
  have "(1::nat, 1) \<in> (edge_rel (Dependencies (addDependency 3 1 sample_graph)))\<^sup>+"
  proof -
    have "(1, 2) \<in> edge_rel (Dependencies (addDependency 3 1 sample_graph))"
      "(2, 3) \<in> edge_rel (Dependencies (addDependency 3 1 sample_graph))"
      "(3, 1) \<in> edge_rel (Dependencies (addDependency 3 1 sample_graph))"
      by (simp_all add: edge_rel_def Dependencies_def sample_graph_def addDependency_fields)
    then show ?thesis by (meson r_into_trancl trancl_trans)
  qed
  then have "\<not> acyclic (edge_rel (Dependencies (addDependency 3 1 sample_graph)))" by (auto simp: acyclic_def)
  then have "graph_Sort (addDependency 3 1 sample_graph) = Some (addDependency 3 1 sample_graph, None)"
    using graph_sort_topological [OF graph_ok_addDependency [OF graph_ok_sample] n(2)] by simp
  then show ?thesis using ac s by (auto simp: map_prod_def split: option.splits)
qed

text \<open>
  The compiler's adjacency maps are inverse to each other: after any sequence of added nodes and
  dependencies, y is a dependency of x exactly when x is a dependent of y, both are nodes, and the
  dependencies are exactly the added ones.\<close>

theorem graph_adjacency:
  fixes ops :: "('a \<times> 'a) list" and ns :: "'a list"
  defines "g \<equiv> fold (\<lambda>(u, v). addDependency u v) ops (fold addNode ns empty_graph)"
  shows "graph_ok g \<and> (\<forall>x y. (y \<in> set (Dependencies g x) \<longleftrightarrow> (x, y) \<in> set ops) \<and>
           (x \<in> set (Dependents g y) \<longleftrightarrow> (x, y) \<in> set ops)) \<and>
         set (g_nodes g) = set ns \<union> fst ` set ops \<union> snd ` set ops"
proof -
  have 1: "graph_ok (fold addNode ns h) \<and> g_adj (fold addNode ns h) = g_adj h \<and>
      set (g_nodes (fold addNode ns h)) = set ns \<union> set (g_nodes h)" if "graph_ok h" for h :: "'a graph"
    using that by (induction ns arbitrary: h) (auto simp: graph_ok_addNode, auto simp: addNode_def)
  have 2: "graph_ok (fold (\<lambda>(u, v). addDependency u v) ops h) \<and>
      (\<forall>x y. y \<in> set (g_adj (fold (\<lambda>(u, v). addDependency u v) ops h) x) \<longleftrightarrow> (x, y) \<in> set ops \<or> y \<in> set (g_adj h x)) \<and>
      set (g_nodes (fold (\<lambda>(u, v). addDependency u v) ops h)) = fst ` set ops \<union> snd ` set ops \<union> set (g_nodes h)"
    if "graph_ok h" for h :: "'a graph"
    using that
  proof (induction ops arbitrary: h)
    case (Cons e ops)
    obtain u v where e: "e = (u, v)" by (cases e)
    show ?case using Cons.IH [OF graph_ok_addDependency [OF Cons.prems, of u v]]
      by (auto simp: e addDependency_fields split: if_splits)
  qed simp
  have "g_adj (fold addNode ns empty_graph) = (\<lambda>_. [])" "set (g_nodes (fold addNode ns empty_graph)) = set ns"
    using 1 [OF graph_ok_empty] by (auto simp: empty_graph_def)
  then have "graph_ok g" "\<forall>x y. y \<in> set (g_adj g x) \<longleftrightarrow> (x, y) \<in> set ops"
    "set (g_nodes g) = set ns \<union> fst ` set ops \<union> snd ` set ops"
    unfolding g_def using 2 [OF conjunct1 [OF 1 [OF graph_ok_empty]]] by auto
  moreover have "x \<in> set (g_radj g y) \<longleftrightarrow> y \<in> set (g_adj g x)" for x y
    using \<open>graph_ok g\<close> by (simp add: graph_ok_def)
  ultimately show ?thesis by (simp add: Dependencies_def Dependents_def)
qed

end
