(* ===== verification/Go_Strings.thy ===== *)
theory Go_Strings
  imports Opa_Prelude
begin

text \<open>
  The functions of Go's packages \<open>strings\<close>, \<open>strconv\<close> and \<open>net/url\<close> that the modelled code calls.  A Go
  string is a sequence of bytes, here a list of characters.

  The round-trip laws between splitting and joining, and between escaping and unescaping a path
  segment, are proved here once.
\<close>

section \<open>Splitting and joining\<close>

text \<open>\<open>strings.Split\<close> and \<open>strings.Join\<close> for a separator of one byte.\<close>

fun split_on :: "char \<Rightarrow> string \<Rightarrow> string list" where
  "split_on c [] = [[]]"
| "split_on c (x # xs) =
     (if x = c then [] # split_on c xs
      else case split_on c xs of [] \<Rightarrow> [[x]] | y # ys \<Rightarrow> (x # y) # ys)"

fun join_with :: "char \<Rightarrow> string list \<Rightarrow> string" where
  "join_with c [] = []"
| "join_with c [s] = s"
| "join_with c (s # t # ss) = s @ c # join_with c (t # ss)"

lemma split_on_nonempty: "split_on c s \<noteq> []"
  by (induction s) (auto split: list.splits)

lemma split_on_prefix: "c \<notin> set s \<Longrightarrow> split_on c (s @ c # t) = s # split_on c t"
  by (induction s) auto

lemma split_on_none: "c \<notin> set s \<Longrightarrow> split_on c s = [s]"
  by (induction s) auto

lemma split_join: "ss \<noteq> [] \<Longrightarrow> \<forall>s \<in> set ss. c \<notin> set s \<Longrightarrow> split_on c (join_with c ss) = ss"
  by (induction c ss rule: join_with.induct) (auto simp: split_on_none split_on_prefix)

lemma join_split: "join_with c (split_on c s) = s"
proof (induction s)
  case (Cons x s)
  then show ?case using split_on_nonempty [of c s]
    by (cases "split_on c s"; cases "tl (split_on c s)") auto
qed simp

lemma split_on_parts: "t \<in> set (split_on c s) \<Longrightarrow> c \<notin> set t"
  by (induction s arbitrary: t) (auto split: list.splits if_splits)

section \<open>Percent encoding of a path segment\<close>

definition between :: "char \<Rightarrow> char \<Rightarrow> char \<Rightarrow> bool" where
  "between lo hi c \<longleftrightarrow> lo \<le> c \<and> c \<le> hi"

definition alphanumeric :: "char \<Rightarrow> bool" where
  "alphanumeric c \<longleftrightarrow> between CHR ''a'' CHR ''z'' c \<or> between CHR ''A'' CHR ''Z'' c \<or> between CHR ''0'' CHR ''9'' c"

text \<open>\<open>url.shouldEscape\<close> in the mode of a path segment.\<close>

definition should_escape :: "char \<Rightarrow> bool" where
  "should_escape c \<longleftrightarrow> \<not> alphanumeric c \<and> c \<notin> set ''-_.~$&+=:@''"

definition hex_digit :: "nat \<Rightarrow> char" where
  "hex_digit n = ''0123456789ABCDEF'' ! n"

definition unhex :: "char \<Rightarrow> nat option" where
  "unhex c =
     (if between CHR ''0'' CHR ''9'' c then Some (of_char c - 48)
      else if between CHR ''a'' CHR ''f'' c then Some (of_char c - 87)
      else if between CHR ''A'' CHR ''F'' c then Some (of_char c - 55)
      else None)"

definition escape_char :: "char \<Rightarrow> string" where
  "escape_char c =
     (if should_escape c then [CHR 0x25, hex_digit (of_char c div 16), hex_digit (of_char c mod 16)] else [c])"

definition path_escape :: "string \<Rightarrow> string" where
  "path_escape s = concat (map escape_char s)"

text \<open>\<open>url.PathUnescape\<close>; \<open>None\<close> is an escape error.\<close>

fun path_unescape :: "string \<Rightarrow> string option" where
  "path_unescape [] = Some []"
| "path_unescape (c # s) =
     (if c = CHR 0x25 then
        (case s of
           a # b # t \<Rightarrow>
             (case (unhex a, unhex b) of
                (Some x, Some y) \<Rightarrow> map_option ((#) (char_of (16 * x + y))) (path_unescape t)
              | _ \<Rightarrow> None)
         | _ \<Rightarrow> None)
      else map_option ((#) c) (path_unescape s))"

lemma unhex_hex_digit: "n < 16 \<Longrightarrow> unhex (hex_digit n) = Some n"
proof -
  have "\<forall>n \<in> set [0..<16]. unhex (hex_digit n) = Some n" by code_simp
  then show "n < 16 \<Longrightarrow> unhex (hex_digit n) = Some n" by simp
qed

lemma path_unescape_char: "path_unescape (escape_char c @ s) = map_option ((#) c) (path_unescape s)"
proof (cases "should_escape c")
  case True
  have "(of_char c :: nat) div 16 < 16" using nat_of_char_less_256 [of c] by linarith
  then show ?thesis using True by (simp add: escape_char_def unhex_hex_digit)
next
  case False
  then have "c \<noteq> CHR 0x25" by (auto simp: should_escape_def alphanumeric_def between_def)
  then show ?thesis using False by (simp add: escape_char_def)
qed

lemma unescape_escape: "path_unescape (path_escape s) = Some s"
  by (induction s) (simp_all add: path_escape_def path_unescape_char)

lemma hex_digit_alphanumeric: "n < 16 \<Longrightarrow> alphanumeric (hex_digit n)"
proof -
  have "\<forall>n \<in> set [0..<16]. alphanumeric (hex_digit n)" by code_simp
  then show "n < 16 \<Longrightarrow> alphanumeric (hex_digit n)" by simp
qed

lemma escape_no_slash: "CHR ''/'' \<notin> set (path_escape s)"
proof -
  have "CHR ''/'' \<notin> set (escape_char c)" for c
  proof (cases "should_escape c")
    case True
    have "(of_char c :: nat) div 16 < 16" using nat_of_char_less_256 [of c] by linarith
    then have "alphanumeric (hex_digit (of_char c div 16))" "alphanumeric (hex_digit (of_char c mod 16))"
      by (simp_all add: hex_digit_alphanumeric)
    moreover have "\<not> alphanumeric CHR ''/''" by code_simp
    ultimately show ?thesis using True by (auto simp: escape_char_def)
  next
    case False
    moreover have "should_escape CHR ''/''" by code_simp
    ultimately show ?thesis by (auto simp: escape_char_def)
  qed
  then show ?thesis by (simp add: path_escape_def)
qed

section \<open>Decimal integers\<close>

definition digit_value :: "char \<Rightarrow> int option" where
  "digit_value c = (if between CHR ''0'' CHR ''9'' c then Some (int (of_char c) - 48) else None)"

fun digits_value :: "int \<Rightarrow> string \<Rightarrow> int option" where
  "digits_value acc [] = Some acc"
| "digits_value acc (c # s) = (case digit_value c of None \<Rightarrow> None | Some d \<Rightarrow> digits_value (10 * acc + d) s)"

definition parse_uint :: "string \<Rightarrow> int option" where
  "parse_uint s = (if s = [] then None else digits_value 0 s)"

text \<open>\<open>strconv.ParseInt (s, 10, 64)\<close> and \<open>strconv.Atoi\<close>: an optional sign, digits, and the range of int64.\<close>

definition sign_split :: "string \<Rightarrow> bool \<times> string" where
  "sign_split s =
     (case s of
        [] \<Rightarrow> (False, [])
      | c # t \<Rightarrow> if c = CHR ''-'' then (True, t) else if c = CHR ''+'' then (False, t) else (False, s))"

definition parse_int64 :: "string \<Rightarrow> int option" where
  "parse_int64 s =
     (let (neg, ds) = sign_split s
      in case parse_uint ds of
           None \<Rightarrow> None
         | Some n \<Rightarrow>
             (let v = (if neg then - n else n)
              in if - (2 ^ 63) \<le> v \<and> v < 2 ^ 63 then Some v else None))"

lemma parse_int64_range: "parse_int64 s = Some i \<Longrightarrow> - (2 ^ 63) \<le> i \<and> i < 2 ^ 63"
  by (simp add: parse_int64_def Let_def split: prod.splits option.splits if_splits)

section \<open>Runes\<close>

text \<open>
  The number of bytes of the first rune of a non-empty string, as \<open>utf8.DecodeRuneInString\<close> finds it: a
  byte that starts no valid sequence is a rune of its own.
\<close>

definition in_bytes :: "nat \<Rightarrow> nat \<Rightarrow> char \<Rightarrow> bool" where
  "in_bytes lo hi c \<longleftrightarrow> lo \<le> of_char c \<and> of_char c \<le> hi"

definition cont_byte :: "char \<Rightarrow> bool" where
  "cont_byte c \<longleftrightarrow> in_bytes 0x80 0xBF c"

fun rune_width :: "string \<Rightarrow> nat" where
  "rune_width (a # b # s) =
     (if in_bytes 0xC2 0xDF a \<and> cont_byte b then 2
      else case s of
        c # s' \<Rightarrow>
          (if (in_bytes 0xE0 0xE0 a \<and> in_bytes 0xA0 0xBF b \<or> in_bytes 0xE1 0xEC a \<and> cont_byte b \<or>
               in_bytes 0xED 0xED a \<and> in_bytes 0x80 0x9F b \<or> in_bytes 0xEE 0xEF a \<and> cont_byte b) \<and> cont_byte c
           then 3
           else case s' of
             d # _ \<Rightarrow>
               (if (in_bytes 0xF0 0xF0 a \<and> in_bytes 0x90 0xBF b \<or> in_bytes 0xF1 0xF3 a \<and> cont_byte b \<or>
                    in_bytes 0xF4 0xF4 a \<and> in_bytes 0x80 0x8F b) \<and> cont_byte c \<and> cont_byte d
                then 4 else 1)
           | [] \<Rightarrow> 1)
      | [] \<Rightarrow> 1)"
| "rune_width _ = 1"

lemma rune_width_pos: "0 < rune_width s"
  by (induction s rule: rune_width.induct) (auto split: list.splits)

lemma rune_width_le: "s \<noteq> [] \<Longrightarrow> rune_width s \<le> length s"
  by (induction s rule: rune_width.induct) (auto split: list.splits)

text \<open>The conversion to \<open>[]rune\<close>, each rune with its bytes.\<close>

function runes :: "string \<Rightarrow> string list" where
  "runes [] = []"
| "runes (c # s) = take (rune_width (c # s)) (c # s) # runes (drop (rune_width (c # s)) (c # s))"
  by pat_completeness auto

termination
  by (relation "measure length") (use rune_width_pos in auto)

lemma concat_runes: "concat (runes s) = s"
  by (induction s rule: runes.induct) simp_all

lemma rune_width_ascii: "of_char c < (0x80 :: nat) \<Longrightarrow> rune_width (c # s) = 1"
  by (cases s) (auto simp: in_bytes_def split: list.splits)

lemma runes_ascii: "list_all (\<lambda>c. of_char c < (0x80 :: nat)) s \<Longrightarrow> runes s = map (\<lambda>c. [c]) s"
  by (induction s) (simp_all add: rune_width_ascii)

lemma runes_length: "length (runes s) \<le> length s"
proof (induction s rule: runes.induct)
  case (2 c s)
  have "rune_width (c # s) \<le> length (c # s)" by (rule rune_width_le) simp
  then show ?case using 2 rune_width_pos [of "c # s"] by simp
qed simp

end
