(* ===== verification/Go_Decimal.thy ===== *)
theory Go_Decimal
  imports Go_Strings Ast_Hash
begin

text \<open>
  Reading back the decimal text of a number: \<open>strconv.ParseInt\<close> inverts the printing of a
  non-negative int64.
\<close>

lemma digit_value_char: "d < 10 \<Longrightarrow> digit_value (char_of (48 + d)) = Some (int d)"
proof -
  have "\<forall>d \<in> set [0..<10]. digit_value (char_of (48 + d)) = Some (int d)" by code_simp
  then show "d < 10 \<Longrightarrow> digit_value (char_of (48 + d)) = Some (int d)" by simp
qed

lemma digits_value_append:
  "digits_value acc (s @ t) = (case digits_value acc s of None \<Rightarrow> None | Some v \<Rightarrow> digits_value v t)"
  by (induction s arbitrary: acc) (auto split: option.splits)

lemma digits_value_digits: "digits_value 0 (nat_digits n) = Some (int n)"
proof (induction n rule: nat_digits.induct)
  case (1 n)
  show ?case
  proof (cases "n < 10")
    case True
    then show ?thesis by (subst nat_digits.simps) (simp add: digit_value_char)
  next
    case False
    have "10 * int (n div 10) + int (n mod 10) = int n"
      by (metis int_ops(7) mult_div_mod_eq of_nat_add of_nat_numeral)
    then show ?thesis using False 1 [OF False]
      by (subst nat_digits.simps) (simp add: digits_value_append digit_value_char)
  qed
qed

lemma nat_digits_head: "\<exists>(d :: nat) t. d < 10 \<and> nat_digits n = char_of (48 + d) # t"
proof (induction n rule: nat_digits.induct)
  case (1 n)
  then show ?case by (cases "n < 10") (auto simp: nat_digits.simps [of n])
qed

lemma parse_int64_digits: "n < 2 ^ 63 \<Longrightarrow> parse_int64 (nat_digits n) = Some (int n)"
proof -
  assume n: "n < 2 ^ 63"
  obtain d :: nat and t where d: "d < 10" "nat_digits n = char_of (48 + d) # t" using nat_digits_head by blast
  have "\<forall>d \<in> set [0..<10]. (char_of (48 + d :: nat) :: char) \<noteq> CHR ''-'' \<and> (char_of (48 + d) :: char) \<noteq> CHR ''+''"
    by code_simp
  then have "(char_of (48 + d) :: char) \<noteq> CHR ''-''" "(char_of (48 + d) :: char) \<noteq> CHR ''+''" using d(1) by auto
  then have "sign_split (nat_digits n) = (False, nat_digits n)" using d(2) by (simp add: sign_split_def)
  moreover have "int n < 2 ^ 63" using n by (metis of_nat_less_iff of_nat_numeral of_nat_power)
  moreover have "parse_uint (nat_digits n) = Some (int n)"
    using d(2) digits_value_digits [of n] by (simp add: parse_uint_def)
  ultimately show ?thesis by (simp add: parse_int64_def)
qed

text \<open>The text of a number consists of digits, and so does a text without a sign that parses.\<close>

lemma digit_chars: "d < 10 \<Longrightarrow> between CHR ''0'' CHR ''9'' (char_of (48 + d :: nat))"
proof -
  have "\<forall>d \<in> set [0..<10]. between CHR ''0'' CHR ''9'' (char_of (48 + d :: nat))" by code_simp
  then show "d < 10 \<Longrightarrow> between CHR ''0'' CHR ''9'' (char_of (48 + d :: nat))" by simp
qed

lemma nat_digits_chars: "list_all (between CHR ''0'' CHR ''9'') (nat_digits n)"
proof (induction n rule: nat_digits.induct)
  case (1 n)
  then show ?case by (cases "n < 10") (auto simp: nat_digits.simps [of n] digit_chars)
qed

lemma digits_value_nonneg: "digits_value acc s = Some v \<Longrightarrow> 0 \<le> acc \<Longrightarrow> 0 \<le> v"
proof (induction s arbitrary: acc)
  case (Cons c s)
  then obtain d where d: "digit_value c = Some d" "digits_value (10 * acc + d) s = Some v" by (auto split: option.splits)
  have "0 \<le> d" using d(1) by (auto simp: digit_value_def between_def less_eq_char_def split: if_splits)
  then show ?case using Cons d by auto
qed simp

lemma parse_uint_nonneg: "parse_uint s = Some n \<Longrightarrow> 0 \<le> n"
  by (auto simp: parse_uint_def dest: digits_value_nonneg split: if_splits)

lemma parse_int64_unsigned:
  assumes "parse_int64 s = Some i" and "CHR ''-'' \<notin> set s"
  shows "0 \<le> i"
proof -
  have "fst (sign_split s) = False" using assms(2) by (cases s) (auto simp: sign_split_def)
  then show ?thesis using assms(1) parse_uint_nonneg
    by (auto simp: parse_int64_def Let_def split: prod.splits option.splits if_splits)
qed

end
