(* ===== verification/Storage_Path.thy ===== *)
theory Storage_Path
  imports Ast_Term Go_Decimal
begin

text \<open>
  Paths of the document store (storage/path.go): parsing, escaping, conversion from and to
  references, and the order on paths.

  A path is the slice of its segments.  The lemmas give the round trips between a path, its text and
  its reference, and the laws of the order and of the prefix test.
\<close>

type_synonym path = "string list"

section \<open>Parsing and printing\<close>

text \<open>The result \<open>(nil, false)\<close> is \<open>None\<close>.\<close>

definition parsePath :: "string \<Rightarrow> path option" where
  "parsePath str =
     (if length str = 0 then None
      else if str ! 0 \<noteq> CHR ''/'' then None
      else if length str = 1 then Some []
      else Some (split_on CHR ''/'' (tl str)))"

definition unescape_segment :: "string \<Rightarrow> string" where
  "unescape_segment s = (case path_unescape s of None \<Rightarrow> s | Some t \<Rightarrow> t)"

definition parsePathEscaped :: "string \<Rightarrow> path option" where
  "parsePathEscaped str = (case parsePath str of None \<Rightarrow> None | Some p \<Rightarrow> Some (map unescape_segment p))"

definition path_string :: "path \<Rightarrow> string" where
  "path_string p = CHR ''/'' # join_with CHR ''/'' (map path_escape p)"

section \<open>Paths and references\<close>

datatype path_error = EmptyReference | DoesNotExist ref | CompositeKey ref | Unresolved ref

fun path_segments :: "ref \<Rightarrow> val list \<Rightarrow> path_error + path" where
  "path_segments r [] = Inr []"
| "path_segments r (t # ts) =
     (let rest = (\<lambda>s. case path_segments r ts of Inl e \<Rightarrow> Inl e | Inr p \<Rightarrow> Inr (s # p))
      in case t of
           String s \<Rightarrow> rest s
         | Number n \<Rightarrow> rest (num_text n)
         | Boolean _ \<Rightarrow> Inl (DoesNotExist r)
         | Null \<Rightarrow> Inl (DoesNotExist r)
         | Array _ \<Rightarrow> Inl (CompositeKey r)
         | Object _ \<Rightarrow> Inl (CompositeKey r)
         | Set _ \<Rightarrow> Inl (CompositeKey r)
         | _ \<Rightarrow> Inl (Unresolved r))"

definition newPathForRef :: "ref \<Rightarrow> path_error + path" where
  "newPathForRef r =
     (if length r = 0 then Inl EmptyReference
      else if length r = 1 then Inr []
      else path_segments r (tl r))"

text \<open>The index is converted to \<open>uint64\<close> before it becomes a number.\<close>

definition uint64Number :: "64 word \<Rightarrow> json_number" where
  "uint64Number u = Num False (unat u) None None"

definition path_term :: "string \<Rightarrow> val" where
  "path_term s =
     (case parse_int64 s of
        Some idx \<Rightarrow> Number (uint64Number (word_of_int idx))
      | None \<Rightarrow> String s)"

definition path_ref :: "val \<Rightarrow> path \<Rightarrow> ref" where
  "path_ref head p = head # map path_term p"

section \<open>Order\<close>

definition path_compare :: "path \<Rightarrow> path \<Rightarrow> int" where
  "path_compare p other = lexcmp cmpi p other"

definition path_equal :: "path \<Rightarrow> path \<Rightarrow> bool" where
  "path_equal p other \<longleftrightarrow> path_compare p other = 0"

fun path_hasPrefix :: "path \<Rightarrow> path \<Rightarrow> bool" where
  "path_hasPrefix p [] = True"
| "path_hasPrefix [] (y # ys) = False"
| "path_hasPrefix (x # xs) (y # ys) = (x = y \<and> path_hasPrefix xs ys)"

section \<open>Lemmas\<close>

lemma path_hasPrefix_append: "path_hasPrefix p q \<longleftrightarrow> (\<exists>r. p = q @ r)"
  by (induction p q rule: path_hasPrefix.induct) auto

lemma path_hasPrefix_split: "path_hasPrefix p q \<Longrightarrow> p = q @ drop (length q) p"
  by (induction p q rule: path_hasPrefix.induct) auto

lemma path_compare_eq: "path_compare p q = 0 \<longleftrightarrow> p = q"
  unfolding path_compare_def by (induction "cmpi :: string cmp" p q rule: lexcmp.induct) auto

lemma path_equal_eq: "path_equal p q \<longleftrightarrow> p = q"
  by (simp add: path_equal_def path_compare_eq)

lemma unescape_segment_escape: "unescape_segment (path_escape s) = s"
  by (simp add: unescape_segment_def unescape_escape)

lemma path_segments_strings:
  "list_all (\<lambda>s. path_term s = String s \<or> (\<exists>n. path_term s = Number n \<and> num_text n = s)) p \<Longrightarrow>
     path_segments r (map path_term p) = Inr p"
  by (induction p) auto

lemma path_segments_total: "\<exists>q. path_segments r (map path_term p) = Inr q \<and> length q = length p"
  by (induction p) (auto simp: path_term_def split: option.splits)

lemma path_escape_empty: "path_escape s = [] \<longleftrightarrow> s = []"
  by (cases s) (simp_all add: path_escape_def escape_char_def)

lemma join_escaped_empty: "join_with CHR ''/'' (map path_escape p) = [] \<Longrightarrow> p = [] \<or> p = [[]]"
  by (cases p rule: remdups_adj.cases) (simp_all add: path_escape_empty)

text \<open>
  C20.  A path survives printing and parsing, whatever bytes its segments hold, except the path of
  one empty segment, which prints like the root.
\<close>

theorem path_print_parse:
  "parsePathEscaped (path_string p) = Some (if p = [[]] then [] else p)"
proof (cases "p = [] \<or> p = [[]]")
  case True
  then show ?thesis
    by (auto simp: parsePathEscaped_def parsePath_def path_string_def path_escape_def)
next
  case False
  then have "join_with CHR ''/'' (map path_escape p) \<noteq> []" using join_escaped_empty by blast
  moreover have "split_on CHR ''/'' (join_with CHR ''/'' (map path_escape p)) = map path_escape p"
    by (rule split_join) (use False escape_no_slash in auto)
  ultimately show ?thesis using False
    by (simp add: parsePathEscaped_def parsePath_def path_string_def unescape_segment_escape o_def)
qed

text \<open>
  A segment that the conversion to a reference keeps: it is no integer, or the decimal text of an
  index.
\<close>

definition plain_segment :: "string \<Rightarrow> bool" where
  "plain_segment s \<longleftrightarrow>
     (case parse_int64 s of None \<Rightarrow> True | Some i \<Rightarrow> 0 \<le> i \<and> s = nat_digits (nat i))"

lemma plain_index: "n < 2 ^ 63 \<Longrightarrow> plain_segment (nat_digits n)"
  by (simp add: plain_segment_def parse_int64_digits)

lemma plain_segment_term:
  assumes "plain_segment s"
  shows "path_term s = String s \<or> (\<exists>n. path_term s = Number n \<and> num_text n = s)"
proof (cases "parse_int64 s")
  case None
  then show ?thesis by (simp add: path_term_def)
next
  case (Some i)
  then have i: "0 \<le> i" "s = nat_digits (nat i)" using assms by (simp_all add: plain_segment_def)
  moreover have "i < 2 ^ 64" using parse_int64_range [OF Some] by simp
  ultimately have "unat (word_of_int i :: 64 word) = nat i"
    by (simp add: unsigned_of_int take_bit_int_eq_self)
  then show ?thesis using Some i(2) by (simp add: path_term_def uint64Number_def)
qed

text \<open>
  A path whose segments are plain survives the conversion to a reference and back; whatever the
  segments are, the conversion back never fails.
\<close>

theorem path_ref_round_trip:
  "(\<exists>q. newPathForRef (path_ref head p) = Inr q \<and> length q = length p) \<and>
   (list_all plain_segment p \<longrightarrow> newPathForRef (path_ref head p) = Inr p)"
proof -
  have unfolded: "newPathForRef (path_ref head p) = path_segments (path_ref head p) (map path_term p)"
    by (cases p) (simp_all add: newPathForRef_def path_ref_def)
  have "list_all plain_segment p \<Longrightarrow> path_segments (path_ref head p) (map path_term p) = Inr p"
    by (rule path_segments_strings) (auto simp: list_all_iff plain_segment_term)
  then show ?thesis using path_segments_total [of "path_ref head p" p] unfolded by simp
qed

theorem path_ref_round_trip_witness:
  "newPathForRef (path_ref (Var ''data'') [''a'', ''0'', ''x/y'']) = Inr [''a'', ''0'', ''x/y'']"
proof -
  have "list_all plain_segment [''a'', ''0'', ''x/y'']" by code_simp
  then show ?thesis using path_ref_round_trip [of "Var ''data''" "[''a'', ''0'', ''x/y'']"] by blast
qed

text \<open>
  The conversion goes through \<open>uint64\<close>: a negative segment comes back as another path, and so
  does an integer with a leading zero or sign.
\<close>

theorem path_ref_wraps:
  "newPathForRef (path_ref head [''-1'']) = Inr [''18446744073709551615''] \<and>
   newPathForRef (path_ref head [''007'']) = Inr [''7'']"
proof
  have "parse_int64 ''-1'' = Some (- 1)" by code_simp
  moreover have "unat (word_of_int (- 1) :: 64 word) = 18446744073709551615"
    by (simp only: unsigned_of_int) (simp add: mask_eq_exp_minus_1)
  moreover have "nat_digits 18446744073709551615 = ''18446744073709551615''"
    by (simp add: nat_digits.simps char_of_def bit_0)
  ultimately have "path_segments r [path_term ''-1''] = Inr [''18446744073709551615'']" for r
    by (simp only: path_term_def uint64Number_def option.case path_segments.simps Let_def val.case
        num_text.simps) simp
  then show "newPathForRef (path_ref head [''-1'']) = Inr [''18446744073709551615'']"
    by (simp add: newPathForRef_def path_ref_def)
  have "parse_int64 ''007'' = Some 7" by code_simp
  moreover have "nat_digits 7 = ''7''" by code_simp
  ultimately have "path_segments r [path_term ''007''] = Inr [''7'']" for r
    by (simp add: path_term_def uint64Number_def)
  then show "newPathForRef (path_ref head [''007'']) = Inr [''7'']"
    by (simp add: newPathForRef_def path_ref_def)
qed

end
