(* ===== verification/Json_Doc.thy ===== *)
theory Json_Doc
  imports Storage_Path "HOL-Library.Finite_Map"
begin

text \<open>
  JSON documents as the store keeps them, the values of Go's \<open>interface{}\<close> that
  \<open>encoding/json\<close> produces, and lookups by path (storage/internal/ptr/ptr.go,
  storage/internal/errors/errors.go).

  A document is a value: the code changes maps and slices in place, here the changed document is
  returned.  \<open>jput\<close> is the reference definition of a change at a path that leads through objects; its
  laws say how a change at one path shows at another, and carry the proofs about transactions.
\<close>

section \<open>Documents and errors\<close>

datatype json =
    JNull
  | JBool bool
  | JNum json_number
  | JStr string
  | JArr "json list"
  | JObj "(string, json) fmap"

datatype hint = ArrayIndexTypeMsg | DoesNotExistMsg | OutOfRangeMsg

datatype storage_error =
    NotFoundErr path hint
  | PolicyNotFoundErr string
  | WriteConflictErr path
  | InvalidPatchErr string
  | InvalidTransactionErr string
  | PathInvalidErr path
  | MergeErr path
  | DecodeErr
  | IteratorErr
  | GoPanic

definition newNotFoundError :: "path \<Rightarrow> storage_error" where
  "newNotFoundError p = NotFoundErr p DoesNotExistMsg"

section \<open>Lookup by path\<close>

definition inRange :: "int \<Rightarrow> json list \<Rightarrow> path \<Rightarrow> storage_error + nat" where
  "inRange i arr p =
     (if i < 0 \<or> i \<ge> int (length arr) then Inl (NotFoundErr p OutOfRangeMsg) else Inr (nat i))"

definition validateArrayIndex :: "json list \<Rightarrow> string \<Rightarrow> path \<Rightarrow> storage_error + nat" where
  "validateArrayIndex arr s p =
     (case parse_int64 s of
        None \<Rightarrow> Inl (NotFoundErr p ArrayIndexTypeMsg)
      | Some idx \<Rightarrow> inRange idx arr p)"

definition validateArrayIndexForWrite :: "json list \<Rightarrow> string \<Rightarrow> nat \<Rightarrow> path \<Rightarrow> storage_error + nat" where
  "validateArrayIndexForWrite arr s i p =
     (case parse_int64 s of
        None \<Rightarrow> Inl (WriteConflictErr (take (i - 1) p))
      | Some idx \<Rightarrow> inRange idx arr p)"

text \<open>The loop of \<open>Ptr\<close>: the node it has reached and the keys still to follow.\<close>

fun ptr_from :: "path \<Rightarrow> json \<Rightarrow> path \<Rightarrow> storage_error + json" where
  "ptr_from p nd [] = Inr nd"
| "ptr_from p nd (key # keys) =
     (case nd of
        JObj m \<Rightarrow>
          (case fmlookup m key of
             None \<Rightarrow> Inl (newNotFoundError p)
           | Some x \<Rightarrow> ptr_from p x keys)
      | JArr arr \<Rightarrow>
          (case validateArrayIndex arr key p of
             Inl e \<Rightarrow> Inl e
           | Inr pos \<Rightarrow> ptr_from p (arr ! pos) keys)
      | _ \<Rightarrow> Inl (newNotFoundError p))"

definition ptr :: "json \<Rightarrow> path \<Rightarrow> storage_error + json" where
  "ptr data p = ptr_from p data p"

section \<open>Documents as maps from paths\<close>

text \<open>What a lookup finds, and the change of a document at a path through its objects.\<close>

definition found :: "storage_error + 'a \<Rightarrow> 'a option" where
  "found r = (case r of Inl _ \<Rightarrow> None | Inr x \<Rightarrow> Some x)"

fun jget :: "json \<Rightarrow> path \<Rightarrow> json option" where
  "jget d [] = Some d"
| "jget d (k # ks) =
     (case d of
        JObj m \<Rightarrow> (case fmlookup m k of None \<Rightarrow> None | Some x \<Rightarrow> jget x ks)
      | JArr arr \<Rightarrow>
          (case parse_int64 k of
             None \<Rightarrow> None
           | Some i \<Rightarrow> if i < 0 \<or> i \<ge> int (length arr) then None else jget (arr ! nat i) ks)
      | _ \<Rightarrow> None)"

definition set_key :: "string \<Rightarrow> json option \<Rightarrow> (string, json) fmap \<Rightarrow> (string, json) fmap" where
  "set_key k v m = (case v of None \<Rightarrow> fmdrop k m | Some x \<Rightarrow> fmupd k x m)"

fun jput :: "path \<Rightarrow> json option \<Rightarrow> json \<Rightarrow> json" where
  "jput [] v d = (case v of None \<Rightarrow> d | Some x \<Rightarrow> x)"
| "jput (k # ks) v d =
     (case d of
        JObj m \<Rightarrow>
          JObj (if ks = [] then set_key k v m
                else case fmlookup m k of None \<Rightarrow> m | Some x \<Rightarrow> fmupd k (jput ks v x) m)
      | _ \<Rightarrow> d)"

text \<open>The object that holds the last key of a path, reached through objects.\<close>

fun parent_obj :: "json \<Rightarrow> path \<Rightarrow> (string, json) fmap option" where
  "parent_obj d [] = None"
| "parent_obj d (k # ks) =
     (case d of
        JObj m \<Rightarrow>
          (if ks = [] then Some m
           else case fmlookup m k of None \<Rightarrow> None | Some x \<Rightarrow> parent_obj x ks)
      | _ \<Rightarrow> None)"

text \<open>No array lies strictly above the end of a path.\<close>

fun no_array_above :: "json \<Rightarrow> path \<Rightarrow> bool" where
  "no_array_above d [] = True"
| "no_array_above d (k # ks) =
     (case d of
        JObj m \<Rightarrow> (case fmlookup m k of None \<Rightarrow> True | Some x \<Rightarrow> no_array_above x ks)
      | JArr _ \<Rightarrow> False
      | _ \<Rightarrow> True)"

definition apart :: "path \<Rightarrow> path \<Rightarrow> bool" where
  "apart p q \<longleftrightarrow> \<not> path_hasPrefix p q \<and> \<not> path_hasPrefix q p"

lemma ptr_from_jget: "found (ptr_from p d ks) = jget d ks"
  by (induction d ks rule: jget.induct)
    (auto simp: found_def validateArrayIndex_def inRange_def split: json.splits option.splits sum.splits)

lemma ptr_jget: "found (ptr d p) = jget d p"
  by (simp add: ptr_def ptr_from_jget)

lemma ptr_from_Inl: "found r = None \<longleftrightarrow> (\<exists>e. r = Inl e)" and found_Some: "found r = Some x \<longleftrightarrow> r = Inr x"
  by (auto simp: found_def split: sum.splits)

lemma apart_sym: "apart p q = apart q p"
  by (auto simp: apart_def)

lemma apart_simps [simp]:
  "apart (x # p) (y # q) \<longleftrightarrow> x \<noteq> y \<or> apart p q" "\<not> apart [] q" "\<not> apart p []"
  by (auto simp: apart_def)

lemma jget_append: "jget d (p @ q) = (case jget d p of None \<Rightarrow> None | Some x \<Rightarrow> jget x q)"
  by (induction d p rule: jget.induct) (auto split: json.splits option.splits)

lemma fmlookup_set_key [simp]: "fmlookup (set_key k v m) j = (if j = k then v else fmlookup m j)"
  by (cases v) (auto simp: set_key_def)

section \<open>How a change shows\<close>

lemma jget_jput_apart: "apart p q \<Longrightarrow> jget (jput q v d) p = jget d p"
proof (induction q v d arbitrary: p rule: jput.induct)
  case (2 k ks v d)
  show ?case
  proof (cases p)
    case (Cons j js)
    then show ?thesis using 2 by (cases d) (auto split: option.splits)
  qed (use 2 in simp)
qed simp

lemma jget_jput_below:
  "parent_obj d q \<noteq> None \<Longrightarrow> jget (jput q v d) (q @ r) = (case v of None \<Rightarrow> None | Some x \<Rightarrow> jget x r)"
  by (induction q v d rule: jput.induct) (auto split: json.splits option.splits if_splits)

lemma jget_jput_above:
  "r \<noteq> [] \<Longrightarrow> parent_obj d (p @ r) \<noteq> None \<Longrightarrow> jget (jput (p @ r) v d) p = map_option (jput r v) (jget d p)"
  by (induction d p rule: jget.induct) (auto split: json.splits option.splits)

lemma jput_apart_commute: "apart p q \<Longrightarrow> jput p a (jput q b d) = jput q b (jput p a d)"
proof (induction q b d arbitrary: p rule: jput.induct)
  case (2 k ks b d)
  obtain j js where p: "p = j # js" using 2(2) by (cases p) auto
  show ?case
  proof (cases d)
    case (JObj m)
    then show ?thesis using 2(2) p
      by (cases "j = k")
        (auto intro!: fmap_ext simp: 2(1) split: option.splits)
  qed (simp_all add: p)
qed simp

lemma jput_mask: "r \<noteq> [] \<Longrightarrow> p \<noteq> [] \<Longrightarrow> jput p a (jput (p @ r) b d) = jput p a d"
proof (induction p a d rule: jput.induct)
  case (2 k ks a d)
  then show ?case by (cases d) (auto intro!: fmap_ext split: option.splits)
qed simp

lemma jput_under: "r \<noteq> [] \<Longrightarrow> jput (p @ r) a (jput p (Some v) d) = jput p (Some (jput r a v)) d"
proof (induction p "Some v" d rule: jput.induct)
  case (2 k ks d)
  then show ?case by (cases d) (auto intro!: fmap_ext split: option.splits)
qed simp

lemma jput_same: "p \<noteq> [] \<Longrightarrow> jput p a (jput p b d) = jput p a d"
proof (induction p a d rule: jput.induct)
  case (2 k ks a d)
  then show ?case by (cases d) (auto intro!: fmap_ext split: option.splits)
qed simp

lemma jput_object: "r \<noteq> [] \<Longrightarrow> \<exists>m'. jput r v (JObj m) = JObj m'"
  by (cases r) auto

lemma parent_obj_no_array: "parent_obj d p \<noteq> None \<Longrightarrow> no_array_above d p"
  by (induction d p rule: no_array_above.induct) (auto split: json.splits option.splits if_splits)

lemma parent_obj_above: "parent_obj d (p @ r) \<noteq> None \<Longrightarrow> r \<noteq> [] \<Longrightarrow> \<exists>x. jget d p = Some x \<and> parent_obj x r \<noteq> None"
  by (induction d p rule: jget.induct) (auto split: json.splits option.splits if_splits)

end
