(* ===== verification/Storage_Txn.thy ===== *)
theory Storage_Txn
  imports Json_Doc
begin

text \<open>
  Transactions of the in-memory store (storage/inmem/txn.go): the pending updates of a write
  transaction, how a write compacts them, how a read merges them, and the commit.

  The reference is the transaction's view, the document with every pending update applied.  Where no
  array lies above the path of a write, a write is a patch of the view, a read is a lookup in the
  view, and a commit installs the view.
\<close>

section \<open>Updates\<close>

datatype patchOp = AddOp | RemoveOp | ReplaceOp

record update =
  u_path :: path
  u_remove :: bool
  u_value :: json

abbreviation mk_update :: "path \<Rightarrow> bool \<Rightarrow> json \<Rightarrow> update" where
  "mk_update p r v \<equiv> \<lparr>u_path = p, u_remove = r, u_value = v\<rparr>"

definition insert_at :: "nat \<Rightarrow> 'a \<Rightarrow> 'a list \<Rightarrow> 'a list" where
  "insert_at i x xs = take i xs @ x # drop i xs"

definition delete_at :: "nat \<Rightarrow> 'a list \<Rightarrow> 'a list" where
  "delete_at i xs = take i xs @ drop (Suc i) xs"

text \<open>The last key of the path of an update to an array.\<close>

definition array_update :: "json list \<Rightarrow> patchOp \<Rightarrow> path \<Rightarrow> string \<Rightarrow> json \<Rightarrow> storage_error + update" where
  "array_update arr op p key newv =
     (if key = ''-'' \<or> key = int_text (int (length arr)) then
        if op \<noteq> AddOp then Inl (InvalidPatchErr ''invalid patch path'')
        else Inr (mk_update (butlast p) False (JArr (arr @ [newv])))
      else
        case validateArrayIndex arr key p of
          Inl e \<Rightarrow> Inl e
        | Inr pos \<Rightarrow>
            Inr (mk_update (butlast p) False (JArr
              (case op of
                 AddOp \<Rightarrow> insert_at pos newv arr
               | RemoveOp \<Rightarrow> delete_at pos arr
               | ReplaceOp \<Rightarrow> arr[pos := newv]))))"

definition object_update :: "(string, json) fmap \<Rightarrow> patchOp \<Rightarrow> path \<Rightarrow> string \<Rightarrow> json \<Rightarrow> storage_error + update" where
  "object_update m op p key newv =
     (if op \<noteq> AddOp \<and> fmlookup m key = None then Inl (newNotFoundError p)
      else Inr (mk_update p (op = RemoveOp) newv))"

text \<open>
  \<open>newUpdate\<close> with the keys of the path from the index on; an index past the end of the path is a
  panic.
\<close>

fun newUpdate :: "json \<Rightarrow> patchOp \<Rightarrow> path \<Rightarrow> path \<Rightarrow> json \<Rightarrow> storage_error + update" where
  "newUpdate data op p [] newv =
     (case data of JObj _ \<Rightarrow> Inl GoPanic | JArr _ \<Rightarrow> Inl GoPanic | _ \<Rightarrow> Inl (newNotFoundError p))"
| "newUpdate data op p (key # keys) newv =
     (case data of
        JObj m \<Rightarrow>
          (if keys = [] then object_update m op p key newv
           else case fmlookup m key of
                  Some x \<Rightarrow> newUpdate x op p keys newv
                | None \<Rightarrow> Inl (newNotFoundError p))
      | JArr arr \<Rightarrow>
          (if keys = [] then array_update arr op p key newv
           else case validateArrayIndex arr key p of
                  Inl e \<Rightarrow> Inl e
                | Inr pos \<Rightarrow> newUpdate (arr ! pos) op p keys newv)
      | _ \<Rightarrow> Inl (newNotFoundError p))"

text \<open>The change of the parent that \<open>Apply\<close> makes in place, and the walk down to the parent.\<close>

definition apply_child :: "update \<Rightarrow> string \<Rightarrow> json \<Rightarrow> storage_error + json" where
  "apply_child u key parent =
     (if u_remove u then
        (case parent of JObj m \<Rightarrow> Inr (JObj (fmdrop key m)) | _ \<Rightarrow> Inl GoPanic)
      else
        (case parent of
           JObj m \<Rightarrow> Inr (JObj (fmupd key (u_value u) m))
         | JArr arr \<Rightarrow>
             (case parse_int64 key of
                None \<Rightarrow> Inl GoPanic
              | Some idx \<Rightarrow>
                  if idx < 0 \<or> idx \<ge> int (length arr) then Inl GoPanic
                  else Inr (JArr (arr[nat idx := u_value u])))
         | _ \<Rightarrow> Inr parent))"

fun apply_at :: "update \<Rightarrow> path \<Rightarrow> json \<Rightarrow> storage_error + json" where
  "apply_at u [] d = Inr (u_value u)"
| "apply_at u [key] d = apply_child u key d"
| "apply_at u (k # k' # ks) d =
     (case d of
        JObj m \<Rightarrow>
          (case fmlookup m k of
             None \<Rightarrow> Inl GoPanic
           | Some x \<Rightarrow>
               (case apply_at u (k' # ks) x of Inl e \<Rightarrow> Inl e | Inr y \<Rightarrow> Inr (JObj (fmupd k y m))))
      | JArr arr \<Rightarrow>
          (case validateArrayIndex arr k [] of
             Inl _ \<Rightarrow> Inl GoPanic
           | Inr pos \<Rightarrow>
               (case apply_at u (k' # ks) (arr ! pos) of Inl e \<Rightarrow> Inl e | Inr y \<Rightarrow> Inr (JArr (arr[pos := y]))))
      | _ \<Rightarrow> Inl GoPanic)"

definition apply_update :: "update \<Rightarrow> json \<Rightarrow> storage_error + json" where
  "apply_update u d = apply_at u (u_path u) d"

definition relative :: "update \<Rightarrow> path \<Rightarrow> update" where
  "relative u p = u\<lparr>u_path := drop (length p) (u_path u)\<rparr>"

section \<open>Transactions\<close>

record policyUpdate =
  pu_value :: string
  pu_remove :: bool

record transaction =
  t_xid :: "64 word"
  t_write :: bool
  t_stale :: bool
  t_updates :: "update list"
  t_policies :: "(string, policyUpdate) fmap"

definition newTransaction :: "64 word \<Rightarrow> bool \<Rightarrow> transaction" where
  "newTransaction xid w =
     \<lparr>t_xid = xid, t_write = w, t_stale = False, t_updates = [], t_policies = fmempty\<rparr>"

definition updateRoot :: "transaction \<Rightarrow> patchOp \<Rightarrow> json \<Rightarrow> transaction \<times> storage_error option" where
  "updateRoot txn op newv =
     (if op = RemoveOp then (txn, Some (InvalidPatchErr ''root cannot be removed''))
      else case newv of
             JObj _ \<Rightarrow> (txn\<lparr>t_updates := [mk_update [] False newv]\<rparr>, None)
           | _ \<Rightarrow> (txn, Some (InvalidPatchErr ''root must be object'')))"

text \<open>
  How the loop over the pending updates ends: with an error, with an update changed in place, or by
  falling through to the new update.
\<close>

datatype loop_end = Failed storage_error | Changed | FallThrough

fun write_loop :: "patchOp \<Rightarrow> path \<Rightarrow> json \<Rightarrow> update list \<Rightarrow> update list \<times> loop_end" where
  "write_loop op p newv [] = ([], FallThrough)"
| "write_loop op p newv (u # us) =
     (if path_equal (u_path u) p then
        if u_remove u \<and> op \<noteq> AddOp then (u # us, Failed (newNotFoundError p))
        else (us, FallThrough)
      else if path_hasPrefix (u_path u) p then write_loop op p newv us
      else if path_hasPrefix p (u_path u) then
        if u_remove u then (u # us, Failed (newNotFoundError p))
        else
          let suffix = drop (length (u_path u)) p
          in case newUpdate (u_value u) op suffix suffix newv of
               Inl e \<Rightarrow> (u # us, Failed e)
             | Inr n \<Rightarrow>
                 (case apply_update n (u_value u) of
                    Inl e \<Rightarrow> (u # us, Failed e)
                  | Inr v \<Rightarrow> (u\<lparr>u_value := v\<rparr> # us, Changed))
      else let (us', r) = write_loop op p newv us in (u # us', r))"

definition txn_write :: "(string, json) fmap \<Rightarrow> transaction \<Rightarrow> patchOp \<Rightarrow> path \<Rightarrow> json \<Rightarrow> transaction \<times> storage_error option" where
  "txn_write data txn op p newv =
     (if \<not> t_write txn then (txn, Some (InvalidTransactionErr ''data write during read transaction''))
      else if length p = 0 then updateRoot txn op newv
      else
        let (us, r) = write_loop op p newv (t_updates txn);
            txn' = txn\<lparr>t_updates := us\<rparr>
        in case r of
             Failed e \<Rightarrow> (txn', Some e)
           | Changed \<Rightarrow> (txn', None)
           | FallThrough \<Rightarrow>
               (case newUpdate (JObj data) op p p newv of
                  Inl e \<Rightarrow> (txn', Some e)
                | Inr u \<Rightarrow> (txn'\<lparr>t_updates := u # us\<rparr>, None)))"

text \<open>
  The loop of \<open>Read\<close> over the pending updates: a result it returns at once, or the updates to merge
  in front of the ones found so far.
\<close>

fun read_loop :: "path \<Rightarrow> update list \<Rightarrow> (storage_error + json) + update list" where
  "read_loop p [] = Inr []"
| "read_loop p (u # us) =
     (if path_hasPrefix p (u_path u) then
        if u_remove u then Inl (Inl (newNotFoundError p))
        else Inl (ptr (u_value u) (drop (length (u_path u)) p))
      else
        case read_loop p us of
          Inl r \<Rightarrow> Inl r
        | Inr merge \<Rightarrow> Inr (if path_hasPrefix (u_path u) p then u # merge else merge))"

fun apply_all :: "update list \<Rightarrow> json \<Rightarrow> storage_error + json" where
  "apply_all [] d = Inr d"
| "apply_all (u # us) d = (case apply_update u d of Inl e \<Rightarrow> Inl e | Inr d' \<Rightarrow> apply_all us d')"

definition txn_read :: "(string, json) fmap \<Rightarrow> transaction \<Rightarrow> path \<Rightarrow> storage_error + json" where
  "txn_read data txn p =
     (if \<not> t_write txn then ptr (JObj data) p
      else
        case read_loop p (t_updates txn) of
          Inl r \<Rightarrow> r
        | Inr merge \<Rightarrow>
            (case ptr (JObj data) p of
               Inl e \<Rightarrow> Inl e
             | Inr d \<Rightarrow>
                 (if length merge = 0 then Inr d
                  else apply_all (map (\<lambda>u. relative u p) merge) d)))"

text \<open>
  \<open>Commit\<close>: the new data and policies with the events for the triggers.  A document that is no object
  fails the type assertion.  The loop over the policy updates visits a map in an order of its own; the
  order of the ids is a parameter.
\<close>

record dataEvent =
  de_path :: path
  de_data :: json
  de_removed :: bool

record policyEvent =
  pe_id :: string
  pe_data :: string
  pe_removed :: bool

fun commit_data :: "update list \<Rightarrow> (string, json) fmap \<Rightarrow> storage_error + ((string, json) fmap \<times> dataEvent list)" where
  "commit_data [] data = Inr (data, [])"
| "commit_data (u # us) data =
     (case apply_update u (JObj data) of
        Inl e \<Rightarrow> Inl e
      | Inr (JObj data') \<Rightarrow>
          (case commit_data us data' of
             Inl e \<Rightarrow> Inl e
           | Inr (d, es) \<Rightarrow>
               Inr (d, \<lparr>de_path = u_path u, de_data = u_value u, de_removed = u_remove u\<rparr> # es))
      | Inr _ \<Rightarrow> Inl GoPanic)"

fun commit_policies ::
  "string list \<Rightarrow> (string, policyUpdate) fmap \<Rightarrow> (string, string) fmap \<Rightarrow> (string, string) fmap \<times> policyEvent list" where
  "commit_policies [] ups ps = (ps, [])"
| "commit_policies (i # ids) ups ps =
     (case fmlookup ups i of
        None \<Rightarrow> commit_policies ids ups ps
      | Some u \<Rightarrow>
          let ps' = (if pu_remove u then fmdrop i ps else fmupd i (pu_value u) ps);
              (ps'', es) = commit_policies ids ups ps'
          in (ps'', \<lparr>pe_id = i, pe_data = pu_value u, pe_removed = pu_remove u\<rparr> # es))"

section \<open>Policies\<close>

text \<open>
  The orders in which the two maps are visited are parameters, the ids of the store and of the
  transaction.
\<close>

definition listPolicies ::
  "string list \<Rightarrow> string list \<Rightarrow> (string, string) fmap \<Rightarrow> transaction \<Rightarrow> string list" where
  "listPolicies db_ids txn_ids ps txn =
     filter (\<lambda>i. fmlookup (t_policies txn) i = None) db_ids @
     filter (\<lambda>i. case fmlookup (t_policies txn) i of None \<Rightarrow> False | Some u \<Rightarrow> \<not> pu_remove u) txn_ids"

definition getPolicy :: "(string, string) fmap \<Rightarrow> transaction \<Rightarrow> string \<Rightarrow> storage_error + string" where
  "getPolicy ps txn i =
     (case fmlookup (t_policies txn) i of
        Some u \<Rightarrow> if \<not> pu_remove u then Inr (pu_value u) else Inl (PolicyNotFoundErr i)
      | None \<Rightarrow>
          (case fmlookup ps i of
             Some bs \<Rightarrow> Inr bs
           | None \<Rightarrow> Inl (PolicyNotFoundErr i)))"

definition upsertPolicy :: "transaction \<Rightarrow> string \<Rightarrow> string \<Rightarrow> transaction \<times> storage_error option" where
  "upsertPolicy txn i bs =
     (if \<not> t_write txn then (txn, Some (InvalidTransactionErr ''policy write during read transaction''))
      else (txn\<lparr>t_policies := fmupd i \<lparr>pu_value = bs, pu_remove = False\<rparr> (t_policies txn)\<rparr>, None))"

definition deletePolicy :: "transaction \<Rightarrow> string \<Rightarrow> transaction \<times> storage_error option" where
  "deletePolicy txn i =
     (if \<not> t_write txn then (txn, Some (InvalidTransactionErr ''policy write during read transaction''))
      else (txn\<lparr>t_policies := fmupd i \<lparr>pu_value = [], pu_remove = True\<rparr> (t_policies txn)\<rparr>, None))"

section \<open>The view of a transaction\<close>

definition u_new :: "update \<Rightarrow> json option" where
  "u_new u = (if u_remove u then None else Some (u_value u))"

fun view :: "update list \<Rightarrow> json \<Rightarrow> json" where
  "view [] d = d"
| "view (u # us) d = view us (jput (u_path u) (u_new u) d)"

text \<open>
  The invariant of the pending updates: two updates never overlap, and each one puts an object at the
  root or changes a key of an object that the committed document has, reached through objects.
\<close>

definition update_ok :: "json \<Rightarrow> update \<Rightarrow> bool" where
  "update_ok d u \<longleftrightarrow>
     (if u_path u = [] then \<not> u_remove u \<and> (case u_value u of JObj _ \<Rightarrow> True | _ \<Rightarrow> False)
      else parent_obj d (u_path u) \<noteq> None)"

definition updates_ok :: "json \<Rightarrow> update list \<Rightarrow> bool" where
  "updates_ok d us \<longleftrightarrow> list_all (update_ok d) us \<and> sorted_wrt (\<lambda>u w. apart (u_path u) (u_path w)) us"

text \<open>A patch of a document at a path: when it applies, and the document it gives.\<close>

definition patch_applies :: "patchOp \<Rightarrow> path \<Rightarrow> json \<Rightarrow> bool" where
  "patch_applies op p d \<longleftrightarrow>
     (case parent_obj d p of None \<Rightarrow> False | Some m \<Rightarrow> op = AddOp \<or> fmlookup m (last p) \<noteq> None)"

definition patch :: "patchOp \<Rightarrow> path \<Rightarrow> json \<Rightarrow> json \<Rightarrow> json" where
  "patch op p newv d = jput p (if op = RemoveOp then None else Some newv) d"

subsection \<open>Updates through objects\<close>

lemma newUpdate_objects:
  "no_array_above d ks \<Longrightarrow> ks \<noteq> [] \<Longrightarrow>
     (if patch_applies op ks d then newUpdate d op p ks newv = Inr (mk_update p (op = RemoveOp) newv)
      else newUpdate d op p ks newv = Inl (newNotFoundError p))"
  by (induction d op p ks newv rule: newUpdate.induct)
    (auto simp: patch_applies_def object_update_def split: json.splits option.splits if_splits)

lemma apply_at_jput:
  "ks \<noteq> [] \<Longrightarrow> parent_obj d ks \<noteq> None \<Longrightarrow> apply_at u ks d = Inr (jput ks (u_new u) d)"
  by (induction u ks d rule: apply_at.induct)
    (auto simp: apply_child_def u_new_def set_key_def split: json.splits option.splits if_splits)

lemma apply_update_jput: "update_ok d u \<Longrightarrow> apply_update u d = Inr (jput (u_path u) (u_new u) d)"
  by (cases "u_path u = []") (auto simp: update_ok_def apply_update_def apply_at_jput u_new_def)

lemma patch_applies_Cons:
  "patch_applies op (k # ks) d \<longleftrightarrow>
     (case d of
        JObj m \<Rightarrow>
          (if ks = [] then op = AddOp \<or> fmlookup m k \<noteq> None
           else case fmlookup m k of None \<Rightarrow> False | Some x \<Rightarrow> patch_applies op ks x)
      | _ \<Rightarrow> False)"
  by (auto simp: patch_applies_def split: json.splits option.splits)

lemma patch_applies_Nil [simp]: "\<not> patch_applies op [] d"
  by (simp add: patch_applies_def)

lemma parent_obj_patch: "parent_obj d p \<noteq> None \<longleftrightarrow> patch_applies AddOp p d"
  by (auto simp: patch_applies_def split: option.splits)

lemma patch_applies_jput: "\<not> path_hasPrefix p q \<Longrightarrow> patch_applies op p (jput q v d) \<longleftrightarrow> patch_applies op p d"
proof (induction q v d arbitrary: p rule: jput.induct)
  case (2 k ks v d)
  show ?case
  proof (cases p)
    case (Cons j js)
    then show ?thesis using 2 by (cases d) (auto simp: patch_applies_Cons split: option.splits)
  qed simp
qed simp

lemma no_array_above_jput: "\<not> path_hasPrefix p q \<Longrightarrow> no_array_above (jput q v d) p \<longleftrightarrow> no_array_above d p"
proof (induction q v d arbitrary: p rule: jput.induct)
  case (2 k ks v d)
  show ?case
  proof (cases p)
    case (Cons j js)
    then show ?thesis using 2 by (cases d) (auto split: option.splits)
  qed simp
qed simp

lemma patch_applies_below:
  "parent_obj d q \<noteq> None \<or> q = [] \<Longrightarrow> r \<noteq> [] \<Longrightarrow>
     patch_applies op (q @ r) (jput q (Some v) d) \<longleftrightarrow> patch_applies op r v"
  by (induction q "Some v" d rule: jput.induct)
    (auto simp: patch_applies_Cons split: json.splits option.splits if_splits)

lemma no_array_above_below:
  "parent_obj d q \<noteq> None \<or> q = [] \<Longrightarrow> no_array_above (jput q (Some v) d) (q @ r) \<longleftrightarrow> no_array_above v r"
  by (induction q "Some v" d rule: jput.induct) (auto split: json.splits option.splits if_splits)

lemma patch_applies_removed: "parent_obj d q \<noteq> None \<Longrightarrow> r \<noteq> [] \<Longrightarrow> \<not> patch_applies op (q @ r) (jput q None d)"
  by (induction q "None :: json option" d rule: jput.induct)
    (auto simp: patch_applies_Cons split: json.splits option.splits if_splits)

lemma patch_applies_here:
  "parent_obj d q \<noteq> None \<Longrightarrow> patch_applies op q (jput q v d) \<longleftrightarrow> op = AddOp \<or> v \<noteq> None"
  by (induction q v d rule: jput.induct)
    (auto simp: patch_applies_Cons split: json.splits option.splits if_splits)

lemma patch_applies_above: "parent_obj d (p @ r) \<noteq> None \<Longrightarrow> r \<noteq> [] \<Longrightarrow> p \<noteq> [] \<Longrightarrow> patch_applies op p d"
proof (induction d p rule: parent_obj.induct)
  case (2 d k ks)
  then show ?case
    by (cases "ks = []") (auto simp: patch_applies_Cons split: json.splits option.splits)
qed simp

lemma parent_obj_apart:
  "apart p q \<Longrightarrow> parent_obj (jput q v d) p \<noteq> None \<longleftrightarrow> parent_obj d p \<noteq> None"
  by (simp only: parent_obj_patch) (simp add: patch_applies_jput apart_def)

lemma update_ok_apart: "apart (u_path u) q \<Longrightarrow> update_ok (jput q v d) u \<longleftrightarrow> update_ok d u"
  unfolding update_ok_def using parent_obj_apart [of "u_path u" q v d] by simp

lemma updates_ok_simps:
  "updates_ok d []"
  "updates_ok d (u # us) \<longleftrightarrow>
     update_ok d u \<and> (\<forall>w \<in> set us. apart (u_path u) (u_path w)) \<and> updates_ok d us"
  by (auto simp: updates_ok_def)

lemma updates_ok_step:
  "updates_ok d (u # us) \<Longrightarrow> updates_ok (jput (u_path u) (u_new u) d) us"
  by (simp add: updates_ok_def list_all_iff update_ok_apart apart_sym)

lemma apply_all_view: "updates_ok d us \<Longrightarrow> apply_all us d = Inr (view us d)"
proof (induction us arbitrary: d)
  case (Cons u us)
  then have "update_ok d u" by (simp add: updates_ok_def)
  then show ?case using Cons.IH [OF updates_ok_step [OF Cons.prems]] by (simp add: apply_update_jput)
qed simp

subsection \<open>The view at a path\<close>

definition apart_from :: "path \<Rightarrow> update list \<Rightarrow> bool" where
  "apart_from p us \<longleftrightarrow> list_all (\<lambda>u. apart p (u_path u)) us"

lemma apart_from_simps [simp]:
  "apart_from p []" "apart_from p (u # us) \<longleftrightarrow> apart p (u_path u) \<and> apart_from p us"
  "apart_from p (us @ ws) \<longleftrightarrow> apart_from p us \<and> apart_from p ws"
  by (simp_all add: apart_from_def)

lemma view_append: "view (us @ ws) d = view ws (view us d)"
  by (induction us arbitrary: d) simp_all

lemma view_jput: "apart_from p us \<Longrightarrow> view us (jput p v d) = jput p v (view us d)"
  by (induction us arbitrary: d) (simp_all add: jput_apart_commute apart_sym)

lemma jget_view_apart: "apart_from p us \<Longrightarrow> jget (view us d) p = jget d p"
  by (induction us arbitrary: d) (simp_all add: jget_jput_apart)

lemma patch_applies_view:
  "\<forall>u \<in> set us. \<not> path_hasPrefix p (u_path u) \<Longrightarrow> patch_applies op p (view us d) \<longleftrightarrow> patch_applies op p d"
  by (induction us arbitrary: d) (simp_all add: patch_applies_jput)

lemma no_array_above_view:
  "\<forall>u \<in> set us. \<not> path_hasPrefix p (u_path u) \<Longrightarrow> no_array_above (view us d) p \<longleftrightarrow> no_array_above d p"
  by (induction us arbitrary: d) (simp_all add: no_array_above_jput)

lemma apart_from_noprefix: "apart_from p us \<Longrightarrow> u \<in> set us \<Longrightarrow> \<not> path_hasPrefix p (u_path u)"
  by (auto simp: apart_from_def list_all_iff apart_def)

lemma view_masked:
  assumes "p \<noteq> []" and "\<forall>u \<in> set us. \<not> path_hasPrefix p (u_path u)"
  shows "jput p a (view us d) = jput p a (view (filter (\<lambda>u. \<not> path_hasPrefix (u_path u) p) us) d)"
  using assms(2)
proof (induction us arbitrary: d)
  case (Cons u us)
  let ?rest = "filter (\<lambda>u. \<not> path_hasPrefix (u_path u) p) us"
  have rest: "apart_from p ?rest" using Cons.prems by (auto simp: apart_from_def list_all_iff apart_def)
  show ?case
  proof (cases "path_hasPrefix (u_path u) p")
    case True
    then obtain r where r: "u_path u = p @ r" by (auto simp: path_hasPrefix_append)
    moreover have "r \<noteq> []" using r Cons.prems by (auto simp: path_hasPrefix_append)
    ultimately have "jput p a (jput (u_path u) (u_new u) d) = jput p a d"
      using assms(1) by (simp add: jput_mask)
    then have "jput p a (view ?rest (jput (u_path u) (u_new u) d)) = jput p a (view ?rest d)"
      using view_jput [OF rest] by metis
    then show ?thesis using True Cons by simp
  qed (use Cons in simp)
qed simp

text \<open>An update that is a prefix of the path leaves the others apart from it.\<close>

lemma updates_ok_split:
  assumes "updates_ok d (us @ u # ws)" and "path_hasPrefix p (u_path u)"
  shows "apart_from p us" "apart_from p ws" "apart_from (u_path u) us" "apart_from (u_path u) ws"
    "update_ok d u" "updates_ok d (us @ ws)"
proof -
  have dom: "apart p q" if "apart (u_path u) q" for q
    using that assms(2)
    by (auto simp: apart_def path_hasPrefix_append append_eq_append_conv2)
  have "\<forall>w \<in> set us \<union> set ws. apart (u_path u) (u_path w)"
    using assms(1) apart_sym by (auto simp: updates_ok_def sorted_wrt_append)
  then show "apart_from (u_path u) us" "apart_from (u_path u) ws" "apart_from p us" "apart_from p ws"
    using dom by (auto simp: apart_from_def list_all_iff)
  show "update_ok d u" "updates_ok d (us @ ws)"
    using assms(1) by (auto simp: updates_ok_def sorted_wrt_append)
qed

lemma view_split:
  "apart_from (u_path u) us \<Longrightarrow> view (us @ u # ws) d = view (us @ ws) (jput (u_path u) (u_new u) d)"
  by (simp add: view_append view_jput)

section \<open>Reading\<close>

lemma read_loop_hit:
  assumes "\<forall>w \<in> set us. \<not> path_hasPrefix p (u_path w)" and "path_hasPrefix p (u_path u)"
  shows "read_loop p (us @ u # ws) =
    Inl (if u_remove u then Inl (newNotFoundError p) else ptr (u_value u) (drop (length (u_path u)) p))"
  using assms by (induction us) auto

lemma read_loop_miss:
  "\<forall>w \<in> set us. \<not> path_hasPrefix p (u_path w) \<Longrightarrow>
     read_loop p us = Inr (filter (\<lambda>u. path_hasPrefix (u_path u) p) us)"
  by (induction us) auto

lemma jget_view_merge:
  assumes "updates_ok d us" and "\<forall>u \<in> set us. \<not> path_hasPrefix p (u_path u)"
  shows "jget (view us d) p =
    map_option (view (map (\<lambda>u. relative u p) (filter (\<lambda>u. path_hasPrefix (u_path u) p) us))) (jget d p)"
  using assms
proof (induction us arbitrary: d)
  case (Cons u us)
  note IH = Cons.IH [OF updates_ok_step [OF Cons.prems(1)]]
  show ?case
  proof (cases "path_hasPrefix (u_path u) p")
    case True
    then obtain r where r: "u_path u = p @ r" by (auto simp: path_hasPrefix_append)
    then have "r \<noteq> []" using Cons.prems(2) by (auto simp: path_hasPrefix_append)
    moreover have "parent_obj d (p @ r) \<noteq> None"
      using Cons.prems(1) r \<open>r \<noteq> []\<close> by (simp add: updates_ok_def update_ok_def)
    moreover have "u_new (relative u p) = u_new u" by (simp add: relative_def u_new_def)
    moreover have "u_path (relative u p) = r" using r by (simp add: relative_def)
    ultimately show ?thesis using True IH Cons.prems(2) r
      by (simp add: jget_jput_above option.map_comp o_def)
  next
    case False
    then have "apart p (u_path u)" using Cons.prems(2) by (simp add: apart_def)
    then show ?thesis using False IH Cons.prems(2) by (simp add: jget_jput_apart)
  qed
next
  case Nil
  then show ?case by (cases "jget d p") simp_all
qed

lemma relative_ok:
  assumes "updates_ok d us" and "\<forall>u \<in> set us. \<exists>r. r \<noteq> [] \<and> u_path u = p @ r" and "jget d p = Some x"
  shows "updates_ok x (map (\<lambda>u. relative u p) us)"
  using assms(1,2)
proof (induction us)
  case (Cons u us)
  obtain r where r: "r \<noteq> []" "u_path u = p @ r" using Cons.prems(2) by auto
  then have "parent_obj d (p @ r) \<noteq> None" using Cons.prems(1) by (simp add: updates_ok_def update_ok_def)
  then have "parent_obj x r \<noteq> None" using parent_obj_above [OF _ r(1)] assms(3) by fastforce
  moreover have "apart r (drop (length p) (u_path w))" if "w \<in> set us" for w
  proof -
    obtain s where "u_path w = p @ s" using Cons.prems(2) \<open>w \<in> set us\<close> by auto
    moreover have "apart (u_path u) (u_path w)" using Cons.prems(1) \<open>w \<in> set us\<close> by (auto simp: updates_ok_def)
    ultimately show ?thesis using r(2) by (auto simp: apart_def path_hasPrefix_append)
  qed
  moreover have "updates_ok x (map (\<lambda>u. relative u p) us)" using Cons by (simp add: updates_ok_simps)
  ultimately show ?case using r by (simp add: updates_ok_simps update_ok_def relative_def)
qed (simp add: updates_ok_def)

lemma read_merged:
  assumes "updates_ok d us" and "\<forall>u \<in> set us. \<not> path_hasPrefix p (u_path u)"
  shows "found (case ptr d p of Inl e \<Rightarrow> Inl e
     | Inr x \<Rightarrow> if length (filter (\<lambda>u. path_hasPrefix (u_path u) p) us) = 0 then Inr x
         else apply_all (map (\<lambda>u. relative u p) (filter (\<lambda>u. path_hasPrefix (u_path u) p) us)) x) =
    jget (view us d) p"
proof (cases "jget d p")
  case None
  then obtain e where "ptr d p = Inl e" using ptr_jget ptr_from_Inl by metis
  then show ?thesis using None jget_view_merge [OF assms] by (simp add: found_def)
next
  case (Some x)
  then have x: "ptr d p = Inr x" using ptr_jget found_Some by metis
  let ?ms = "filter (\<lambda>u. path_hasPrefix (u_path u) p) us"
  have "updates_ok d ?ms" using assms(1) by (simp add: updates_ok_def list_all_iff sorted_wrt_filter)
  moreover have "\<forall>u \<in> set ?ms. \<exists>r. r \<noteq> [] \<and> u_path u = p @ r"
    using assms(2) by (auto simp: path_hasPrefix_append)
  ultimately have "updates_ok x (map (\<lambda>u. relative u p) ?ms)" using Some by (rule relative_ok)
  then show ?thesis using x Some jget_view_merge [OF assms]
    by (auto simp: apply_all_view found_def)
qed

lemma read_view:
  assumes "updates_ok (JObj data) (t_updates txn)"
  shows "found (txn_read data txn p) =
    jget (if t_write txn then view (t_updates txn) (JObj data) else JObj data) p"
proof (cases "t_write txn \<and> (\<exists>u \<in> set (t_updates txn). path_hasPrefix p (u_path u))")
  case True
  then obtain us u ws where us: "t_updates txn = us @ u # ws" "path_hasPrefix p (u_path u)"
    "\<forall>w \<in> set us. \<not> path_hasPrefix p (u_path w)"
    using split_list_first_prop [of "t_updates txn" "\<lambda>u. path_hasPrefix p (u_path u)"] by blast
  note ok = updates_ok_split [OF assms [unfolded us(1)] us(2)]
  obtain r where r: "p = u_path u @ r" using us(2) by (auto simp: path_hasPrefix_append)
  have "jget (jput (u_path u) (u_new u) (JObj data)) p = (case u_new u of None \<Rightarrow> None | Some x \<Rightarrow> jget x r)"
    using ok(5) r jget_jput_below [of "JObj data" "u_path u" "u_new u" r]
    by (cases "u_path u = []") (auto simp: update_ok_def u_new_def)
  moreover have "jget (view (t_updates txn) (JObj data)) p = jget (jput (u_path u) (u_new u) (JObj data)) p"
    using ok us(1) by (simp add: view_split jget_view_apart)
  ultimately show ?thesis using True us(1) r read_loop_hit [OF us(3,2)]
    by (simp add: txn_read_def u_new_def ptr_jget) (simp add: found_def)
next
  case False
  show ?thesis
  proof (cases "t_write txn")
    case True
    then have none: "\<forall>u \<in> set (t_updates txn). \<not> path_hasPrefix p (u_path u)" using False by blast
    show ?thesis using True read_loop_miss [OF none] read_merged [OF assms none]
      by (simp add: txn_read_def)
  qed (simp add: txn_read_def ptr_jget)
qed



section \<open>Writing\<close>

lemma write_loop_skip:
  "apart_from p us \<Longrightarrow>
     write_loop op p x (us @ ws) = (us @ fst (write_loop op p x ws), snd (write_loop op p x ws))"
  by (induction us) (auto simp: apart_def path_equal_eq path_hasPrefix_append split: prod.splits)

lemma write_loop_mask:
  "\<forall>u \<in> set us. \<not> path_hasPrefix p (u_path u) \<Longrightarrow>
     write_loop op p x us = (filter (\<lambda>u. \<not> path_hasPrefix (u_path u) p) us, FallThrough)"
  by (induction us) (auto simp: path_equal_eq path_hasPrefix_append)

text \<open>The three ways a write meets the pending updates.\<close>

lemma pending_cases:
  assumes "updates_ok d us"
  obtains (exact) as u bs where "us = as @ u # bs" "u_path u = p"
  | (under) as u bs r where "us = as @ u # bs" "p = u_path u @ r" "r \<noteq> []"
  | (free) "\<forall>u \<in> set us. \<not> path_hasPrefix p (u_path u)"
proof (cases "\<exists>u \<in> set us. path_hasPrefix p (u_path u)")
  case True
  then obtain as u bs where us: "us = as @ u # bs" "path_hasPrefix p (u_path u)"
    by (meson split_list)
  then obtain r where "p = u_path u @ r" by (auto simp: path_hasPrefix_append)
  then show ?thesis using us(1) that(1,2) by (cases "r = []") auto
qed (use that(3) in blast)

text \<open>
  An update of the transaction put a value at a path that the committed document does not have.
\<close>

definition pending_add :: "json \<Rightarrow> update list \<Rightarrow> path \<Rightarrow> bool" where
  "pending_add d us p \<longleftrightarrow>
     list_ex (\<lambda>u. u_path u = p \<and> \<not> u_remove u) us \<and> \<not> patch_applies ReplaceOp p d"

definition write_ok :: "json \<Rightarrow> update list \<Rightarrow> patchOp \<Rightarrow> path \<Rightarrow> json \<Rightarrow> update list \<times> storage_error option \<Rightarrow> bool" where
  "write_ok d us op p x r \<longleftrightarrow>
     (case snd r of
        None \<Rightarrow> patch_applies op p (view us d) \<and> updates_ok d (fst r) \<and> view (fst r) d = patch op p x (view us d)
      | Some _ \<Rightarrow>
          \<not> patch_applies op p (view us d) \<and> fst r = us \<or> op \<noteq> AddOp \<and> pending_add d us p)"

text \<open>The pending updates after a write at a path below the root, with its error.\<close>

definition write_updates :: "json \<Rightarrow> patchOp \<Rightarrow> path \<Rightarrow> json \<Rightarrow> update list \<Rightarrow> update list \<times> storage_error option" where
  "write_updates d op p x us =
     (case write_loop op p x us of
        (ws, Failed e) \<Rightarrow> (ws, Some e)
      | (ws, Changed) \<Rightarrow> (ws, None)
      | (ws, FallThrough) \<Rightarrow>
          (case newUpdate d op p p x of Inl e \<Rightarrow> (ws, Some e) | Inr u \<Rightarrow> (u # ws, None)))"

lemma txn_write_updates:
  "t_write txn \<Longrightarrow> p \<noteq> [] \<Longrightarrow> txn_write data txn op p x =
     (let (ws, e) = write_updates (JObj data) op p x (t_updates txn) in (txn\<lparr>t_updates := ws\<rparr>, e))"
  by (simp add: txn_write_def write_updates_def split: prod.splits loop_end.splits sum.splits)

lemma push_ok:
  assumes "updates_ok d ws" and "apart_from p ws" and "patch_applies op p d"
  shows "updates_ok d (mk_update p rm x # ws)"
proof -
  have "p \<noteq> []" "parent_obj d p \<noteq> None" using assms(3) by (auto simp: patch_applies_def split: option.splits)
  then show ?thesis using assms(1,2) by (auto simp: updates_ok_simps update_ok_def apart_from_def list_all_iff)
qed

lemma view_push:
  "apart_from p ws \<Longrightarrow> view (mk_update p (op = RemoveOp) x # ws) d = patch op p x (view ws d)"
  by (simp add: u_new_def patch_def view_jput)

lemma write_free:
  assumes ok: "updates_ok d us" and p: "p \<noteq> []" and na: "no_array_above (view us d) p"
    and free: "\<forall>u \<in> set us. \<not> path_hasPrefix p (u_path u)"
  shows "write_ok d us op p x (write_updates d op p x us)"
proof -
  let ?ws = "filter (\<lambda>u. \<not> path_hasPrefix (u_path u) p) us"
  have loop: "write_loop op p x us = (?ws, FallThrough)" using free by (rule write_loop_mask)
  have na': "no_array_above d p" using na no_array_above_view [OF free] by blast
  note applies = patch_applies_view [OF free]
  have ap: "apart_from p ?ws" using free by (auto simp: apart_from_def list_all_iff apart_def)
  have okw: "updates_ok d ?ws" using ok by (simp add: updates_ok_def list_all_iff sorted_wrt_filter)
  show ?thesis
  proof (cases "patch_applies op p d")
    case True
    then have "write_updates d op p x us = (mk_update p (op = RemoveOp) x # ?ws, None)"
      using newUpdate_objects [OF na' p, of op p x] loop by (simp add: write_updates_def)
    moreover have "patch op p x (view us d) = patch op p x (view ?ws d)"
      unfolding patch_def by (rule view_masked [OF p free])
    ultimately show ?thesis
      using True applies push_ok [OF okw ap True] view_push [OF ap, of op x d] by (simp add: write_ok_def)
  next
    case False
    then have "write_updates d op p x us = (?ws, Some (newNotFoundError p))"
      using newUpdate_objects [OF na' p, of op p x] loop by (simp add: write_updates_def)
    moreover have "?ws = us"
    proof (rule filter_True, rule ballI, rule notI)
      fix u assume u: "u \<in> set us" "path_hasPrefix (u_path u) p"
      then obtain r where r: "u_path u = p @ r" by (auto simp: path_hasPrefix_append)
      then have "r \<noteq> []" using free u(1) by (auto simp: path_hasPrefix_append)
      moreover have "parent_obj d (p @ r) \<noteq> None"
        using ok u(1) r p by (auto simp: updates_ok_def update_ok_def list_all_iff)
      ultimately show False using False patch_applies_above p by blast
    qed
    ultimately show ?thesis using False applies by (simp add: write_ok_def)
  qed
qed

lemma write_exact:
  assumes ok: "updates_ok d (as @ u # bs)" and u: "u_path u = p" and p: "p \<noteq> []"
  shows "write_ok d (as @ u # bs) op p x (write_updates d op p x (as @ u # bs))"
proof -
  have pre: "path_hasPrefix p (u_path u)" using u by (simp add: path_hasPrefix_append)
  note split = updates_ok_split [OF ok pre]
  have par: "parent_obj d p \<noteq> None" using split(5) u p by (simp add: update_ok_def)
  have vw: "view (as @ u # bs) d = view (as @ bs) (jput p (u_new u) d)"
    using view_split [OF split(3), of bs d] u by simp
  have noprefix: "\<forall>w \<in> set (as @ bs). \<not> path_hasPrefix p (u_path w)"
    using split(1,2) apart_from_noprefix [of p "as @ bs"] by simp
  have applies: "patch_applies op p (view (as @ u # bs) d) \<longleftrightarrow> op = AddOp \<or> \<not> u_remove u"
    using vw patch_applies_view [OF noprefix] patch_applies_here [OF par] by (simp add: u_new_def)
  have loop: "write_loop op p x (as @ u # bs) =
      (if u_remove u \<and> op \<noteq> AddOp then (as @ u # bs, Failed (newNotFoundError p)) else (as @ bs, FallThrough))"
    using u by (simp add: write_loop_skip [OF split(1)] path_equal_eq)
  have ap: "apart_from p (as @ bs)" using split(1,2) by simp
  have new: "newUpdate d op p p x =
      (if patch_applies op p d then Inr (mk_update p (op = RemoveOp) x) else Inl (newNotFoundError p))"
    using newUpdate_objects [OF parent_obj_no_array [OF par] p, of op p x] by simp
  show ?thesis
  proof (cases "u_remove u \<and> op \<noteq> AddOp \<or> \<not> patch_applies op p d")
    case True
    have "op \<noteq> AddOp" using True par by (auto simp: patch_applies_def)
    moreover have "patch_applies op p d \<longleftrightarrow> patch_applies ReplaceOp p d"
      using \<open>op \<noteq> AddOp\<close> by (auto simp: patch_applies_def split: option.splits)
    ultimately show ?thesis using True loop new applies u
      by (auto simp: write_ok_def write_updates_def pending_add_def)
  next
    case False
    then have "write_updates d op p x (as @ u # bs) = (mk_update p (op = RemoveOp) x # as @ bs, None)"
      using loop new by (auto simp: write_updates_def)
    moreover have "patch op p x (view (as @ u # bs) d) = patch op p x (view (as @ bs) d)"
      unfolding vw patch_def view_jput [OF ap] by (rule jput_same [OF p])
    ultimately show ?thesis
      using False applies push_ok [OF split(6) ap] view_push [OF ap, of op x d] by (auto simp: write_ok_def)
  qed
qed

lemma write_under:
  assumes ok: "updates_ok d (as @ u # bs)" and p: "p = u_path u @ r" "r \<noteq> []"
    and na: "no_array_above (view (as @ u # bs) d) p"
  shows "write_ok d (as @ u # bs) op p x (write_updates d op p x (as @ u # bs))"
proof -
  let ?q = "u_path u"
  have pre: "path_hasPrefix p ?q" "\<not> path_hasPrefix ?q p" "?q \<noteq> p"
    using p by (auto simp: path_hasPrefix_append)
  note split = updates_ok_split [OF ok pre(1)]
  note vw = view_split [OF split(3), of bs d]
  have par: "parent_obj d ?q \<noteq> None \<or> ?q = []" using split(5) by (auto simp: update_ok_def)
  have noprefix: "\<forall>w \<in> set (as @ bs). \<not> path_hasPrefix p (u_path w)"
    using split(1,2) apart_from_noprefix [of p "as @ bs"] by simp
  have applies: "patch_applies op p (view (as @ u # bs) d) \<longleftrightarrow> patch_applies op p (jput ?q (u_new u) d)"
    using vw patch_applies_view [OF noprefix] by simp
  note skip = write_loop_skip [OF split(1), of op x "u # bs"]
  show ?thesis
  proof (cases "u_remove u")
    case True
    then have "?q \<noteq> []" using split(5) by (auto simp: update_ok_def)
    then have "\<not> patch_applies op p (jput ?q (u_new u) d)"
      using par p True patch_applies_removed [of d ?q r op] by (simp add: u_new_def)
    then show ?thesis using applies skip True pre by (simp add: write_ok_def write_updates_def path_equal_eq)
  next
    case False
    then have new: "u_new u = Some (u_value u)" by (simp add: u_new_def)
    have value_object: "case jput r w (u_value u) of JObj _ \<Rightarrow> True | _ \<Rightarrow> False" if "?q = []" for w
    proof -
      obtain m where "u_value u = JObj m"
        using split(5) \<open>?q = []\<close> by (auto simp: update_ok_def split: json.splits)
      then show ?thesis using jput_object [OF p(2), of w m] by auto
    qed
    have na': "no_array_above (u_value u) r"
      using na vw no_array_above_view [OF noprefix] no_array_above_below [OF par] new p(1) by simp
    have applies': "patch_applies op p (view (as @ u # bs) d) \<longleftrightarrow> patch_applies op r (u_value u)"
      using applies patch_applies_below [OF par p(2)] new p(1) by simp
    show ?thesis
    proof (cases "patch_applies op r (u_value u)")
      case True
      let ?v = "jput r (if op = RemoveOp then None else Some x) (u_value u)"
      have "parent_obj (u_value u) r \<noteq> None" using True by (auto simp: patch_applies_def split: option.splits)
      then have "apply_update (mk_update r (op = RemoveOp) x) (u_value u) = Inr ?v"
        using p(2) by (simp add: apply_update_def apply_at_jput u_new_def)
      then have "write_updates d op p x (as @ u # bs) = (as @ u\<lparr>u_value := ?v\<rparr> # bs, None)"
        using skip False pre p(1) newUpdate_objects [OF na' p(2), of op r x] True
        by (simp add: write_updates_def path_equal_eq)
      moreover have "update_ok d (u\<lparr>u_value := ?v\<rparr>)"
        using split(5) False value_object by (simp add: update_ok_def)
      then have "updates_ok d (as @ u\<lparr>u_value := ?v\<rparr> # bs)"
        using ok by (auto simp: updates_ok_def sorted_wrt_append)
      moreover have "view (as @ u\<lparr>u_value := ?v\<rparr> # bs) d = patch op p x (view (as @ u # bs) d)"
      proof -
        have "view (as @ u\<lparr>u_value := ?v\<rparr> # bs) d = view (as @ bs) (jput ?q (Some ?v) d)"
          using split(3) False view_split [of "u\<lparr>u_value := ?v\<rparr>" as bs d] by (simp add: u_new_def)
        also have "\<dots> = view (as @ bs) (jput p (if op = RemoveOp then None else Some x) (jput ?q (u_new u) d))"
          unfolding p(1) new jput_under [OF p(2)] ..
        also have "\<dots> = patch op p x (view (as @ u # bs) d)"
          using view_jput [of p "as @ bs"] split(1,2) vw by (simp add: patch_def)
        finally show ?thesis .
      qed
      ultimately show ?thesis using True applies' by (simp add: write_ok_def)
    next
      case nope: False
      then have "write_updates d op p x (as @ u # bs) = (as @ u # bs, Some (newNotFoundError r))"
        using skip False pre p(1) newUpdate_objects [OF na' p(2), of op r x]
        by (simp add: write_updates_def path_equal_eq)
      then show ?thesis using nope applies' by (simp add: write_ok_def)
    qed
  qed
qed

lemma write_refines:
  assumes "t_write txn" and "p \<noteq> []" and "updates_ok (JObj data) (t_updates txn)"
    and "no_array_above (view (t_updates txn) (JObj data)) p"
  shows "case txn_write data txn op p x of
     (txn', None) \<Rightarrow>
       patch_applies op p (view (t_updates txn) (JObj data)) \<and> updates_ok (JObj data) (t_updates txn') \<and>
       view (t_updates txn') (JObj data) = patch op p x (view (t_updates txn) (JObj data))
   | (txn', Some e) \<Rightarrow>
       \<not> patch_applies op p (view (t_updates txn) (JObj data)) \<and> txn' = txn \<or>
       op \<noteq> AddOp \<and> pending_add (JObj data) (t_updates txn) p"
proof -
  have "write_ok (JObj data) (t_updates txn) op p x (write_updates (JObj data) op p x (t_updates txn))"
    using assms(3)
  proof (cases rule: pending_cases [where p = p])
    case (exact as u bs)
    then show ?thesis using write_exact [of "JObj data" as u bs p op x] assms by simp
  next
    case (under as u bs r)
    then show ?thesis using write_under [of "JObj data" as u bs p r op x] assms by simp
  next
    case free
    then show ?thesis using write_free assms by simp
  qed
  then show ?thesis using txn_write_updates [OF assms(1,2), of data op x]
    by (auto simp: write_ok_def split: prod.splits option.splits)
qed

text \<open>
  C5.  Where no array lies above its path, a write refines a patch of the transaction's view.  A write
  that succeeds applied the patch to the view and keeps the pending updates free of overlaps; one
  that fails was not applicable and changed nothing, unless it replaces or removes what the same
  transaction added.
\<close>

theorem txn_write_refines:
  assumes "t_write txn" and "p \<noteq> []" and "updates_ok (JObj data) (t_updates txn)"
    and "no_array_above (view (t_updates txn) (JObj data)) p"
  shows "case txn_write data txn op p x of
     (txn', None) \<Rightarrow>
       patch_applies op p (view (t_updates txn) (JObj data)) \<and> updates_ok (JObj data) (t_updates txn') \<and>
       view (t_updates txn') (JObj data) = patch op p x (view (t_updates txn) (JObj data))
   | (txn', Some e) \<Rightarrow>
       \<not> patch_applies op p (view (t_updates txn) (JObj data)) \<and> txn' = txn \<or>
       op \<noteq> AddOp \<and> pending_add (JObj data) (t_updates txn) p"
  using assms by (rule write_refines)

theorem txn_write_refines_witness:
  "view (t_updates (fst (txn_write (fmap_of_list [(''a'', JObj fmempty)]) (newTransaction 1 True) AddOp
      [''a'', ''b''] JNull))) (JObj (fmap_of_list [(''a'', JObj fmempty)])) =
    patch AddOp [''a'', ''b''] JNull (JObj (fmap_of_list [(''a'', JObj fmempty)]))"
proof -
  let ?data = "fmap_of_list [(''a'', JObj fmempty)]" and ?txn = "newTransaction 1 True" and ?p = "[''a'', ''b'']"
  have "t_write ?txn" "?p \<noteq> []" "updates_ok (JObj ?data) (t_updates ?txn)"
    "no_array_above (view (t_updates ?txn) (JObj ?data)) ?p"
    by (simp_all add: newTransaction_def updates_ok_def)
  from txn_write_refines [OF this, of AddOp JNull] show ?thesis
    by (simp add: newTransaction_def txn_write_def object_update_def updates_ok_def)
qed

lemma updateRoot_view:
  "updateRoot txn op x =
     (if op \<noteq> RemoveOp \<and> (case x of JObj _ \<Rightarrow> True | _ \<Rightarrow> False)
      then (txn\<lparr>t_updates := [mk_update [] False x]\<rparr>, None)
      else (txn, Some (InvalidPatchErr (if op = RemoveOp then ''root cannot be removed'' else ''root must be object''))))"
  by (simp add: updateRoot_def split: json.splits)

section \<open>Committing\<close>

lemma update_ok_object: "update_ok (JObj data) u \<Longrightarrow> \<exists>m. jput (u_path u) (u_new u) (JObj data) = JObj m"
  by (cases "u_path u") (auto simp: update_ok_def u_new_def split: json.splits)

lemma commit_view:
  assumes "updates_ok (JObj data) us"
  shows "\<exists>data'. JObj data' = view us (JObj data) \<and>
     commit_data us data =
       Inr (data', map (\<lambda>u. \<lparr>de_path = u_path u, de_data = u_value u, de_removed = u_remove u\<rparr>) us)"
  using assms
proof (induction us arbitrary: data)
  case (Cons u us)
  then have u: "update_ok (JObj data) u" by (simp add: updates_ok_simps)
  obtain m where m: "jput (u_path u) (u_new u) (JObj data) = JObj m" using update_ok_object [OF u] by blast
  have "updates_ok (JObj m) us" using updates_ok_step [OF Cons.prems] m by simp
  then obtain data' where "JObj data' = view us (JObj m)"
    "commit_data us m =
       Inr (data', map (\<lambda>u. \<lparr>de_path = u_path u, de_data = u_value u, de_removed = u_remove u\<rparr>) us)"
    using Cons.IH by blast
  then show ?case using m by (simp add: apply_update_jput [OF u])
qed simp

text \<open>
  A commit never panics on the updates that writes leave: it installs the transaction's view as
  the new document and reports each update to the triggers, in order.
\<close>

theorem commit_installs_view:
  assumes "updates_ok (JObj data) us"
  shows "\<exists>data'. JObj data' = view us (JObj data) \<and>
     commit_data us data =
       Inr (data', map (\<lambda>u. \<lparr>de_path = u_path u, de_data = u_value u, de_removed = u_remove u\<rparr>) us)"
  using assms by (rule commit_view)

theorem commit_installs_view_witness:
  "\<exists>data'. JObj data' = view [mk_update [''a''] True JNull] (JObj (fmap_of_list [(''a'', JNull)])) \<and>
     commit_data [mk_update [''a''] True JNull] (fmap_of_list [(''a'', JNull)]) =
       Inr (data', [\<lparr>de_path = [''a''], de_data = JNull, de_removed = True\<rparr>])"
proof -
  have "updates_ok (JObj (fmap_of_list [(''a'', JNull)])) [mk_update [''a''] True JNull]" by code_simp
  from commit_installs_view [OF this] show ?thesis by simp
qed

text \<open>The policies after a commit, and the policies a transaction sees.\<close>

lemma commit_policies_lookup:
  "distinct ids \<Longrightarrow> fmlookup (fst (commit_policies ids ups ps)) i =
     (if i \<in> set ids then
        case fmlookup ups i of
          None \<Rightarrow> fmlookup ps i
        | Some u \<Rightarrow> if pu_remove u then None else Some (pu_value u)
      else fmlookup ps i)"
proof (induction ids arbitrary: ps)
  case (Cons j ids)
  show ?case
  proof (cases "fmlookup ups j")
    case (Some u)
    then show ?thesis using Cons by (cases "pu_remove u") (auto simp: case_prod_beta Let_def split: option.splits)
  qed (use Cons in auto)
qed simp

text \<open>
  A transaction sees its own policy changes.  Reading a policy finds what a commit would store
  under its id, whatever the order in which the commit visits the changes, and the list of policies
  names exactly these ids, each once.
\<close>

theorem policies_read_your_writes:
  assumes "distinct db_ids" and "set db_ids = fset (fmdom ps)"
    and "distinct txn_ids" and "set txn_ids = fset (fmdom (t_policies txn))"
  shows "found (getPolicy ps txn i) = fmlookup (fst (commit_policies txn_ids (t_policies txn) ps)) i \<and>
    distinct (listPolicies db_ids txn_ids ps txn) \<and>
    (i \<in> set (listPolicies db_ids txn_ids ps txn) \<longleftrightarrow> found (getPolicy ps txn i) \<noteq> None)"
proof (intro conjI)
  have mem: "j \<in> set txn_ids \<longleftrightarrow> fmlookup (t_policies txn) j \<noteq> None" "j \<in> set db_ids \<longleftrightarrow> fmlookup ps j \<noteq> None" for j
    using assms(2,4) by (auto simp: fmlookup_dom_iff)
  show "found (getPolicy ps txn i) = fmlookup (fst (commit_policies txn_ids (t_policies txn) ps)) i"
    using mem(1) [of i] commit_policies_lookup [OF assms(3), of "t_policies txn" ps i]
    by (auto simp: getPolicy_def found_def split: option.splits)
  show "distinct (listPolicies db_ids txn_ids ps txn)"
    using assms(1,3) by (auto simp: listPolicies_def split: option.splits)
  show "i \<in> set (listPolicies db_ids txn_ids ps txn) \<longleftrightarrow> found (getPolicy ps txn i) \<noteq> None"
    using mem [of i] by (auto simp: listPolicies_def getPolicy_def found_def split: option.splits)
qed

theorem policies_read_your_writes_witness:
  "found (getPolicy (fmap_of_list [(''p'', ''x'')])
      (fst (deletePolicy (newTransaction 1 True) ''p'')) ''p'') = None"
proof -
  let ?ps = "fmap_of_list [(''p'', ''x'')]" and ?txn = "fst (deletePolicy (newTransaction 1 True) ''p'')"
  have "fmlookup (fst (commit_policies [''p''] (t_policies ?txn) ?ps)) ''p'' = None"
    by (simp add: deletePolicy_def newTransaction_def)
  moreover have "found (getPolicy ?ps ?txn ''p'') = fmlookup (fst (commit_policies [''p''] (t_policies ?txn) ?ps)) ''p''"
    by (rule policies_read_your_writes [where db_ids = "[''p'']", THEN conjunct1])
      (simp_all add: deletePolicy_def newTransaction_def)
  ultimately show ?thesis by simp
qed

section \<open>Where a write departs from a patch\<close>

text \<open>
  Replacing a value that the same transaction added fails, although the transaction reads the
  value, and the failing write drops the pending update: the value is gone afterwards.
\<close>

theorem replace_drops_pending_add:
  "let (t1, e1) = txn_write fmempty (newTransaction 1 True) AddOp [''a''] (JBool True);
       (t2, e2) = txn_write fmempty t1 ReplaceOp [''a''] (JBool False)
   in e1 = None \<and> txn_read fmempty t1 [''a''] = Inr (JBool True) \<and>
      e2 = Some (newNotFoundError [''a'']) \<and>
      txn_read fmempty t2 [''a''] = Inl (newNotFoundError [''a''])"
  by code_simp

text \<open>
  Adding an element to an array after a change inside one of its elements leaves two pending
  updates of which one is a prefix of the other, and the transaction no longer reads the first change.
\<close>

theorem array_updates_overlap:
  "let data = fmap_of_list [(''arr'', JArr [JObj fmempty])];
       (t1, e1) = txn_write data (newTransaction 1 True) AddOp [''arr'', ''0'', ''x''] JNull;
       (t2, e2) = txn_write data t1 AddOp [''arr'', ''1''] (JBool True)
   in e1 = None \<and> e2 = None \<and> map u_path (t_updates t2) = [[''arr''], [''arr'', ''0'', ''x'']] \<and>
      txn_read data t1 [''arr'', ''0'', ''x''] = Inr JNull \<and>
      found (txn_read data t2 [''arr'', ''0'', ''x'']) = None"
  by code_simp

end
