(* ===== verification/Storage_Tree.thy ===== *)
theory Storage_Tree
  imports Storage_Txn
begin

text \<open>
  Building documents for the store: merging of objects (internal/merge/merge.go), directory trees
  and lookups (storage/inmem/inmem.go), making directories and testing for emptiness
  (storage/storage.go), and the truncation of the store from an iterator of files.

  The keys of a Go map are visited in an order the language leaves open; no result here depends on
  it, so the keys are visited in order.
\<close>

section \<open>Merging objects\<close>

abbreviation map_keys :: "(string, json) fmap \<Rightarrow> string list" where
  "map_keys m \<equiv> sorted_list_of_fset (fmdom m)"

definition map_size :: "(string, json) fmap \<Rightarrow> nat" where
  "map_size m = size (JObj m)"

lemma fmlookup_size: "fmlookup b k = Some x \<Longrightarrow> size x < map_size b"
proof -
  assume "fmlookup b k = Some x"
  then have "(k, x) \<in> fset (fset_of_fmap b)" by (simp add: fset_of_fmap_iff)
  then have "Suc (case (k, x) of (a, b) \<Rightarrow> size b) \<le> (\<Sum>x \<in> fset (fset_of_fmap b). Suc (case x of (a, b) \<Rightarrow> size b))"
    by (intro member_le_sum) auto
  then show ?thesis by (simp add: map_size_def size_fmap_def size_fset_def)
qed

lemma fmlookup_map_size: "fmlookup b k = Some (JObj y) \<Longrightarrow> map_size y < map_size b"
  using fmlookup_size [of b k "JObj y"] by (simp add: map_size_def)

function hasConflicts :: "(string, json) fmap \<Rightarrow> (string, json) fmap \<Rightarrow> bool" where
  "hasConflicts a b =
     list_ex (\<lambda>k.
       case fmlookup b k of
         None \<Rightarrow> False
       | Some add \<Rightarrow>
           (case fmlookup a k of
              None \<Rightarrow> False
            | Some exist \<Rightarrow>
                (case exist of
                   JObj existObj \<Rightarrow>
                     (case add of JObj addObj \<Rightarrow> hasConflicts existObj addObj | _ \<Rightarrow> True)
                 | _ \<Rightarrow> True))) (map_keys b)"
  by pat_completeness auto

termination
  by (relation "measure (map_size \<circ> snd)") (auto simp: fmlookup_map_size)

declare hasConflicts.simps [simp del]

text \<open>The loop of \<open>merge\<close>; \<open>None\<close> is the panic of a failed type assertion.\<close>

function merge :: "(string, json) fmap \<Rightarrow> (string, json) fmap \<Rightarrow> (string, json) fmap option" where
  "merge a b =
     fold (\<lambda>k acc.
       case acc of
         None \<Rightarrow> None
       | Some m \<Rightarrow>
           (case fmlookup b k of
              None \<Rightarrow> Some m
            | Some add \<Rightarrow>
                (case fmlookup m k of
                   None \<Rightarrow> Some (fmupd k add m)
                 | Some exist \<Rightarrow>
                     (case exist of
                        JObj existObj \<Rightarrow>
                          (case add of
                             JObj addObj \<Rightarrow>
                               (case merge existObj addObj of
                                  None \<Rightarrow> None
                                | Some r \<Rightarrow> Some (fmupd k (JObj r) m))
                           | _ \<Rightarrow> None)
                      | _ \<Rightarrow> None)))) (map_keys b) (Some a)"
  by pat_completeness auto

termination
  by (relation "measure (map_size \<circ> snd)") (auto simp: fmlookup_map_size)

declare merge.simps [simp del]

datatype merged = Merged "(string, json) fmap" | Conflict | MergePanic

definition interfaceMaps :: "(string, json) fmap \<Rightarrow> (string, json) fmap \<Rightarrow> merged" where
  "interfaceMaps a b =
     (if hasConflicts a b then Conflict
      else case merge a b of None \<Rightarrow> MergePanic | Some m \<Rightarrow> Merged m)"

lemma distinct_map_keys: "distinct (map_keys b)"
  by (simp add: sorted_list_of_fset.rep_eq)

lemma set_map_keys: "set (map_keys b) = fmdom' b"
  by (simp add: fmdom'_alt_def)

lemma hasConflicts_key:
  "\<not> hasConflicts a b \<Longrightarrow> fmlookup b k = Some y \<Longrightarrow> fmlookup a k = Some x \<Longrightarrow>
     \<exists>m n. x = JObj m \<and> y = JObj n \<and> \<not> hasConflicts m n"
  using fmdomI [of b k y]
  by (subst (asm) hasConflicts.simps) (auto simp: list_ex_iff set_map_keys fmdom'_alt_def split: json.splits)

text \<open>What the merge of two objects without conflict holds under a key.\<close>

definition merge_key :: "json option \<Rightarrow> json option \<Rightarrow> json option" where
  "merge_key x y =
     (case x of
        None \<Rightarrow> y
      | Some e \<Rightarrow>
          (case y of
             None \<Rightarrow> Some e
           | Some a \<Rightarrow>
               (case e of
                  JObj m \<Rightarrow> (case a of JObj n \<Rightarrow> map_option JObj (merge m n) | _ \<Rightarrow> None)
                | _ \<Rightarrow> None)))"

definition merge_step :: "(string, json) fmap \<Rightarrow> string \<Rightarrow> (string, json) fmap option \<Rightarrow> (string, json) fmap option" where
  "merge_step b k acc =
     (case acc of
        None \<Rightarrow> None
      | Some m \<Rightarrow>
          (case fmlookup b k of
             None \<Rightarrow> Some m
           | Some add \<Rightarrow>
               (case merge_key (fmlookup m k) (Some add) of
                  None \<Rightarrow> None
                | Some r \<Rightarrow> Some (fmupd k r m))))"

lemma merge_fold: "merge a b = fold (merge_step b) (map_keys b) (Some a)"
  unfolding merge.simps [of a b]
  by (rule fold_cong)
    (auto simp: merge_step_def merge_key_def fun_eq_iff split: option.splits json.splits)

lemma merge_step_fold:
  assumes "distinct ks" and "\<forall>k \<in> set ks. fmlookup b k \<noteq> None \<and> merge_key (fmlookup a k) (fmlookup b k) \<noteq> None"
  shows "\<exists>m. fold (merge_step b) ks (Some a) = Some m \<and>
    (\<forall>k. fmlookup m k = (if k \<in> set ks then merge_key (fmlookup a k) (fmlookup b k) else fmlookup a k))"
  using assms
proof (induction ks arbitrary: a)
  case (Cons k ks)
  obtain y r where y: "fmlookup b k = Some y" "merge_key (fmlookup a k) (Some y) = Some r"
    using Cons.prems(2) by fastforce
  then have "merge_step b k (Some a) = Some (fmupd k r a)" by (simp add: merge_step_def)
  moreover have "\<exists>m. fold (merge_step b) ks (Some (fmupd k r a)) = Some m \<and>
      (\<forall>j. fmlookup m j = (if j \<in> set ks then merge_key (fmlookup (fmupd k r a) j) (fmlookup b j)
        else fmlookup (fmupd k r a) j))"
    by (rule Cons.IH) (use Cons.prems in auto)
  ultimately show ?case using Cons.prems y by auto
qed simp

lemma merge_lookup:
  "\<not> hasConflicts a b \<Longrightarrow>
     \<exists>m. merge a b = Some m \<and> (\<forall>k. fmlookup m k = merge_key (fmlookup a k) (fmlookup b k))"
proof (induction "map_size b" arbitrary: a b rule: less_induct)
  case less
  have "merge_key (fmlookup a k) (fmlookup b k) \<noteq> None" if k: "k \<in> set (map_keys b)" for k
  proof -
    obtain y where y: "fmlookup b k = Some y" using k by (auto simp: fmlookup_dom_iff)
    show ?thesis
    proof (cases "fmlookup a k")
      case (Some x)
      then obtain m n where "x = JObj m" "y = JObj n" "\<not> hasConflicts m n"
        using hasConflicts_key [OF less.prems y] by blast
      then show ?thesis using less.hyps [of n m] fmlookup_map_size y Some by (fastforce simp: merge_key_def)
    qed (simp add: merge_key_def y)
  qed
  moreover have "fmlookup b k \<noteq> None \<longleftrightarrow> k \<in> set (map_keys b)" for k by (auto simp: fmlookup_dom_iff)
  ultimately obtain m where "fold (merge_step b) (map_keys b) (Some a) = Some m"
    "\<forall>k. fmlookup m k = (if k \<in> set (map_keys b) then merge_key (fmlookup a k) (fmlookup b k) else fmlookup a k)"
    using merge_step_fold [OF distinct_map_keys [of b], of b a] by auto
  moreover have "merge_key x None = x" for x by (cases x) (simp_all add: merge_key_def)
  ultimately show ?case
    using \<open>\<And>k. fmlookup b k \<noteq> None \<longleftrightarrow> k \<in> set (map_keys b)\<close> by (metis merge_fold)
qed

lemma merge_leaves:
  assumes "\<not> hasConflicts a b" and "merge a b = Some m" and "case x of JObj _ \<Rightarrow> False | _ \<Rightarrow> True"
  shows "jget (JObj m) p = Some x \<longleftrightarrow> jget (JObj a) p = Some x \<or> jget (JObj b) p = Some x"
  using assms(1,2)
proof (induction p arbitrary: a b m)
  case (Cons k p)
  have m: "fmlookup m k = merge_key (fmlookup a k) (fmlookup b k)" using merge_lookup Cons.prems by fastforce
  show ?case
  proof (cases "fmlookup a k = None \<or> fmlookup b k = None")
    case True
    then show ?thesis using m by (auto simp: merge_key_def split: option.splits)
  next
    case False
    then obtain y z where yz: "fmlookup a k = Some y" "fmlookup b k = Some z" by auto
    then obtain r s where rs: "y = JObj r" "z = JObj s" "\<not> hasConflicts r s"
      using hasConflicts_key [OF Cons.prems(1)] by blast
    obtain n where n: "merge r s = Some n" using merge_lookup [OF rs(3)] by blast
    then have "fmlookup m k = Some (JObj n)" using m yz rs by (simp add: merge_key_def)
    then show ?thesis using Cons.IH [OF rs(3) n] yz rs by simp
  qed
qed (use assms(3) in auto)

text \<open>
  C19.  Merging two objects never panics: it reports a conflict, or gives an object with exactly the
  leaves of the two, at their paths.
\<close>

theorem merge_keeps_leaves:
  "case interfaceMaps a b of
     Merged m \<Rightarrow> \<not> hasConflicts a b \<and>
       (\<forall>p x. (case x of JObj _ \<Rightarrow> False | _ \<Rightarrow> True) \<longrightarrow>
         (jget (JObj m) p = Some x \<longleftrightarrow> jget (JObj a) p = Some x \<or> jget (JObj b) p = Some x))
   | Conflict \<Rightarrow> hasConflicts a b
   | MergePanic \<Rightarrow> False"
proof (cases "hasConflicts a b")
  case False
  then obtain m where "merge a b = Some m" using merge_lookup by blast
  moreover have "\<forall>p x. (case x of JObj _ \<Rightarrow> False | _ \<Rightarrow> True) \<longrightarrow>
      (jget (JObj m) p = Some x \<longleftrightarrow> jget (JObj a) p = Some x \<or> jget (JObj b) p = Some x)"
    using merge_leaves [OF False calculation] by blast
  ultimately show ?thesis using False by (simp add: interfaceMaps_def)
qed (simp add: interfaceMaps_def)

theorem merge_keeps_leaves_witness:
  "\<exists>m. interfaceMaps (fmap_of_list [(''a'', JObj (fmap_of_list [(''x'', JNull)]))])
      (fmap_of_list [(''a'', JObj (fmap_of_list [(''y'', JBool True)]))]) = Merged m \<and>
    jget (JObj m) [''a'', ''x''] = Some JNull \<and> jget (JObj m) [''a'', ''y''] = Some (JBool True)"
proof -
  let ?a = "fmap_of_list [(''a'', JObj (fmap_of_list [(''x'', JNull)]))]"
    and ?b = "fmap_of_list [(''a'', JObj (fmap_of_list [(''y'', JBool True)]))]"
  have "\<not> hasConflicts ?a ?b" by code_simp
  then obtain m where m: "interfaceMaps ?a ?b = Merged m"
    using merge_keeps_leaves [of ?a ?b] by (cases "interfaceMaps ?a ?b") auto
  then have leaf: "jget (JObj m) p = Some x \<longleftrightarrow> jget (JObj ?a) p = Some x \<or> jget (JObj ?b) p = Some x"
    if "case x of JObj _ \<Rightarrow> False | _ \<Rightarrow> True" for p x
    using merge_keeps_leaves [of ?a ?b] that by simp
  have "jget (JObj m) [''a'', ''x''] = Some JNull" "jget (JObj m) [''a'', ''y''] = Some (JBool True)"
    using leaf [of JNull "[''a'', ''x'']"] leaf [of "JBool True" "[''a'', ''y'']"] by simp_all
  then show ?thesis using m by blast
qed

section \<open>Trees and lookups\<close>

text \<open>The loop wraps the value from the last key to the second.\<close>

fun mktree_loop :: "string list \<Rightarrow> json \<Rightarrow> json" where
  "mktree_loop [] v = v"
| "mktree_loop (k # ks) v = JObj (fmap_of_list [(k, mktree_loop ks v)])"

definition mktree :: "string list \<Rightarrow> json \<Rightarrow> storage_error + (string, json) fmap" where
  "mktree p v =
     (case p of
        [] \<Rightarrow> (case v of JObj m \<Rightarrow> Inr m | _ \<Rightarrow> Inl (InvalidPatchErr ''root must be object''))
      | k # ks \<Rightarrow> Inr (fmap_of_list [(k, mktree_loop ks v)]))"

fun lookup :: "path \<Rightarrow> (string, json) fmap \<Rightarrow> json option" where
  "lookup [] data = Some (JObj data)"
| "lookup [k] data = fmlookup data k"
| "lookup (k # k' # ks) data =
     (case fmlookup data k of
        Some (JObj m) \<Rightarrow> lookup (k' # ks) m
      | _ \<Rightarrow> None)"

lemma jget_mktree_loop: "jget (mktree_loop p v) p = Some v"
  by (induction p) simp_all

lemma lookup_jget: "no_array_above (JObj data) p \<Longrightarrow> lookup p data = jget (JObj data) p"
  by (induction p data rule: lookup.induct) (auto split: option.splits json.splits)

lemma lookup_mktree: "mktree p v = Inr m \<Longrightarrow> lookup p m = Some v"
proof (induction p arbitrary: m)
  case Nil
  then show ?case by (auto simp: mktree_def split: json.splits)
next
  case (Cons k ks)
  then have m: "m = fmap_of_list [(k, mktree_loop ks v)]" by (simp add: mktree_def)
  show ?case
  proof (cases ks)
    case (Cons j js)
    have "lookup ks (fmap_of_list [(j, mktree_loop js v)]) = Some v"
      by (rule Cons.IH) (simp add: mktree_def Cons)
    then show ?thesis using m Cons by simp
  qed (simp add: m)
qed

section \<open>Directories\<close>

definition isNotFound :: "storage_error \<Rightarrow> bool" where
  "isNotFound e = (case e of NotFoundErr _ _ \<Rightarrow> True | PolicyNotFoundErr _ \<Rightarrow> True | _ \<Rightarrow> False)"

text \<open>\<open>MakeDir\<close> on the in-memory store, which leaves it to the general function.\<close>

function makeDir :: "(string, json) fmap \<Rightarrow> transaction \<Rightarrow> path \<Rightarrow> transaction \<times> storage_error option" where
  "makeDir data txn p =
     (if length p = 0 then (txn, None)
      else case txn_read data txn p of
             Inl e \<Rightarrow>
               (if \<not> isNotFound e then (txn, Some e)
                else case makeDir data txn (butlast p) of
                       (txn', Some e') \<Rightarrow> (txn', Some e')
                     | (txn', None) \<Rightarrow> txn_write data txn' AddOp p (JObj fmempty))
           | Inr (JObj _) \<Rightarrow> (txn, None)
           | Inr _ \<Rightarrow> (txn, Some (WriteConflictErr p)))"
  by pat_completeness auto

termination
  by (relation "measure (\<lambda>(data, txn, p). length p)") auto

declare makeDir.simps [simp del]

fun nonEmpty_loop :: "(string, json) fmap \<Rightarrow> transaction \<Rightarrow> path \<Rightarrow> nat \<Rightarrow> storage_error + bool" where
  "nonEmpty_loop data txn p 0 = Inr False"
| "nonEmpty_loop data txn p (Suc i) =
     (case txn_read data txn (take (Suc i) p) of
        Inl e \<Rightarrow> if \<not> isNotFound e then Inl e else nonEmpty_loop data txn p i
      | Inr (JObj _) \<Rightarrow> Inr False
      | Inr _ \<Rightarrow> Inr True)"

definition nonEmpty :: "(string, json) fmap \<Rightarrow> transaction \<Rightarrow> path \<Rightarrow> storage_error + bool" where
  "nonEmpty data txn p =
     (case txn_read data txn p of
        Inr _ \<Rightarrow> Inr True
      | Inl e \<Rightarrow> if \<not> isNotFound e then Inl e else nonEmpty_loop data txn p (length p - 1))"

section \<open>Truncation\<close>

record store_update =
  su_path :: path
  su_value :: string
  su_isPolicy :: bool

record transactionParams =
  tp_basePaths :: "string list"
  tp_rootOverwrite :: bool

definition trim_left :: "char \<Rightarrow> string \<Rightarrow> string" where
  "trim_left c s = dropWhile (\<lambda>x. x = c) s"

text \<open>
  The iterator is the list of the updates it returns and whether it ends with an error other than the
  end of file; \<open>unmarshal\<close> stands for \<open>util.Unmarshal\<close>.
\<close>

fun truncate_loop ::
  "(string \<Rightarrow> json option) \<Rightarrow> store_update list \<Rightarrow> transaction \<Rightarrow> (string, json) fmap \<Rightarrow>
     transaction \<times> (storage_error + (string, json) fmap)" where
  "truncate_loop unmarshal [] txn merged = (txn, Inr merged)"
| "truncate_loop unmarshal (u # us) txn merged =
     (let dirpath = trim_left CHR ''/'' (path_string (su_path u))
      in if su_isPolicy u then
           (case upsertPolicy txn dirpath (su_value u) of
              (txn', Some e) \<Rightarrow> (txn', Inl e)
            | (txn', None) \<Rightarrow> truncate_loop unmarshal us txn' merged)
         else
           (case unmarshal (su_value u) of
              None \<Rightarrow> (txn, Inl DecodeErr)
            | Some v \<Rightarrow>
                (let key = (if length dirpath > 0 then split_on CHR ''/'' dirpath else [])
                 in if v = JNull then truncate_loop unmarshal us txn merged
                    else case mktree key v of
                           Inl e \<Rightarrow> (txn, Inl e)
                         | Inr obj \<Rightarrow>
                             (case interfaceMaps merged obj of
                                Merged m \<Rightarrow> truncate_loop unmarshal us txn m
                              | Conflict \<Rightarrow> (txn, Inl (MergeErr key))
                              | MergePanic \<Rightarrow> (txn, Inl GoPanic)))))"

fun truncate_roots ::
  "(string, json) fmap \<Rightarrow> string list \<Rightarrow> transaction \<Rightarrow> (string, json) fmap \<Rightarrow> transaction \<times> storage_error option" where
  "truncate_roots data [] txn merged = (txn, None)"
| "truncate_roots data (rt # rts) txn merged =
     (case parsePathEscaped (CHR ''/'' # rt) of
        None \<Rightarrow> (txn, Some (PathInvalidErr []))
      | Some newPath \<Rightarrow>
          (case lookup newPath merged of
             None \<Rightarrow> truncate_roots data rts txn merged
           | Some v \<Rightarrow>
               (case (if length newPath > 0 then makeDir data txn (butlast newPath) else (txn, None)) of
                  (txn', Some e) \<Rightarrow> (txn', Some e)
                | (txn', None) \<Rightarrow>
                    (case txn_write data txn' AddOp newPath v of
                       (txn'', Some e) \<Rightarrow> (txn'', Some e)
                     | (txn'', None) \<Rightarrow> truncate_roots data rts txn'' merged))))"

definition truncate ::
  "(string \<Rightarrow> json option) \<Rightarrow> (string, json) fmap \<Rightarrow> transaction \<Rightarrow> transactionParams \<Rightarrow> store_update list \<Rightarrow>
     bool \<Rightarrow> transaction \<times> storage_error option" where
  "truncate unmarshal data txn params it failed =
     (case truncate_loop unmarshal it txn fmempty of
        (txn', Inl e) \<Rightarrow> (txn', Some e)
      | (txn', Inr merged) \<Rightarrow>
          if failed then (txn', Some IteratorErr)
          else if tp_rootOverwrite params then txn_write data txn' AddOp [] (JObj merged)
          else truncate_roots data (tp_basePaths params) txn' merged)"

section \<open>What the operations promise\<close>

definition txn_ok :: "(string, json) fmap \<Rightarrow> transaction \<Rightarrow> bool" where
  "txn_ok data txn \<longleftrightarrow> t_write txn \<and> updates_ok (JObj data) (t_updates txn)"

definition txn_view :: "(string, json) fmap \<Rightarrow> transaction \<Rightarrow> json" where
  "txn_view data txn = view (t_updates txn) (JObj data)"

definition is_leaf :: "json \<Rightarrow> bool" where
  "is_leaf x = (case x of JObj _ \<Rightarrow> False | _ \<Rightarrow> True)"

lemma ptr_from_notfound: "ptr_from p d ks = Inl e \<Longrightarrow> isNotFound e"
  by (induction p d ks rule: ptr_from.induct)
    (auto simp: isNotFound_def newNotFoundError_def validateArrayIndex_def inRange_def
      split: json.splits option.splits sum.splits if_splits)

lemma read_loop_notfound: "read_loop p us = Inl (Inl e) \<Longrightarrow> isNotFound e"
  by (induction p us rule: read_loop.induct)
    (auto simp: ptr_def isNotFound_def newNotFoundError_def dest: ptr_from_notfound
      split: if_splits sum.splits storage_error.splits)

lemma txn_view_object: "txn_ok data txn \<Longrightarrow> \<exists>m. txn_view data txn = JObj m"
  using commit_view [of data "t_updates txn"] unfolding txn_ok_def txn_view_def by metis

lemma read_found:
  "txn_ok data txn \<Longrightarrow> found (txn_read data txn p) = jget (txn_view data txn) p"
  using read_view [of data txn p] by (simp add: txn_ok_def txn_view_def)

lemma merge_applies:
  assumes "updates_ok d us" and "read_loop p us = Inr ms" and "jget d p = Some x"
  shows "\<exists>y. apply_all (map (\<lambda>u. relative u p) ms) x = Inr y"
proof -
  have free: "\<forall>u \<in> set us. \<not> path_hasPrefix p (u_path u)"
    using assms(2) by (induction us arbitrary: ms) (auto split: if_splits sum.splits)
  then have ms: "ms = filter (\<lambda>u. path_hasPrefix (u_path u) p) us"
    using read_loop_miss assms(2) by fastforce
  have "updates_ok d ms" using assms(1) ms by (simp add: updates_ok_def list_all_iff sorted_wrt_filter)
  moreover have "\<forall>u \<in> set ms. \<exists>r. r \<noteq> [] \<and> u_path u = p @ r"
    using free ms by (auto simp: path_hasPrefix_append)
  ultimately have "updates_ok x (map (\<lambda>u. relative u p) ms)" using assms(3) by (rule relative_ok)
  then show ?thesis using apply_all_view by blast
qed

lemma txn_write_keeps: "t_write (fst (txn_write data txn op p x)) = t_write txn"
  by (simp add: txn_write_def updateRoot_def case_prod_beta Let_def split: sum.splits loop_end.splits json.splits)

lemma read_Inl: "txn_ok data txn \<Longrightarrow> txn_read data txn p = Inl e \<Longrightarrow> isNotFound e \<and> jget (txn_view data txn) p = None"
proof
  assume ok: "txn_ok data txn" and e: "txn_read data txn p = Inl e"
  show "jget (txn_view data txn) p = None" using read_found [OF ok, of p] e by (simp add: found_def)
  have us: "updates_ok (JObj data) (t_updates txn)" and w: "t_write txn" using ok by (simp_all add: txn_ok_def)
  show "isNotFound e"
  proof (cases "read_loop p (t_updates txn)")
    case (Inl r)
    then show ?thesis using e w read_loop_notfound by (cases r) (auto simp: txn_read_def)
  next
    case (Inr ms)
    show ?thesis
    proof (cases "ptr (JObj data) p")
      case (Inl e')
      then show ?thesis using e w Inr ptr_from_notfound by (auto simp: txn_read_def ptr_def)
    next
      case r: (Inr x)
      then have "jget (JObj data) p = Some x" using ptr_jget found_Some by metis
      then show ?thesis using merge_applies [OF us Inr, of x] r e w Inr
        by (auto simp: txn_read_def split: if_splits)
    qed
  qed
qed

lemma write_add:
  assumes "txn_ok data txn" and "no_array_above (txn_view data txn) p" and "parent_obj (txn_view data txn) p \<noteq> None"
  obtains txn' where "txn_write data txn AddOp p x = (txn', None)" "txn_ok data txn'"
    "txn_view data txn' = jput p (Some x) (txn_view data txn)"
proof -
  have "p \<noteq> []" using assms(3) by auto
  moreover have "patch_applies AddOp p (txn_view data txn)" using assms(3) parent_obj_patch by blast
  ultimately show ?thesis
    using write_refines [of txn p data AddOp x] assms(1,2) that txn_write_keeps [of data txn AddOp p x]
    by (auto simp: txn_ok_def txn_view_def patch_def split: prod.splits option.splits)
qed

lemma parent_of_dir:
  "no_array_above d p \<Longrightarrow> jget d p = Some (JObj m) \<Longrightarrow> parent_obj d (p @ [k]) \<noteq> None \<and> no_array_above d (p @ [k])"
  by (induction d p rule: no_array_above.induct) (auto split: json.splits option.splits)

lemma no_array_below: "no_array_above d (p @ q) \<Longrightarrow> jget d p = Some x \<Longrightarrow> no_array_above x q"
  by (induction d p rule: no_array_above.induct) (auto split: json.splits option.splits)

lemma no_array_above_prefix: "no_array_above d (p @ q) \<Longrightarrow> no_array_above d p"
  by (induction d p rule: no_array_above.induct) (auto split: json.splits option.splits)

lemma jput_keeps_leaf:
  assumes "parent_obj d p \<noteq> None" and "is_leaf x" and "jget d q = Some x" and "\<not> path_hasPrefix q p"
  shows "jget (jput p v d) q = Some x"
proof (cases "path_hasPrefix p q")
  case True
  then obtain r where r: "p = q @ r" by (auto simp: path_hasPrefix_append)
  then have "r \<noteq> []" using assms(4) by (auto simp: path_hasPrefix_append)
  moreover have "jput r v x = x" using assms(2) \<open>r \<noteq> []\<close> by (cases r; cases x) (auto simp: is_leaf_def)
  ultimately show ?thesis using jget_jput_above [of r d q v] assms(1,3) r by simp
next
  case False
  then show ?thesis using assms(3,4) by (simp add: jget_jput_apart apart_def)
qed

definition dir_made :: "(string, json) fmap \<Rightarrow> transaction \<Rightarrow> path \<Rightarrow> transaction \<times> storage_error option \<Rightarrow> bool" where
  "dir_made data txn p r \<longleftrightarrow>
     (case snd r of
        None \<Rightarrow>
          txn_ok data (fst r) \<and> no_array_above (txn_view data (fst r)) p \<and>
          (\<exists>m. jget (txn_view data (fst r)) p = Some (JObj m)) \<and>
          (\<forall>q x. is_leaf x \<longrightarrow> jget (txn_view data txn) q = Some x \<longrightarrow> jget (txn_view data (fst r)) q = Some x)
      | Some _ \<Rightarrow>
          fst r = txn \<and> (\<exists>q x. path_hasPrefix p q \<and> is_leaf x \<and> jget (txn_view data txn) q = Some x))"

lemma makeDir_step:
  assumes p: "p = butlast p @ [last p]" and IH: "dir_made data txn (butlast p) r"
    and none: "jget (txn_view data txn) p = None"
  shows "dir_made data txn p
    (case r of (txn', Some e) \<Rightarrow> (txn', Some e) | (txn', None) \<Rightarrow> txn_write data txn' AddOp p (JObj fmempty))"
proof (cases "snd r")
  case (Some e)
  have "path_hasPrefix p q" if "path_hasPrefix (butlast p) q" for q
    using that p by (metis append_assoc path_hasPrefix_append)
  then show ?thesis using IH Some by (cases r) (auto simp: dir_made_def)
next
  case None
  let ?txn = "fst r"
  have ok: "txn_ok data ?txn" "no_array_above (txn_view data ?txn) (butlast p)"
    and keep: "\<And>q x. is_leaf x \<Longrightarrow> jget (txn_view data txn) q = Some x \<Longrightarrow> jget (txn_view data ?txn) q = Some x"
    using IH None by (auto simp: dir_made_def)
  obtain m where "jget (txn_view data ?txn) (butlast p) = Some (JObj m)" using IH None by (auto simp: dir_made_def)
  then have par: "parent_obj (txn_view data ?txn) p \<noteq> None" "no_array_above (txn_view data ?txn) p"
    using parent_of_dir [OF ok(2)] p by metis+
  obtain txn' where w: "txn_write data ?txn AddOp p (JObj fmempty) = (txn', None)" "txn_ok data txn'"
    "txn_view data txn' = jput p (Some (JObj fmempty)) (txn_view data ?txn)"
    using write_add [OF ok(1) par(2,1)] by blast
  have "jget (txn_view data txn') p = Some (JObj fmempty)"
    using jget_jput_below [OF par(1), of _ "[]"] w(3) by simp
  moreover have "parent_obj (txn_view data txn') p \<noteq> None"
    using patch_applies_here [OF par(1), of AddOp] w(3) parent_obj_patch by metis
  then have "no_array_above (txn_view data txn') p" by (rule parent_obj_no_array)
  moreover have "jget (txn_view data txn') q = Some x" if h: "is_leaf x" "jget (txn_view data txn) q = Some x" for q x
  proof -
    have "\<not> path_hasPrefix q p" using none h(2) by (auto simp: path_hasPrefix_append jget_append)
    then show ?thesis unfolding w(3) by (rule jput_keeps_leaf [OF par(1) h(1) keep [OF h]])
  qed
  ultimately show ?thesis using None w(1,2) by (cases r) (auto simp: dir_made_def)
qed

lemma makeDir_made:
  "txn_ok data txn \<Longrightarrow> no_array_above (txn_view data txn) p \<Longrightarrow> dir_made data txn p (makeDir data txn p)"
proof (induction data txn p rule: makeDir.induct)
  case (1 data txn p)
  note ok = \<open>txn_ok data txn\<close> and na = \<open>no_array_above (txn_view data txn) p\<close>
  show ?case
  proof (cases "p = []")
    case True
    then show ?thesis using ok txn_view_object [OF ok]
      by (subst makeDir.simps) (auto simp: dir_made_def)
  next
    case False
    show ?thesis
    proof (cases "txn_read data txn p")
      case (Inr x)
      then have "jget (txn_view data txn) p = Some x" using read_found [OF ok, of p] by (simp add: found_def)
      moreover have "makeDir data txn p = (txn, if is_leaf x then Some (WriteConflictErr p) else None)"
        using Inr False by (subst makeDir.simps) (simp add: is_leaf_def split: json.splits)
      moreover have "path_hasPrefix p p" by (simp add: path_hasPrefix_append)
      ultimately show ?thesis using ok na
        by (cases "is_leaf x") (auto simp: dir_made_def, auto simp: is_leaf_def split: json.splits)
    next
      case (Inl e)
      then have e: "isNotFound e" "jget (txn_view data txn) p = None" using read_Inl [OF ok] by auto
      have p: "p = butlast p @ [last p]" using False by simp
      have na': "no_array_above (txn_view data txn) (butlast p)"
        using na no_array_above_prefix [of _ "butlast p" "[last p]"] p by simp
      have IH: "dir_made data txn (butlast p) (makeDir data txn (butlast p))"
        using 1(1) [OF _ Inl _ ok na'] False e(1) by simp
      have unfold: "makeDir data txn p =
          (case makeDir data txn (butlast p) of
             (txn', Some e') \<Rightarrow> (txn', Some e')
           | (txn', None) \<Rightarrow> txn_write data txn' AddOp p (JObj fmempty))"
        using False Inl e(1) by (subst makeDir.simps) simp
      show ?thesis using makeDir_step [OF p IH e(2)] unfold by simp
    qed
  qed
qed

text \<open>
  \<open>MakeDir\<close> makes the path a directory of the transaction's view and loses no value on the way: it
  succeeds with an object at the path and every leaf kept, or it changes nothing, and then a value
  that is no object stands in the way.
\<close>

theorem make_dir_correct:
  assumes "txn_ok data txn" and "no_array_above (txn_view data txn) p"
  shows "case makeDir data txn p of
     (txn', None) \<Rightarrow> txn_ok data txn' \<and> (\<exists>m. jget (txn_view data txn') p = Some (JObj m)) \<and>
       (\<forall>q x. is_leaf x \<longrightarrow> jget (txn_view data txn) q = Some x \<longrightarrow> jget (txn_view data txn') q = Some x)
   | (txn', Some e) \<Rightarrow> txn' = txn \<and>
       (\<exists>q x. path_hasPrefix p q \<and> is_leaf x \<and> jget (txn_view data txn) q = Some x)"
  using makeDir_made [OF assms] by (auto simp: dir_made_def split: prod.splits option.splits)

theorem make_dir_correct_witness:
  "case makeDir (fmap_of_list [(''a'', JObj (fmap_of_list [(''b'', JNull)]))]) (newTransaction 1 True) [''a'', ''c'', ''d''] of
     (txn', None) \<Rightarrow>
       (\<exists>m. jget (txn_view (fmap_of_list [(''a'', JObj (fmap_of_list [(''b'', JNull)]))]) txn') [''a'', ''c'', ''d''] = Some (JObj m))
   | (txn', Some e) \<Rightarrow> False"
proof -
  let ?data = "fmap_of_list [(''a'', JObj (fmap_of_list [(''b'', JNull)]))]" and ?p = "[''a'', ''c'', ''d'']"
  have ok: "txn_ok ?data (newTransaction 1 True)" "no_array_above (txn_view ?data (newTransaction 1 True)) ?p"
    by code_simp+
  have "snd (makeDir ?data (newTransaction 1 True) ?p) = None" by code_simp
  then show ?thesis using make_dir_correct [OF ok] by (auto split: prod.splits)
qed

lemma jget_take: "jget d p = Some x \<Longrightarrow> jget d (take i p) \<noteq> None"
  using jget_append [of d "take i p" "drop i p"] by (auto split: option.splits)

lemma nonEmpty_loop_correct:
  assumes ok: "txn_ok data txn" and na: "no_array_above (txn_view data txn) p"
    and none: "\<forall>j. i < j \<longrightarrow> j \<le> length p \<longrightarrow> jget (txn_view data txn) (take j p) = None" and i: "i \<le> length p"
  shows "nonEmpty_loop data txn p i =
    Inr (\<exists>j x. 0 < j \<and> j \<le> length p \<and> jget (txn_view data txn) (take j p) = Some x \<and> is_leaf x)"
  using none i
proof (induction i)
  case 0
  then show ?case by fastforce
next
  case (Suc i)
  show ?case
  proof (cases "txn_read data txn (take (Suc i) p)")
    case (Inl e)
    then have e: "isNotFound e" "jget (txn_view data txn) (take (Suc i) p) = None" using read_Inl [OF ok] by auto
    have "jget (txn_view data txn) (take j p) = None" if "i < j" "j \<le> length p" for j
      using that Suc.prems e(2) by (cases "j = Suc i") auto
    then show ?thesis using Suc Inl e by simp
  next
    case (Inr x)
    then have x: "jget (txn_view data txn) (take (Suc i) p) = Some x"
      using read_found [OF ok, of "take (Suc i) p"] by (simp add: found_def)
    have "\<not> is_leaf y" if j: "0 < j" "j \<le> length p" "jget (txn_view data txn) (take j p) = Some y" "\<not> is_leaf x" for j y
    proof -
      have "j \<le> Suc i" using j Suc.prems(1) by (metis not_less option.distinct(1))
      then have t: "take (Suc i) p = take j p @ drop j (take (Suc i) p)" by (metis append_take_drop_id min.absorb1 take_take)
      have "no_array_above y (drop j (take (Suc i) p))"
        using na no_array_below [of _ "take j p" "drop j (take (Suc i) p)" y] j(3) no_array_above_prefix t
        by (metis append_take_drop_id)
      moreover have "jget y (drop j (take (Suc i) p)) = Some x"
        using x t j(3) jget_append [of _ "take j p" "drop j (take (Suc i) p)"] by simp
      ultimately show ?thesis using j(4) by (cases "drop j (take (Suc i) p)"; cases y) (auto simp: is_leaf_def)
    qed
    then have "(\<exists>j y. 0 < j \<and> j \<le> length p \<and> jget (txn_view data txn) (take j p) = Some y \<and> is_leaf y) \<longleftrightarrow> is_leaf x"
      using x Suc.prems(2) by (metis zero_less_Suc)
    moreover have "nonEmpty_loop data txn p (Suc i) = Inr (is_leaf x)"
      using Inr by (simp add: is_leaf_def split: json.splits)
    ultimately show ?thesis by simp
  qed
qed

text \<open>
  Where no array lies above the path, \<open>NonEmpty\<close> answers without error what its comment says: the
  path holds a value, or a prefix of it holds a value that is no object.
\<close>

theorem non_empty_correct:
  assumes "txn_ok data txn" and "no_array_above (txn_view data txn) p" and "p \<noteq> []"
  shows "nonEmpty data txn p =
    Inr (jget (txn_view data txn) p \<noteq> None \<or>
      (\<exists>j x. 0 < j \<and> j \<le> length p \<and> jget (txn_view data txn) (take j p) = Some x \<and> is_leaf x))"
proof (cases "txn_read data txn p")
  case (Inr x)
  then have "jget (txn_view data txn) p = Some x" using read_found [OF assms(1), of p] by (simp add: found_def)
  then show ?thesis using Inr by (simp add: nonEmpty_def)
next
  case (Inl e)
  then have e: "isNotFound e" "jget (txn_view data txn) p = None" using read_Inl [OF assms(1)] by auto
  have "nonEmpty_loop data txn p (length p - 1) =
      Inr (\<exists>j x. 0 < j \<and> j \<le> length p \<and> jget (txn_view data txn) (take j p) = Some x \<and> is_leaf x)"
    by (rule nonEmpty_loop_correct [OF assms(1,2)]) (use e(2) in \<open>auto simp: le_eq_less_or_eq\<close>)
  then show ?thesis using Inl e by (simp add: nonEmpty_def)
qed

theorem non_empty_correct_witness:
  "nonEmpty (fmap_of_list [(''a'', JNull)]) (newTransaction 1 True) [''a'', ''b''] = Inr True"
proof -
  let ?data = "fmap_of_list [(''a'', JNull)]" and ?txn = "newTransaction 1 True"
  have "txn_ok ?data ?txn" "no_array_above (txn_view ?data ?txn) [''a'', ''b'']" "[''a'', ''b''] \<noteq> []"
    by code_simp+
  from non_empty_correct [OF this]
  have "nonEmpty ?data ?txn [''a'', ''b''] =
      Inr (jget (txn_view ?data ?txn) [''a'', ''b''] \<noteq> None \<or>
        (\<exists>j x. 0 < j \<and> j \<le> length [''a'', ''b''] \<and> jget (txn_view ?data ?txn) (take j [''a'', ''b'']) = Some x \<and> is_leaf x))" .
  moreover have "jget (txn_view ?data ?txn) (take 1 [''a'', ''b'']) = Some JNull" "is_leaf JNull" by code_simp+
  then have "\<exists>j x. 0 < j \<and> j \<le> length [''a'', ''b''] \<and> jget (txn_view ?data ?txn) (take j [''a'', ''b'']) = Some x \<and> is_leaf x"
    by (intro exI [of _ 1] exI [of _ JNull]) simp
  ultimately show ?thesis by simp
qed

text \<open>
  With an array on the way the answer depends on the element: the prefix \<open>/arr\<close> holds a value
  that is no object, but the loop stops at the object inside it.
\<close>

theorem non_empty_array:
  "let data = fmap_of_list [(''arr'', JArr [JObj fmempty])]; txn = newTransaction 1 False
   in nonEmpty data txn [''arr'', ''0'', ''x''] = Inr False \<and>
      txn_read data txn [''arr''] = Inr (JArr [JObj fmempty])"
  by code_simp

subsection \<open>Truncation\<close>

definition update_key :: "store_update \<Rightarrow> path" where
  "update_key u =
     (let dirpath = trim_left CHR ''/'' (path_string (su_path u))
      in if length dirpath > 0 then split_on CHR ''/'' dirpath else [])"

text \<open>The leaf \<open>x\<close> at path \<open>p\<close> comes from one of the files.\<close>

definition file_leaf :: "(string \<Rightarrow> json option) \<Rightarrow> store_update list \<Rightarrow> path \<Rightarrow> json \<Rightarrow> bool" where
  "file_leaf unmarshal us p x \<longleftrightarrow>
     (\<exists>u v r. u \<in> set us \<and> \<not> su_isPolicy u \<and> unmarshal (su_value u) = Some v \<and> v \<noteq> JNull \<and>
        p = update_key u @ r \<and> jget v r = Some x)"

lemma mktree_leaf:
  assumes "mktree key v = Inr m" and "is_leaf x"
  shows "jget (JObj m) p = Some x \<longleftrightarrow> (\<exists>r. p = key @ r \<and> jget v r = Some x)"
proof -
  have loop: "jget (mktree_loop ks v) q = Some x \<longleftrightarrow> (\<exists>r. q = ks @ r \<and> jget v r = Some x)" for ks q
    using assms(2)
  proof (induction ks arbitrary: q)
    case (Cons k ks)
    then show ?case by (cases q) (auto simp: is_leaf_def split: if_splits)
  qed simp
  show ?thesis
  proof (cases key)
    case Nil
    then show ?thesis using assms(1) by (auto simp: mktree_def split: json.splits)
  next
    case (Cons k ks)
    then have "JObj m = mktree_loop key v" using assms(1) by (simp add: mktree_def)
    then show ?thesis using loop by simp
  qed
qed

lemma truncate_loop_leaves:
  "truncate_loop unmarshal us txn m0 = (txn', Inr m) \<Longrightarrow> is_leaf x \<Longrightarrow>
     jget (JObj m) p = Some x \<longleftrightarrow> jget (JObj m0) p = Some x \<or> file_leaf unmarshal us p x"
proof (induction us arbitrary: txn m0)
  case Nil
  then show ?case by (simp add: file_leaf_def)
next
  case (Cons u us)
  have split: "file_leaf unmarshal (u # us) p x \<longleftrightarrow>
      (\<not> su_isPolicy u \<and> (\<exists>v r. unmarshal (su_value u) = Some v \<and> v \<noteq> JNull \<and> p = update_key u @ r \<and> jget v r = Some x))
      \<or> file_leaf unmarshal us p x"
    by (auto simp: file_leaf_def)
  show ?case
  proof (cases "su_isPolicy u \<or> unmarshal (su_value u) = Some JNull")
    case True
    then show ?thesis using Cons split
      by (auto simp: Let_def split: prod.splits option.splits if_splits)
  next
    case False
    then obtain v obj n where v: "unmarshal (su_value u) = Some v" "v \<noteq> JNull" "mktree (update_key u) v = Inr obj"
      "interfaceMaps m0 obj = Merged n" "truncate_loop unmarshal us txn n = (txn', Inr m)"
      using Cons.prems(1) by (auto simp: Let_def update_key_def split: option.splits sum.splits merged.splits if_splits)
    have n: "\<not> hasConflicts m0 obj" "merge m0 obj = Some n"
      using v(4) by (auto simp: interfaceMaps_def split: if_splits option.splits)
    have "jget (JObj n) p = Some x \<longleftrightarrow> jget (JObj m0) p = Some x \<or> jget (JObj obj) p = Some x"
      using merge_leaves [OF n] Cons.prems(2) by (simp add: is_leaf_def)
    then show ?thesis using Cons.IH [OF v(5) Cons.prems(2)] mktree_leaf [OF v(3) Cons.prems(2)] split False v by auto
  qed
qed



text \<open>
  The key of a file is split from the escaped text of its path, the roots are unescaped: data
  under a root with a character that is escaped is dropped, and the truncation reports no error.
\<close>

theorem truncate_drops_escaped_root:
  "let f = \<lparr>su_path = [''a b''], su_value = [], su_isPolicy = False\<rparr>;
       params = \<lparr>tp_basePaths = [''a b''], tp_rootOverwrite = False\<rparr>;
       r = truncate (\<lambda>_. Some (JBool True)) fmempty (newTransaction 1 True) params [f] False
   in update_key f = [''a%20b''] \<and> snd r = None \<and> t_updates (fst r) = []"
  by code_simp

end
