(* ===== verification/Storage_Store.thy ===== *)
theory Storage_Store
  imports Storage_Tree
begin

text \<open>
  The in-memory store with its two locks (storage/inmem/inmem.go): opening, committing and aborting
  transactions, and the operations of a transaction on the store.

  A transaction is named by the order in which it was opened.  The writer lock \<open>wmu\<close> is held or
  free, the reader lock \<open>rmu\<close> is the number of its readers; its exclusive side is held only inside
  \<open>Commit\<close>, which is one step here.  An operation that has to wait for a lock is not enabled.  The
  interleavings of the clients are the sequences of enabled steps.
\<close>

section \<open>The store\<close>

record store =
  db_data :: "(string, json) fmap"
  db_policies :: "(string, string) fmap"
  db_xid :: "64 word"
  db_wmu :: bool
  db_rmu :: nat
  db_txns :: "transaction list"

definition newStore :: store where
  "newStore =
     \<lparr>db_data = fmempty, db_policies = fmempty, db_xid = 0, db_wmu = False, db_rmu = 0, db_txns = []\<rparr>"

datatype 'a outcome = Done 'a | Blocked | Fails storage_error | Panics

definition newTransaction_store :: "store \<Rightarrow> bool \<Rightarrow> store outcome" where
  "newTransaction_store db w =
     (let xid = db_xid db + 1;
          db' = db\<lparr>db_xid := xid, db_txns := db_txns db @ [newTransaction xid w]\<rparr>
      in if w then (if db_wmu db then Blocked else Done (db'\<lparr>db_wmu := True\<rparr>))
         else Done (db'\<lparr>db_rmu := db_rmu db + 1\<rparr>))"

definition underlying :: "store \<Rightarrow> nat \<Rightarrow> storage_error + transaction" where
  "underlying db h =
     (if h \<ge> length (db_txns db) then Inl (InvalidTransactionErr ''unknown transaction'')
      else if t_stale (db_txns db ! h) then Inl (InvalidTransactionErr ''stale transaction'')
      else Inr (db_txns db ! h))"

definition mark_stale :: "store \<Rightarrow> nat \<Rightarrow> store" where
  "mark_stale db h = db\<lparr>db_txns := (db_txns db)[h := (db_txns db ! h)\<lparr>t_stale := True\<rparr>]\<rparr>"

text \<open>Releasing a lock that is not held is a fatal error.\<close>

definition wmu_unlock :: "store \<Rightarrow> store outcome" where
  "wmu_unlock db = (if db_wmu db then Done (db\<lparr>db_wmu := False\<rparr>) else Panics)"

definition rmu_runlock :: "store \<Rightarrow> store outcome" where
  "rmu_runlock db = (if db_rmu db = 0 then Panics else Done (db\<lparr>db_rmu := db_rmu db - 1\<rparr>))"

definition store_commit :: "store \<Rightarrow> nat \<Rightarrow> store outcome" where
  "store_commit db h =
     (case underlying db h of
        Inl e \<Rightarrow> Fails e
      | Inr t \<Rightarrow>
          if t_write t then
            if db_rmu db \<noteq> 0 then Blocked
            else
              case commit_data (t_updates t) (db_data db) of
                Inl _ \<Rightarrow> Panics
              | Inr (data, _) \<Rightarrow>
                  let ps = fst (commit_policies (sorted_list_of_fset (fmdom (t_policies t))) (t_policies t) (db_policies db))
                  in wmu_unlock (mark_stale (db\<lparr>db_data := data, db_policies := ps\<rparr>) h)
          else rmu_runlock db)"

definition store_abort :: "store \<Rightarrow> nat \<Rightarrow> store outcome" where
  "store_abort db h =
     (case underlying db h of
        Inl e \<Rightarrow> Panics
      | Inr t \<Rightarrow>
          let db' = mark_stale db h
          in if t_write t then wmu_unlock db' else rmu_runlock db')"

text \<open>Running an operation of a transaction, which returns the transaction and an error.\<close>

definition with_txn :: "store \<Rightarrow> nat \<Rightarrow> (transaction \<Rightarrow> transaction \<times> storage_error option) \<Rightarrow> store \<times> storage_error option" where
  "with_txn db h f =
     (case underlying db h of
        Inl e \<Rightarrow> (db, Some e)
      | Inr t \<Rightarrow> (db\<lparr>db_txns := (db_txns db)[h := fst (f t)]\<rparr>, snd (f t)))"

definition store_read :: "store \<Rightarrow> nat \<Rightarrow> path \<Rightarrow> storage_error + json" where
  "store_read db h p = (case underlying db h of Inl e \<Rightarrow> Inl e | Inr t \<Rightarrow> txn_read (db_data db) t p)"

text \<open>
  The round trip of the value through JSON is the identity on documents, which are what it gives.
\<close>

definition store_write :: "store \<Rightarrow> nat \<Rightarrow> patchOp \<Rightarrow> path \<Rightarrow> json \<Rightarrow> store \<times> storage_error option" where
  "store_write db h op p x = with_txn db h (\<lambda>t. txn_write (db_data db) t op p x)"

definition store_getPolicy :: "store \<Rightarrow> nat \<Rightarrow> string \<Rightarrow> storage_error + string" where
  "store_getPolicy db h i = (case underlying db h of Inl e \<Rightarrow> Inl e | Inr t \<Rightarrow> getPolicy (db_policies db) t i)"

definition store_upsertPolicy :: "store \<Rightarrow> nat \<Rightarrow> string \<Rightarrow> string \<Rightarrow> store \<times> storage_error option" where
  "store_upsertPolicy db h i bs = with_txn db h (\<lambda>t. upsertPolicy t i bs)"

definition store_deletePolicy :: "store \<Rightarrow> nat \<Rightarrow> string \<Rightarrow> store \<times> storage_error option" where
  "store_deletePolicy db h i =
     with_txn db h (\<lambda>t.
       case getPolicy (db_policies db) t i of
         Inl e \<Rightarrow> (t, Some e)
       | Inr _ \<Rightarrow> deletePolicy t i)"

section \<open>Steps\<close>

datatype action =
    NewTxn bool
  | Commit nat
  | Abort nat
  | Write nat patchOp path json
  | UpsertPolicy nat string string
  | DeletePolicy nat string

definition enabled :: "store outcome \<Rightarrow> store option" where
  "enabled r = (case r of Done s \<Rightarrow> Some s | _ \<Rightarrow> None)"

fun exec :: "store \<Rightarrow> action \<Rightarrow> store option" where
  "exec db (NewTxn w) = enabled (newTransaction_store db w)"
| "exec db (Commit h) = enabled (store_commit db h)"
| "exec db (Abort h) = enabled (store_abort db h)"
| "exec db (Write h op p x) = Some (fst (store_write db h op p x))"
| "exec db (UpsertPolicy h i bs) = Some (fst (store_upsertPolicy db h i bs))"
| "exec db (DeletePolicy h i) = Some (fst (store_deletePolicy db h i))"

inductive run :: "action list \<Rightarrow> store \<Rightarrow> bool" where
  run_new: "run [] newStore"
| run_step: "run tr s \<Longrightarrow> exec s a = Some s' \<Longrightarrow> run (tr @ [a]) s'"

text \<open>The transactions that the clients have ended, in order.\<close>

fun ends :: "action list \<Rightarrow> nat list" where
  "ends [] = []"
| "ends (Commit h # tr) = h # ends tr"
| "ends (Abort h # tr) = h # ends tr"
| "ends (_ # tr) = ends tr"

lemma ends_append [simp]: "ends (tr @ tr') = ends tr @ ends tr'"
  by (induction tr rule: ends.induct) auto

text \<open>A writer is open as long as it is not stale; a reader until its client ends it.\<close>

definition writers :: "store \<Rightarrow> nat set" where
  "writers s = {h. h < length (db_txns s) \<and> t_write (db_txns s ! h) \<and> \<not> t_stale (db_txns s ! h)}"

definition readers :: "store \<Rightarrow> nat list \<Rightarrow> nat set" where
  "readers s es = {h. h < length (db_txns s) \<and> \<not> t_write (db_txns s ! h) \<and> h \<notin> set es}"

definition locks_ok :: "store \<Rightarrow> nat list \<Rightarrow> bool" where
  "locks_ok s es \<longleftrightarrow>
     (if db_wmu s then \<exists>h. writers s = {h} else writers s = {}) \<and>
     db_rmu s = card (readers s es) \<and>
     (\<forall>h \<in> set es. h < length (db_txns s) \<and> (t_write (db_txns s ! h) \<longrightarrow> t_stale (db_txns s ! h))) \<and>
     (\<forall>h < length (db_txns s). t_stale (db_txns s ! h) \<longrightarrow> h \<in> set es)"

section \<open>The lock invariant\<close>

definition flags :: "store \<Rightarrow> (bool \<times> bool) list" where
  "flags s = map (\<lambda>t. (t_write t, t_stale t)) (db_txns s)"

lemma flags_nth: "h < length (db_txns s) \<Longrightarrow> flags s ! h = (t_write (db_txns s ! h), t_stale (db_txns s ! h))"
  by (simp add: flags_def)

lemma locks_ok_flags:
  assumes "flags s' = flags s" and "db_wmu s' = db_wmu s" and "db_rmu s' = db_rmu s"
  shows "locks_ok s' es = locks_ok s es"
proof -
  have len: "length (db_txns s') = length (db_txns s)" using assms(1) by (metis flags_def length_map)
  have nth: "t_write (db_txns s' ! h) = t_write (db_txns s ! h) \<and> t_stale (db_txns s' ! h) = t_stale (db_txns s ! h)"
    if "h < length (db_txns s)" for h
    using flags_nth [of h s] flags_nth [of h s'] that len assms(1) by simp
  have "writers s' = writers s" "readers s' es = readers s es"
    using len nth by (auto simp: writers_def readers_def)
  then show ?thesis using assms(2,3) len nth by (auto simp: locks_ok_def)
qed

lemma underlying_Inr: "underlying db h = Inr t \<longleftrightarrow> h < length (db_txns db) \<and> \<not> t_stale (db_txns db ! h) \<and> t = db_txns db ! h"
  by (auto simp: underlying_def)

lemma with_txn_flags:
  assumes "\<And>t. t_write (fst (f t)) = t_write t \<and> t_stale (fst (f t)) = t_stale t"
  shows "flags (fst (with_txn db h f)) = flags db \<and> db_wmu (fst (with_txn db h f)) = db_wmu db \<and>
    db_rmu (fst (with_txn db h f)) = db_rmu db \<and> db_data (fst (with_txn db h f)) = db_data db \<and>
    db_policies (fst (with_txn db h f)) = db_policies db"
proof (cases "underlying db h")
  case (Inr t)
  let ?g = "\<lambda>t. (t_write t, t_stale t)"
  have "?g (fst (f t)) = map ?g (db_txns db) ! h" using Inr assms by (simp add: underlying_Inr)
  then have "(map ?g (db_txns db))[h := ?g (fst (f t))] = map ?g (db_txns db)" by (metis list_update_id)
  then show ?thesis using Inr by (simp add: with_txn_def flags_def map_update)
qed (simp add: with_txn_def)

lemma txn_write_stale: "t_stale (fst (txn_write data txn op p x)) = t_stale txn"
  by (simp add: txn_write_def updateRoot_def case_prod_beta Let_def split: sum.splits loop_end.splits json.splits)

lemma write_flags:
  "t_write (fst (txn_write data t op p x)) = t_write t \<and> t_stale (fst (txn_write data t op p x)) = t_stale t"
  by (simp add: txn_write_keeps txn_write_stale)

lemma policy_flags:
  "t_write (fst (upsertPolicy t i bs)) = t_write t \<and> t_stale (fst (upsertPolicy t i bs)) = t_stale t"
  "t_write (fst (deletePolicy t i)) = t_write t \<and> t_stale (fst (deletePolicy t i)) = t_stale t"
  by (simp_all add: upsertPolicy_def deletePolicy_def)

lemma delete_policy_flags:
  "t_write (fst (case getPolicy ps t i of Inl e \<Rightarrow> (t, Some e) | Inr _ \<Rightarrow> deletePolicy t i)) = t_write t \<and>
   t_stale (fst (case getPolicy ps t i of Inl e \<Rightarrow> (t, Some e) | Inr _ \<Rightarrow> deletePolicy t i)) = t_stale t"
  by (simp add: policy_flags split: sum.splits)

lemmas delete_flags = with_txn_flags [of "\<lambda>t. case getPolicy ps t i of Inl e \<Rightarrow> (t, Some e) | Inr _ \<Rightarrow> deletePolicy t i" for ps i,
    OF delete_policy_flags]

lemma card_readers_finite: "finite (readers s es)"
  by (simp add: readers_def)

text \<open>The three ways in which a step moves the locks.\<close>

lemma locks_ok_new:
  assumes ok: "locks_ok s es" and new: "newTransaction_store s w = Done s'"
  shows "locks_ok s' es"
proof -
  let ?n = "length (db_txns s)"
  obtain t where txns: "db_txns s' = db_txns s @ [t]" and t: "t_write t = w" "\<not> t_stale t"
    using new by (auto simp: newTransaction_store_def newTransaction_def Let_def split: if_splits)
  have es: "?n \<notin> set es" using ok by (auto simp: locks_ok_def)
  have ws: "writers s' = (if w then insert ?n (writers s) else writers s)"
    using txns t by (auto simp: writers_def nth_append less_Suc_eq)
  have rs: "readers s' es = (if w then readers s es else insert ?n (readers s es))"
    using txns t es by (auto simp: readers_def nth_append less_Suc_eq)
  have "?n \<notin> readers s es" by (simp add: readers_def)
  then have "db_rmu s' = card (readers s' es)"
    using new ok rs card_readers_finite by (auto simp: newTransaction_store_def locks_ok_def Let_def split: if_splits)
  moreover have "if db_wmu s' then \<exists>h. writers s' = {h} else writers s' = {}"
    using new ok ws by (auto simp: newTransaction_store_def locks_ok_def Let_def split: if_splits)
  ultimately show ?thesis using ok txns t
    by (auto simp: locks_ok_def nth_append less_Suc_eq)
qed

lemma flags_update:
  assumes "flags s' = (flags s)[h := (w, b)]" and "h < length (db_txns s)"
  shows "length (db_txns s') = length (db_txns s)"
    and "j < length (db_txns s) \<Longrightarrow> t_write (db_txns s' ! j) = (if j = h then w else t_write (db_txns s ! j))"
    and "j < length (db_txns s) \<Longrightarrow> t_stale (db_txns s' ! j) = (if j = h then b else t_stale (db_txns s ! j))"
proof -
  show len: "length (db_txns s') = length (db_txns s)" using assms(1) by (metis flags_def length_list_update length_map)
  have "flags s' ! j = (if j = h then (w, b) else flags s ! j)" if "j < length (db_txns s)"
    unfolding assms(1) using that by (simp add: nth_list_update flags_def)
  then show "t_write (db_txns s' ! j) = (if j = h then w else t_write (db_txns s ! j))"
    "t_stale (db_txns s' ! j) = (if j = h then b else t_stale (db_txns s ! j))" if "j < length (db_txns s)"
    using that len flags_nth [of j s] flags_nth [of j s'] by (auto split: if_splits)
qed

lemma locks_okD:
  assumes "locks_ok s es"
  shows "h \<in> set es \<Longrightarrow> h < length (db_txns s) \<and> (t_write (db_txns s ! h) \<longrightarrow> t_stale (db_txns s ! h))"
    and "h < length (db_txns s) \<Longrightarrow> t_stale (db_txns s ! h) \<Longrightarrow> h \<in> set es"
    and "db_rmu s = card (readers s es)" and "db_wmu s \<Longrightarrow> \<exists>h. writers s = {h}"
  using assms by (simp_all add: locks_ok_def)

lemma locks_ok_after:
  assumes ok: "locks_ok s es" and fl: "flags s' = (flags s)[h := (w, b)]" and h: "h < length (db_txns s)" "w \<longrightarrow> b"
  shows "(\<forall>j \<in> set (es @ [h]). j < length (db_txns s') \<and> (t_write (db_txns s' ! j) \<longrightarrow> t_stale (db_txns s' ! j))) \<and>
    (\<forall>j < length (db_txns s'). t_stale (db_txns s' ! j) \<longrightarrow> j \<in> set (es @ [h]))"
proof (intro conjI ballI allI impI)
  note upd = flags_update [OF fl h(1)]
  fix j assume j: "j \<in> set (es @ [h])"
  then show len: "j < length (db_txns s')" using locks_okD(1) [OF ok, of j] h(1) upd(1) by auto
  show "t_stale (db_txns s' ! j)" if "t_write (db_txns s' ! j)"
    using that len j locks_okD(1) [OF ok, of j] h upd(1) upd(2) [of j] upd(3) [of j] by (cases "j = h") auto
next
  note upd = flags_update [OF fl h(1)]
  fix j assume "j < length (db_txns s')" "t_stale (db_txns s' ! j)"
  then show "j \<in> set (es @ [h])"
    using locks_okD(2) [OF ok, of j] upd(1) upd(3) [of j] by (cases "j = h") auto
qed

lemma locks_ok_end_writer:
  assumes ok: "locks_ok s es" and h: "h \<in> writers s"
    and s': "flags s' = (flags s)[h := (True, True)]" "\<not> db_wmu s'" "db_rmu s' = db_rmu s"
  shows "locks_ok s' (es @ [h])"
proof -
  have h': "h < length (db_txns s)" "t_write (db_txns s ! h)" using h by (auto simp: writers_def)
  note upd = flags_update [OF s'(1) h'(1)]
  have "writers s' = writers s - {h}" using upd by (auto simp: writers_def split: if_splits)
  moreover have "writers s = {h}" using ok h by (auto simp: locks_ok_def split: if_splits)
  ultimately have "writers s' = {}" by simp
  moreover have "readers s' (es @ [h]) = readers s es" using upd h' by (auto simp: readers_def split: if_splits)
  ultimately show ?thesis using locks_ok_after [OF ok s'(1) h'(1)] locks_okD(3) [OF ok] s' by (simp add: locks_ok_def)
qed

lemma locks_ok_end_reader:
  assumes ok: "locks_ok s es" and h: "h \<in> readers s es"
    and s': "flags s' = (flags s)[h := (False, b)]" "db_wmu s' = db_wmu s" "db_rmu s' = db_rmu s - 1"
  shows "locks_ok s' (es @ [h])"
proof -
  have h': "h < length (db_txns s)" "\<not> t_write (db_txns s ! h)" using h by (auto simp: readers_def)
  note upd = flags_update [OF s'(1) h'(1)]
  have "writers s' = writers s" using upd h' by (auto simp: writers_def split: if_splits)
  moreover have "readers s' (es @ [h]) = readers s es - {h}" using upd h' by (auto simp: readers_def split: if_splits)
  moreover have "card (readers s es - {h}) = card (readers s es) - 1"
    using h card_readers_finite by (simp add: card_Diff_singleton)
  moreover have "if db_wmu s then \<exists>h. writers s = {h} else writers s = {}" using ok by (simp add: locks_ok_def)
  ultimately show ?thesis using locks_ok_after [OF ok s'(1) h'(1)] locks_okD(3) [OF ok] s' h' by (simp add: locks_ok_def)
qed

lemma mark_stale_flags:
  "h < length (db_txns db) \<Longrightarrow> flags (mark_stale db h) = (flags db)[h := (t_write (db_txns db ! h), True)]"
  by (simp add: mark_stale_def flags_def map_update)

lemma flags_simps [simp]:
  "flags (db\<lparr>db_data := d\<rparr>) = flags db" "flags (db\<lparr>db_policies := ps\<rparr>) = flags db"
  "flags (db\<lparr>db_wmu := w\<rparr>) = flags db" "flags (db\<lparr>db_rmu := n\<rparr>) = flags db"
  by (simp_all add: flags_def)

lemma mark_stale_simps [simp]:
  "db_data (mark_stale db h) = db_data db" "db_policies (mark_stale db h) = db_policies db"
  "db_wmu (mark_stale db h) = db_wmu db" "db_rmu (mark_stale db h) = db_rmu db"
  by (simp_all add: mark_stale_def)

text \<open>What ending a transaction does to the locks, whether by a commit or by an abort.\<close>

lemma commit_flags:
  assumes "store_commit s h = Done s'"
  shows "h < length (db_txns s) \<and> \<not> t_stale (db_txns s ! h) \<and>
    (if t_write (db_txns s ! h)
     then db_rmu s = 0 \<and> flags s' = (flags s)[h := (True, True)] \<and> \<not> db_wmu s' \<and> db_rmu s' = db_rmu s
     else flags s' = (flags s)[h := (False, t_stale (db_txns s ! h))] \<and> db_wmu s' = db_wmu s \<and>
       db_rmu s' = db_rmu s - 1 \<and> db_data s' = db_data s \<and> db_policies s' = db_policies s)"
proof -
  obtain t where t: "underlying s h = Inr t" using assms by (auto simp: store_commit_def split: sum.splits)
  then have h: "h < length (db_txns s)" "\<not> t_stale (db_txns s ! h)" "t = db_txns s ! h" by (simp_all add: underlying_Inr)
  show ?thesis
  proof (cases "t_write t")
    case True
    then show ?thesis using assms t h mark_stale_flags [of h "s\<lparr>db_data := d, db_policies := ps\<rparr>" for d ps]
      by (auto simp: store_commit_def wmu_unlock_def Let_def split: if_splits sum.splits prod.splits)
  next
    case False
    moreover have "flags s = (flags s)[h := (False, t_stale (db_txns s ! h))]"
      using False h flags_nth [of h s] by (metis list_update_id)
    ultimately show ?thesis using assms t h
      by (auto simp: store_commit_def rmu_runlock_def split: if_splits)
  qed
qed

lemma abort_flags:
  assumes "store_abort s h = Done s'"
  shows "h < length (db_txns s) \<and> \<not> t_stale (db_txns s ! h) \<and>
    db_data s' = db_data s \<and> db_policies s' = db_policies s \<and>
    flags s' = (flags s)[h := (t_write (db_txns s ! h), True)] \<and>
    (if t_write (db_txns s ! h) then \<not> db_wmu s' \<and> db_rmu s' = db_rmu s
     else db_wmu s' = db_wmu s \<and> db_rmu s' = db_rmu s - 1)"
  using assms mark_stale_flags [of h s]
  by (auto simp: store_abort_def underlying_Inr wmu_unlock_def rmu_runlock_def Let_def split: sum.splits if_splits)

lemma enabled_Some: "enabled r = Some s \<longleftrightarrow> r = Done s"
  by (auto simp: enabled_def split: outcome.splits)

lemma exec_locks_ok:
  assumes ok: "locks_ok s es" and step: "exec s a = Some s'" and once: "distinct (es @ ends [a])"
  shows "locks_ok s' (es @ ends [a])"
proof (cases a)
  case (NewTxn w)
  then show ?thesis using locks_ok_new [OF ok] step by (simp add: enabled_Some)
next
  case (Commit h)
  then have c: "store_commit s h = Done s'" using step by (simp add: enabled_Some)
  note f = commit_flags [OF c]
  show ?thesis
  proof (cases "t_write (db_txns s ! h)")
    case True
    then show ?thesis using f Commit locks_ok_end_writer [OF ok, of h s'] by (simp add: writers_def)
  next
    case False
    then show ?thesis using f Commit once locks_ok_end_reader [OF ok, of h s'] by (simp add: readers_def)
  qed
next
  case (Abort h)
  then have c: "store_abort s h = Done s'" using step by (simp add: enabled_Some)
  note f = abort_flags [OF c]
  show ?thesis
  proof (cases "t_write (db_txns s ! h)")
    case True
    then show ?thesis using f Abort locks_ok_end_writer [OF ok, of h s'] by (simp add: writers_def)
  next
    case False
    then show ?thesis using f Abort once locks_ok_end_reader [OF ok, of h s'] by (simp add: readers_def)
  qed
next
  case (Write h op p x)
  then show ?thesis using ok step locks_ok_flags [of s' s] with_txn_flags [OF write_flags]
    by (auto simp: store_write_def)
next
  case (UpsertPolicy h i bs)
  then show ?thesis using ok step locks_ok_flags [of s' s] with_txn_flags [OF policy_flags(1)]
    by (auto simp: store_upsertPolicy_def)
next
  case (DeletePolicy h i)
  then show ?thesis using ok step locks_ok_flags [of s' s] delete_flags by (auto simp: store_deletePolicy_def)
qed

lemma run_locks_ok: "run tr s \<Longrightarrow> distinct (ends tr) \<Longrightarrow> locks_ok s (ends tr)"
proof (induction rule: run.induct)
  case run_new
  then show ?case by (simp add: locks_ok_def newStore_def writers_def readers_def)
next
  case (run_step tr s a s')
  then have "locks_ok s (ends tr)" by simp
  then show ?case using exec_locks_ok [of s "ends tr" a s'] run_step by simp
qed

text \<open>
  C8.  The locks are right after every sequence of steps in which no transaction is ended twice: the
  writer lock is held exactly when there is an open writer, there is never a second one, and the
  reader lock counts the open readers.
\<close>

theorem store_locks:
  assumes "run tr s" and "distinct (ends tr)"
  shows "card (writers s) = (if db_wmu s then 1 else 0) \<and> db_rmu s = card (readers s (ends tr))"
  using run_locks_ok [OF assms] by (auto simp: locks_ok_def)

theorem store_locks_witness:
  "\<exists>s. run [NewTxn True, NewTxn False] s \<and> card (writers s) = 1"
proof -
  let ?s1 = "newStore\<lparr>db_xid := 1, db_txns := [newTransaction 1 True], db_wmu := True\<rparr>"
  let ?s2 = "?s1\<lparr>db_xid := 2, db_txns := [newTransaction 1 True, newTransaction 2 False], db_rmu := 1\<rparr>"
  have "run ([] @ [NewTxn True]) ?s1"
    by (rule run_step [OF run_new]) (simp add: newTransaction_store_def enabled_def newStore_def Let_def)
  from run_step [OF this, of "NewTxn False" ?s2] have r: "run [NewTxn True, NewTxn False] ?s2"
    by (simp add: newTransaction_store_def enabled_def newStore_def Let_def)
  then have "card (writers ?s2) = (if db_wmu ?s2 then 1 else 0)" using store_locks [OF r] by simp
  then show ?thesis using r by auto
qed

lemma commit_needs_no_reader:
  assumes "locks_ok s es" and "exec s a = Some s'" and "h \<in> readers s es"
  shows "db_data s' = db_data s \<and> db_policies s' = db_policies s"
proof (cases a)
  case (Commit j)
  have "db_rmu s \<noteq> 0" using assms(1,3) card_readers_finite by (auto simp: locks_ok_def)
  then show ?thesis using assms(2) Commit commit_flags [of s j s'] by (auto simp: enabled_Some split: if_splits)
next
  case (Abort j)
  then show ?thesis using assms(2) abort_flags [of s j s'] by (simp add: enabled_Some)
next
  case (Write j op p x)
  then show ?thesis using assms(2) with_txn_flags [OF write_flags] by (auto simp: store_write_def)
next
  case (UpsertPolicy j i bs)
  then show ?thesis using assms(2) with_txn_flags [OF policy_flags(1)] by (auto simp: store_upsertPolicy_def)
next
  case (DeletePolicy j i)
  then show ?thesis using assms(2) delete_flags by (auto simp: store_deletePolicy_def)
qed (use assms(2) in \<open>auto simp: newTransaction_store_def enabled_def Let_def split: if_splits\<close>)



lemma open_reader:
  assumes "locks_ok s es" and "h \<in> readers s es"
  shows "h < length (db_txns s)" "\<not> t_write (db_txns s ! h)" "\<not> t_stale (db_txns s ! h)" "h \<notin> set es" "db_rmu s \<noteq> 0"
proof -
  show h: "h < length (db_txns s)" "\<not> t_write (db_txns s ! h)" "h \<notin> set es" using assms(2) by (simp_all add: readers_def)
  show "\<not> t_stale (db_txns s ! h)" using locks_okD(2) [OF assms(1) h(1)] h(3) by blast
  show "db_rmu s \<noteq> 0" using locks_okD(3) [OF assms(1)] assms(2) card_readers_finite by (metis card_eq_0_iff empty_iff)
qed

lemma abort_reader:
  assumes "locks_ok s es" and "h \<in> readers s es"
  obtains s' where "exec s (Abort h) = Some s'" "db_rmu s' = db_rmu s - 1" "db_wmu s' = db_wmu s" "db_data s' = db_data s"
proof -
  note h = open_reader [OF assms]
  have "underlying s h = Inr (db_txns s ! h)" using h by (simp add: underlying_Inr)
  then have "exec s (Abort h) = Some ((mark_stale s h)\<lparr>db_rmu := db_rmu s - 1\<rparr>)"
    using h by (simp add: store_abort_def rmu_runlock_def enabled_def Let_def)
  then show ?thesis using that by simp
qed

lemma abort_writer:
  assumes "locks_ok s es" and "db_wmu s"
  obtains h s' where "h \<in> writers s" "exec s (Abort h) = Some s'" "db_rmu s' = db_rmu s" "\<not> db_wmu s'" "db_data s' = db_data s"
proof -
  obtain h where h: "writers s = {h}" using locks_okD(4) [OF assms] by blast
  then have w: "h < length (db_txns s)" "t_write (db_txns s ! h)" "\<not> t_stale (db_txns s ! h)"
    by (auto simp: writers_def)
  then have "underlying s h = Inr (db_txns s ! h)" by (simp add: underlying_Inr)
  then have "exec s (Abort h) = Some ((mark_stale s h)\<lparr>db_wmu := False\<rparr>)"
    using w assms(2) by (simp add: store_abort_def wmu_unlock_def enabled_def Let_def)
  then show ?thesis using that [of h] h by simp
qed

lemma drain:
  "run tr s \<Longrightarrow> distinct (ends tr) \<Longrightarrow> n = db_rmu s + (if db_wmu s then 1 else 0) \<Longrightarrow>
     \<exists>tr' s'. run (tr @ tr') s' \<and> distinct (ends (tr @ tr')) \<and> \<not> db_wmu s' \<and> db_rmu s' = 0 \<and> db_data s' = db_data s"
proof (induction n arbitrary: tr s)
  case 0
  then show ?case by (intro exI [of _ "[]"] exI [of _ s]) (auto split: if_splits)
next
  case (Suc n)
  have ok: "locks_ok s (ends tr)" using Suc.prems run_locks_ok by blast
  have "\<exists>h s'. exec s (Abort h) = Some s' \<and> h \<notin> set (ends tr) \<and> db_data s' = db_data s \<and>
      n = db_rmu s' + (if db_wmu s' then 1 else 0)"
  proof (cases "readers s (ends tr) = {}")
    case False
    then obtain h where h: "h \<in> readers s (ends tr)" by blast
    obtain s' where s': "exec s (Abort h) = Some s'" "db_rmu s' = db_rmu s - 1" "db_wmu s' = db_wmu s" "db_data s' = db_data s"
      using abort_reader [OF ok h] by blast
    moreover have "db_rmu s \<noteq> 0" "h \<notin> set (ends tr)" using open_reader [OF ok h] by blast+
    ultimately show ?thesis using Suc.prems(3) by (intro exI [of _ h] exI [of _ s']) auto
  next
    case True
    then have "db_rmu s = 0" using locks_okD(3) [OF ok] by simp
    then have w: "db_wmu s" "n = 0" using Suc.prems(3) by (auto split: if_splits)
    obtain h s' where s': "h \<in> writers s" "exec s (Abort h) = Some s'" "db_rmu s' = db_rmu s" "\<not> db_wmu s'" "db_data s' = db_data s"
      using abort_writer [OF ok w(1)] by blast
    moreover have "h \<notin> set (ends tr)" using locks_okD(1) [OF ok, of h] s'(1) by (auto simp: writers_def)
    ultimately show ?thesis using w \<open>db_rmu s = 0\<close> by (intro exI [of _ h] exI [of _ s']) simp
  qed
  then obtain h s' where s': "exec s (Abort h) = Some s'" "h \<notin> set (ends tr)" "db_data s' = db_data s"
    "n = db_rmu s' + (if db_wmu s' then 1 else 0)" by blast
  have "run (tr @ [Abort h]) s'" "distinct (ends (tr @ [Abort h]))"
    using run_step [OF Suc.prems(1) s'(1)] Suc.prems(2) s'(2) by simp_all
  from Suc.IH [OF this s'(4)] show ?case using s'(3) by (metis append_assoc)
qed



fun exec_all :: "store \<Rightarrow> action list \<Rightarrow> store option" where
  "exec_all s [] = Some s"
| "exec_all s (a # as) = (case exec s a of None \<Rightarrow> None | Some s' \<Rightarrow> exec_all s' as)"

text \<open>
  A commit of a read transaction does not make it stale.  Committing it a second time succeeds
  and releases the lock of another reader, and a writer then changes the documents under that
  reader.
\<close>

theorem read_commit_twice:
  "case exec_all newStore [NewTxn False, NewTxn False, Commit 0, Commit 0, NewTxn True, Write 2 AddOp [''a''] JNull] of
     None \<Rightarrow> False
   | Some s \<Rightarrow>
       store_read s 1 [''a''] = Inl (newNotFoundError [''a'']) \<and>
       (case exec s (Commit 2) of None \<Rightarrow> False | Some s' \<Rightarrow> store_read s' 1 [''a''] = Inr JNull)"
  by code_simp

end
