(* ===== verification/Topdown_Collections.thy ===== *)
theory Topdown_Collections
  imports Ast_Object_Ops Ast_Array Go_Strings "HOL-Library.Sublist"
begin

text \<open>
  The built-in functions on sets, arrays and objects (topdown/sets.go, topdown/array.go,
  topdown/aggregates.go, topdown/subset.go, topdown/object.go) with the operand conversions they use
  (topdown/builtins/builtins.go).

  A built-in calls its continuation with a term, leaves the call undefined, or returns an operand
  error.  Sets and objects are given by the slices of their keys, which the tables of \<open>Ast_Set\<close> and
  \<open>Ast_Object\<close> implement; they are visited in the order of \<open>Compare\<close>.
\<close>

section \<open>Results and operands\<close>

datatype builtin_error =
    OperandTypeErr nat val "string list"
  | OperandElementErr nat val val "string list"
  | OperandErr nat string
  | ErrOperand string
  | PlainErr string

datatype builtin_result = Iter val | Undefined | BErr builtin_error | BPanic

definition setOperand :: "val \<Rightarrow> nat \<Rightarrow> builtin_error + val list" where
  "setOperand x pos = (case x of Set s \<Rightarrow> Inr s | _ \<Rightarrow> Inl (OperandTypeErr pos x [''set'']))"

definition arrayOperand :: "val \<Rightarrow> nat \<Rightarrow> builtin_error + val list" where
  "arrayOperand x pos = (case x of Array a \<Rightarrow> Inr a | _ \<Rightarrow> Inl (OperandTypeErr pos x [''array'']))"

definition objectOperand :: "val \<Rightarrow> nat \<Rightarrow> builtin_error + kvs" where
  "objectOperand x pos = (case x of Object kvs \<Rightarrow> Inr kvs | _ \<Rightarrow> Inl (OperandTypeErr pos x [''object'']))"

definition intOperand :: "val \<Rightarrow> nat \<Rightarrow> builtin_error + int" where
  "intOperand x pos =
     (case x of
        Number n \<Rightarrow>
          (case num_int64 n of
             Some i \<Rightarrow> Inr i
           | None \<Rightarrow> Inl (OperandErr pos ''must be integer number but got floating-point number''))
      | _ \<Rightarrow> Inl (OperandTypeErr pos x [''number'']))"

definition with_operand :: "builtin_error + 'a \<Rightarrow> ('a \<Rightarrow> builtin_result) \<Rightarrow> builtin_result" where
  "with_operand r f = (case r of Inl e \<Rightarrow> BErr e | Inr x \<Rightarrow> f x)"

section \<open>Types and comparisons\<close>

definition builtinTypeName :: "val \<Rightarrow> builtin_result" where
  "builtinTypeName a =
     (case a of
        Null \<Rightarrow> Iter (String ''null'')
      | Boolean _ \<Rightarrow> Iter (String ''boolean'')
      | Number _ \<Rightarrow> Iter (String ''number'')
      | String _ \<Rightarrow> Iter (String ''string'')
      | Array _ \<Rightarrow> Iter (String ''array'')
      | Object _ \<Rightarrow> Iter (String ''object'')
      | Set _ \<Rightarrow> Iter (String ''set'')
      | _ \<Rightarrow> BErr (PlainErr ''illegal value''))"

definition builtinIsNumber :: "val \<Rightarrow> builtin_result" where
  "builtinIsNumber a = (case a of Number _ \<Rightarrow> Iter (Boolean True) | _ \<Rightarrow> Iter (Boolean False))"

definition builtinIsString :: "val \<Rightarrow> builtin_result" where
  "builtinIsString a = (case a of String _ \<Rightarrow> Iter (Boolean True) | _ \<Rightarrow> Iter (Boolean False))"

definition builtinIsBoolean :: "val \<Rightarrow> builtin_result" where
  "builtinIsBoolean a = (case a of Boolean _ \<Rightarrow> Iter (Boolean True) | _ \<Rightarrow> Iter (Boolean False))"

definition builtinIsArray :: "val \<Rightarrow> builtin_result" where
  "builtinIsArray a = (case a of Array _ \<Rightarrow> Iter (Boolean True) | _ \<Rightarrow> Iter (Boolean False))"

definition builtinIsSet :: "val \<Rightarrow> builtin_result" where
  "builtinIsSet a = (case a of Set _ \<Rightarrow> Iter (Boolean True) | _ \<Rightarrow> Iter (Boolean False))"

definition builtinIsObject :: "val \<Rightarrow> builtin_result" where
  "builtinIsObject a = (case a of Object _ \<Rightarrow> Iter (Boolean True) | _ \<Rightarrow> Iter (Boolean False))"

definition builtinIsNull :: "val \<Rightarrow> builtin_result" where
  "builtinIsNull a = (case a of Null \<Rightarrow> Iter (Boolean True) | _ \<Rightarrow> Iter (Boolean False))"

definition compareGreaterThan :: "val \<Rightarrow> val \<Rightarrow> bool" where
  "compareGreaterThan a b = (compare a b > 0)"

definition compareGreaterThanEq :: "val \<Rightarrow> val \<Rightarrow> bool" where
  "compareGreaterThanEq a b = (compare a b \<ge> 0)"

definition compareLessThan :: "val \<Rightarrow> val \<Rightarrow> bool" where
  "compareLessThan a b = (compare a b < 0)"

definition compareLessThanEq :: "val \<Rightarrow> val \<Rightarrow> bool" where
  "compareLessThanEq a b = (compare a b \<le> 0)"

definition compareNotEq :: "val \<Rightarrow> val \<Rightarrow> bool" where
  "compareNotEq a b = (compare a b \<noteq> 0)"

definition compareEq :: "val \<Rightarrow> val \<Rightarrow> bool" where
  "compareEq a b = (compare a b = 0)"

definition builtinCompare :: "(val \<Rightarrow> val \<Rightarrow> bool) \<Rightarrow> val \<Rightarrow> val \<Rightarrow> builtin_result" where
  "builtinCompare cmp a b = Iter (Boolean (cmp a b))"

section \<open>Sets\<close>

definition vset_sorted :: "val list \<Rightarrow> val list" where
  "vset_sorted xs = sort_by compare xs"

definition set_put :: "val \<Rightarrow> val list \<Rightarrow> val list" where
  "set_put x xs = (if set_contains xs x then xs else xs @ [x])"

definition vset_diff :: "val list \<Rightarrow> val list \<Rightarrow> val list" where
  "vset_diff s other = fold (\<lambda>x r. if set_contains other x then r else set_put x r) (vset_sorted s) []"

text \<open>The smaller set is visited.\<close>

definition vset_intersect :: "val list \<Rightarrow> val list \<Rightarrow> val list" where
  "vset_intersect s other =
     (let (ss, so) = (if length other < length s then (other, s) else (s, other))
      in fold (\<lambda>x r. if set_contains so x then set_put x r else r) (vset_sorted ss) [])"

definition builtinSetDiff :: "val \<Rightarrow> val \<Rightarrow> builtin_result" where
  "builtinSetDiff a b =
     with_operand (setOperand a 1) (\<lambda>s1.
     with_operand (setOperand b 2) (\<lambda>s2.
     Iter (Set (vset_diff s1 s2))))"

fun intersection_loop :: "val list \<Rightarrow> val list option \<Rightarrow> builtin_error + val list option" where
  "intersection_loop [] result = Inr result"
| "intersection_loop (x # xs) result =
     (case setOperand x 1 of
        Inl e \<Rightarrow> Inl e
      | Inr n \<Rightarrow>
          intersection_loop xs (case result of None \<Rightarrow> Some n | Some r \<Rightarrow> Some (vset_intersect r n)))"

definition builtinSetIntersection :: "val \<Rightarrow> builtin_result" where
  "builtinSetIntersection a =
     with_operand (setOperand a 1) (\<lambda>inputSet.
       if length inputSet = 0 then Iter (Set [])
       else with_operand (intersection_loop (vset_sorted inputSet) None) (\<lambda>result.
              case result of None \<Rightarrow> BPanic | Some r \<Rightarrow> Iter (Set r)))"

fun setUnion_loop :: "val list \<Rightarrow> val list \<Rightarrow> builtin_error + val list" where
  "setUnion_loop [] result = Inr result"
| "setUnion_loop (x # xs) result =
     (case setOperand x 1 of
        Inl e \<Rightarrow> Inl e
      | Inr item \<Rightarrow> setUnion_loop xs (fold set_put (vset_sorted item) result))"

definition builtinSetUnion :: "val \<Rightarrow> builtin_result" where
  "builtinSetUnion a =
     with_operand (setOperand a 1) (\<lambda>inputSet.
     with_operand (setUnion_loop (vset_sorted inputSet) []) (\<lambda>result. Iter (Set result)))"

section \<open>Arrays\<close>

definition builtinArrayConcat :: "val \<Rightarrow> val \<Rightarrow> builtin_result" where
  "builtinArrayConcat a b =
     with_operand (arrayOperand a 1) (\<lambda>arrA.
     with_operand (arrayOperand b 2) (\<lambda>arrB. Iter (Array (arrA @ arrB))))"

definition clamp_stop :: "int \<Rightarrow> int \<Rightarrow> int" where
  "clamp_stop stopIndex len = (if stopIndex < 0 then 0 else if stopIndex > len then len else stopIndex)"

definition clamp_start :: "int \<Rightarrow> int \<Rightarrow> int" where
  "clamp_start startIndex stopIndex =
     (if startIndex < 0 then 0 else if startIndex > stopIndex then stopIndex else startIndex)"

definition builtinArraySlice :: "val \<Rightarrow> val \<Rightarrow> val \<Rightarrow> builtin_result" where
  "builtinArraySlice a b c =
     with_operand (arrayOperand a 1) (\<lambda>arr.
     with_operand (intOperand b 2) (\<lambda>startIndex.
     with_operand (intOperand c 3) (\<lambda>stopIndex.
       let stop = clamp_stop stopIndex (int (length arr));
           start = clamp_start startIndex stop
       in case slice_of arr start stop of
            None \<Rightarrow> BPanic
          | Some xs \<Rightarrow> Iter (Array xs))))"

text \<open>The loop fills the reversed slice by index.\<close>

definition builtinArrayReverse :: "val \<Rightarrow> builtin_result" where
  "builtinArrayReverse a =
     with_operand (arrayOperand a 1) (\<lambda>arr.
       Iter (Array (map (\<lambda>index. arr ! (length arr - index - 1)) [0..<length arr])))"

section \<open>Aggregates\<close>

definition builtinCount :: "val \<Rightarrow> builtin_result" where
  "builtinCount a =
     (case a of
        Array xs \<Rightarrow> Iter (Number (intNumber (int (length xs))))
      | Object kvs \<Rightarrow> Iter (Number (intNumber (int (length kvs))))
      | Set xs \<Rightarrow> Iter (Number (intNumber (int (length xs))))
      | String s \<Rightarrow> Iter (Number (intNumber (int (length (runes s)))))
      | _ \<Rightarrow> BErr (OperandTypeErr 1 a [''array'', ''object'', ''set'', ''string'']))"

definition max_step :: "val \<Rightarrow> val \<Rightarrow> val" where
  "max_step x m = (if compare m x \<le> 0 then x else m)"

definition builtinMax :: "val \<Rightarrow> builtin_result" where
  "builtinMax a =
     (case a of
        Array xs \<Rightarrow> if length xs = 0 then Undefined else Iter (fold max_step xs Null)
      | Set xs \<Rightarrow> if length xs = 0 then Undefined else Iter (fold max_step (vset_sorted xs) Null)
      | _ \<Rightarrow> BErr (OperandTypeErr 1 a [''set'', ''array'']))"

definition min_step :: "val \<Rightarrow> val \<Rightarrow> val" where
  "min_step x m = (if compare m x \<ge> 0 then x else m)"

text \<open>On a set the loop starts from null and takes null to mean that no element has been seen.\<close>

definition min_set_step :: "val \<Rightarrow> val \<Rightarrow> val" where
  "min_set_step x m = (if compare m Null = 0 then x else if compare m x \<ge> 0 then x else m)"

definition builtinMin :: "val \<Rightarrow> builtin_result" where
  "builtinMin a =
     (case a of
        Array xs \<Rightarrow> (case xs of [] \<Rightarrow> Undefined | x # _ \<Rightarrow> Iter (fold min_step xs x))
      | Set xs \<Rightarrow> if length xs = 0 then Undefined else Iter (fold min_set_step (vset_sorted xs) Null)
      | _ \<Rightarrow> BErr (OperandTypeErr 1 a [''set'', ''array'']))"

definition builtinSort :: "val \<Rightarrow> builtin_result" where
  "builtinSort a =
     (case a of
        Array xs \<Rightarrow> Iter (Array (sort_by compare xs))
      | Set xs \<Rightarrow> Iter (Array (vset_sorted xs))
      | _ \<Rightarrow> BErr (OperandTypeErr 1 a [''set'', ''array'']))"

definition builtinAll :: "val \<Rightarrow> builtin_result" where
  "builtinAll a =
     (case a of
        Set xs \<Rightarrow> Iter (Boolean (list_all (\<lambda>t. term_equal (Boolean True) t) (vset_sorted xs)))
      | Array xs \<Rightarrow> Iter (Boolean (list_all (\<lambda>t. term_equal (Boolean True) t) xs))
      | _ \<Rightarrow> BErr (OperandTypeErr 1 a [''array'', ''set'']))"

definition builtinAny :: "val \<Rightarrow> builtin_result" where
  "builtinAny a =
     (case a of
        Set xs \<Rightarrow> Iter (Boolean (length xs > 0 \<and> set_contains xs (Boolean True)))
      | Array xs \<Rightarrow> Iter (Boolean (list_ex (\<lambda>t. term_equal (Boolean True) t) xs))
      | _ \<Rightarrow> BErr (OperandTypeErr 1 a [''array'', ''set'']))"

definition builtinMember :: "val \<Rightarrow> val \<Rightarrow> builtin_result" where
  "builtinMember containee coll =
     (case coll of
        Set xs \<Rightarrow> Iter (Boolean (set_contains xs containee))
      | Array xs \<Rightarrow> Iter (Boolean (list_ex (\<lambda>v. compare v containee = 0) xs))
      | Object kvs \<Rightarrow> Iter (Boolean (list_ex (\<lambda>(_, v). compare v containee = 0) (object_sorted kvs)))
      | _ \<Rightarrow> Iter (Boolean False))"

text \<open>Arrays and objects have a \<open>Get\<close> method for terms; a set has none.\<close>

definition builtinMemberWithKey :: "val \<Rightarrow> val \<Rightarrow> val \<Rightarrow> builtin_result" where
  "builtinMemberWithKey key v coll =
     (case coll of
        Array xs \<Rightarrow> Iter (Boolean (case array_get xs key of None \<Rightarrow> False | Some act \<Rightarrow> compare act v = 0))
      | Object kvs \<Rightarrow> Iter (Boolean (case object_get kvs key of None \<Rightarrow> False | Some act \<Rightarrow> compare act v = 0))
      | _ \<Rightarrow> Iter (Boolean False))"

section \<open>Subsets\<close>

definition bothObjects :: "val \<Rightarrow> val \<Rightarrow> (kvs \<times> kvs) option" where
  "bothObjects t1 t2 = (case (t1, t2) of (Object a, Object b) \<Rightarrow> Some (a, b) | _ \<Rightarrow> None)"

definition bothSets :: "val \<Rightarrow> val \<Rightarrow> (val list \<times> val list) option" where
  "bothSets t1 t2 = (case (t1, t2) of (Set a, Set b) \<Rightarrow> Some (a, b) | _ \<Rightarrow> None)"

definition bothArrays :: "val \<Rightarrow> val \<Rightarrow> (val list \<times> val list) option" where
  "bothArrays t1 t2 = (case (t1, t2) of (Array a, Array b) \<Rightarrow> Some (a, b) | _ \<Rightarrow> None)"

definition arraySet :: "val \<Rightarrow> val \<Rightarrow> (val list \<times> val list) option" where
  "arraySet t1 t2 = (case (t1, t2) of (Array a, Set b) \<Rightarrow> Some (a, b) | _ \<Rightarrow> None)"

definition setSubset :: "val list \<Rightarrow> val list \<Rightarrow> bool" where
  "setSubset super sub = list_all (\<lambda>t. set_contains super t) (vset_sorted sub)"

text \<open>
  The loop of \<open>arraySubset\<close> with its two cursors, whose sum never passes the length of the array: the
  code tests for equality.
\<close>

function array_scan :: "val list \<Rightarrow> val list \<Rightarrow> nat \<Rightarrow> nat \<Rightarrow> bool" where
  "array_scan super sub superCursor subCursor =
     (if subCursor = length sub then True
      else if superCursor + subCursor \<ge> length super then False
      else if compare (super ! (superCursor + subCursor)) (sub ! subCursor) = 0
      then array_scan super sub superCursor (Suc subCursor)
      else array_scan super sub (Suc superCursor) 0)"
  by pat_completeness auto

termination
  by (relation "(\<lambda>(super, sub, superCursor, subCursor). length super - superCursor) <*mlex*>
      (\<lambda>(super, sub, superCursor, subCursor). length super - (superCursor + subCursor)) <*mlex*> {}")
    (auto simp: mlex_iff wf_mlex)

declare array_scan.simps [simp del]

definition arraySubset :: "val list \<Rightarrow> val list \<Rightarrow> bool" where
  "arraySubset super sub =
     (if length sub > length super then False
      else if compare (Array sub) (Array super) = 0 then True
      else array_scan super sub 0 0)"

text \<open>The count of unmatched elements; \<open>Until\<close> returns whether the loop was stopped.\<close>

fun arraySet_loop :: "val list \<Rightarrow> val list \<Rightarrow> int \<Rightarrow> bool" where
  "arraySet_loop sub [] unmatched = False"
| "arraySet_loop sub (t # ts) unmatched =
     (let u = (if set_contains sub t then unmatched - 1 else unmatched)
      in if u = 0 then True else arraySet_loop sub ts u)"

definition arraySetSubset :: "val list \<Rightarrow> val list \<Rightarrow> bool" where
  "arraySetSubset super sub = arraySet_loop sub super (int (length sub))"

function objectSubset :: "kvs \<Rightarrow> kvs \<Rightarrow> bool" where
  "objectSubset super sub =
     list_all (\<lambda>(key, subTerm).
       case object_get super key of
         None \<Rightarrow> False
       | Some superTerm \<Rightarrow>
           term_equal subTerm superTerm \<or>
           (case subTerm of
              Object subObj \<Rightarrow> (case superTerm of Object superObj \<Rightarrow> objectSubset superObj subObj | _ \<Rightarrow> False)
            | Set subSet \<Rightarrow> (case superTerm of Set superSet \<Rightarrow> setSubset superSet subSet | _ \<Rightarrow> False)
            | Array subArray \<Rightarrow> (case superTerm of Array superArray \<Rightarrow> arraySubset superArray subArray | _ \<Rightarrow> False)
            | _ \<Rightarrow> False)) (object_sorted sub)"
  by pat_completeness auto

termination
  by (relation "measure (\<lambda>(super, sub). size (Object sub))") (auto dest: size_pair_le)

declare objectSubset.simps [simp del]

definition builtinObjectSubset :: "val \<Rightarrow> val \<Rightarrow> builtin_result" where
  "builtinObjectSubset superTerm subTerm =
     (case bothObjects superTerm subTerm of
        Some (a, b) \<Rightarrow> Iter (Boolean (objectSubset a b))
      | None \<Rightarrow>
     (case bothSets superTerm subTerm of
        Some (a, b) \<Rightarrow> Iter (Boolean (setSubset a b))
      | None \<Rightarrow>
     (case bothArrays superTerm subTerm of
        Some (a, b) \<Rightarrow> Iter (Boolean (arraySubset a b))
      | None \<Rightarrow>
     (case arraySet superTerm subTerm of
        Some (a, b) \<Rightarrow> Iter (Boolean (arraySetSubset a b))
      | None \<Rightarrow> BErr (ErrOperand ''both arguments object.subset must be of the same type or array and set'')))))"

section \<open>Objects\<close>

definition getObjectKeysParam :: "val \<Rightarrow> builtin_error + val list" where
  "getObjectKeysParam arrayOrSet =
     (case arrayOrSet of
        Array xs \<Rightarrow> Inr (fold set_put xs [])
      | Set xs \<Rightarrow> Inr (fold set_put (vset_sorted xs) [])
      | Object kvs \<Rightarrow> Inr (fold set_put (map fst (object_sorted kvs)) [])
      | _ \<Rightarrow> Inl (OperandTypeErr 2 arrayOrSet [''object'', ''set'', ''array'']))"

definition builtinObjectRemove :: "val \<Rightarrow> val \<Rightarrow> builtin_result" where
  "builtinObjectRemove a b =
     with_operand (objectOperand a 1) (\<lambda>obj.
     with_operand (getObjectKeysParam b) (\<lambda>keysToRemove.
       Iter (Object (fold (\<lambda>(k, v) r. if \<not> set_contains keysToRemove k then object_put k v r else r)
         (object_sorted obj) []))))"

text \<open>\<open>ref.ArrayPath\<close>: the elements of the array are the operands of the reference.\<close>

definition builtinObjectGet :: "val \<Rightarrow> val \<Rightarrow> val \<Rightarrow> builtin_result" where
  "builtinObjectGet a b c =
     with_operand (objectOperand a 1) (\<lambda>obj.
       case b of
         Array path \<Rightarrow>
           if length path = 0 then Iter a
           else (case find (Object obj) path of None \<Rightarrow> Iter c | Some v \<Rightarrow> Iter v)
       | _ \<Rightarrow> (case object_get obj b of Some ret \<Rightarrow> Iter ret | None \<Rightarrow> Iter c))"

definition builtinObjectKeys :: "val \<Rightarrow> builtin_result" where
  "builtinObjectKeys a =
     with_operand (objectOperand a 1) (\<lambda>obj. Iter (Set (fold set_put (map fst (object_sorted obj)) [])))"

function mergeWithOverwrite :: "kvs \<Rightarrow> kvs \<Rightarrow> kvs" where
  "mergeWithOverwrite objA objB =
     (case object_mergeWith (\<lambda>v1 v2.
        case v1 of
          Object originalValueObj \<Rightarrow>
            (case v2 of
               Object updateValueObj \<Rightarrow> Some (Object (mergeWithOverwrite originalValueObj updateValueObj))
             | _ \<Rightarrow> Some v2)
        | _ \<Rightarrow> Some v2) objA objB of None \<Rightarrow> [] | Some r \<Rightarrow> r)"
  by pat_completeness auto

termination
  by (relation "measure (\<lambda>(a, b). size (Object a))") (auto dest: size_pair_le)

declare mergeWithOverwrite.simps [simp del]

definition builtinObjectUnion :: "val \<Rightarrow> val \<Rightarrow> builtin_result" where
  "builtinObjectUnion a b =
     with_operand (objectOperand a 1) (\<lambda>objA.
     with_operand (objectOperand b 2) (\<lambda>objB. Iter (Object (mergeWithOverwrite objA objB))))"

section \<open>Sets of values\<close>

text \<open>The order of values is that of their canonical trees.\<close>

lemma compare_le: "compare a b \<le> 0 \<longleftrightarrow> canon a \<le> canon b" "0 \<le> compare a b \<longleftrightarrow> canon b \<le> canon a"
  by (auto simp: compare_canon cmpi_def)

lemma compare_Null: "canon Null \<le> canon x"
proof -
  have "compare Null x \<le> 0"
  proof (cases "sortOrder x = 0")
    case True
    then have "x = Null" by (cases x) simp_all
    then show ?thesis by (simp add: compare_le)
  next
    case False
    then have "root_order (canon Null) < root_order (canon x)" by (simp only: root_order_canon sortOrder.simps)
    then have "otcmp (canon Null) (canon x) = -1" by (rule otcmp_root)
    then show ?thesis using compare_diff [of Null x] False by simp
  qed
  then show ?thesis by (simp add: compare_le)
qed

definition vkeys :: "val list \<Rightarrow> bool" where
  "vkeys xs \<longleftrightarrow> list_all hashable xs \<and> distinct (map canon xs)"

lemma set_contains_canon:
  assumes "vkeys xs" and "hashable x"
  shows "set_contains xs x \<longleftrightarrow> canon x \<in> canon ` set xs"
  using assms by (induction xs) (auto simp: vkeys_def set_contains_def set_get_def hashable_key_equal)

text \<open>The slices of keys implement the contract of sets, without a bound on the size.\<close>

interpretation vs: set_contract "[]" "\<lambda>x s. Some (set_put x s)" "\<lambda>x s. Some (set_contains s x)" id vkeys hashable canon cap
  for cap
  by unfold_locales (auto simp: set_contains_canon set_put_def, auto simp: vkeys_def list_all_iff set_put_def)

lemma vset_sorted_keys: "vkeys xs \<Longrightarrow> vkeys (vset_sorted xs)"
  by (auto simp: vset_sorted_def vkeys_def list_all_iff distinct_map dest: mset_eq_imp_distinct_iff [OF mset_sort_by, THEN iffD2])

lemma set_vset_sorted [simp]: "set (vset_sorted xs) = set xs" "length (vset_sorted xs) = length xs"
  by (simp_all add: vset_sorted_def)

lemma set_put_all:
  assumes "vkeys r" and "list_all hashable xs"
  shows "vkeys (fold set_put xs r) \<and> canon ` set (fold set_put xs r) = canon ` set r \<union> canon ` set xs"
  using vs.add_all [OF assms(1), of xs "length r + length xs"] assms(2)
  by (simp add: foldM_total vs.sabs_def list_all_iff)

lemma keep_all:
  assumes "vkeys s" and "vkeys t"
  shows "vkeys (fold (\<lambda>x r. if set_contains t x = want then set_put x r else r) (vset_sorted s) []) \<and>
    canon ` set (fold (\<lambda>x r. if set_contains t x = want then set_put x r else r) (vset_sorted s) []) =
      (if want then canon ` set s \<inter> canon ` set t else canon ` set s - canon ` set t)"
proof -
  let ?f = "\<lambda>x r. if set_contains t x = want then set_put x r else r"
  have "\<exists>r. foldM (\<lambda>x r. Some (?f x r)) (id (vset_sorted s)) [] = Some r \<and> vkeys r \<and>
      vs.sabs r = (if want then vs.sabs (vset_sorted s) \<inter> vs.sabs t else vs.sabs (vset_sorted s) - vs.sabs t)"
    by (rule vs.keep_members [OF vset_sorted_keys [OF assms(1)] assms(2), where cap = "Suc (length s + length t)"]) auto
  then show ?thesis unfolding foldM_total by (simp add: vs.sabs_def)
qed

lemma vset_diff_canon:
  assumes "vkeys s" and "vkeys t"
  shows "vkeys (vset_diff s t) \<and> canon ` set (vset_diff s t) = canon ` set s - canon ` set t"
proof -
  have "vset_diff s t = fold (\<lambda>x r. if set_contains t x = False then set_put x r else r) (vset_sorted s) []"
    unfolding vset_diff_def by (intro fold_cong) auto
  then show ?thesis using keep_all [OF assms, of False] by simp
qed

lemma vset_intersect_canon:
  assumes "vkeys s" and "vkeys t"
  shows "vkeys (vset_intersect s t) \<and> canon ` set (vset_intersect s t) = canon ` set s \<inter> canon ` set t"
proof (cases "length t < length s")
  case True
  then show ?thesis using keep_all [OF assms(2,1), of True] by (simp add: vset_intersect_def Int_commute)
next
  case False
  then show ?thesis using keep_all [OF assms, of True] by (simp add: vset_intersect_def)
qed

section \<open>What the built-ins on sets compute\<close>

definition is_set :: "val \<Rightarrow> bool" where
  "is_set x = (case x of Set _ \<Rightarrow> True | _ \<Rightarrow> False)"

text \<open>The elements of a set value up to \<open>Compare\<close>, and the set values whose keys are distinct.\<close>

definition velems :: "val \<Rightarrow> ctree set" where
  "velems x = (case x of Set xs \<Rightarrow> canon ` set xs | _ \<Rightarrow> {})"

definition vset_ok :: "val \<Rightarrow> bool" where
  "vset_ok x = (case x of Set xs \<Rightarrow> vkeys xs | _ \<Rightarrow> False)"

lemma vset_okD: "vset_ok x \<Longrightarrow> \<exists>xs. x = Set xs \<and> vkeys xs \<and> velems x = canon ` set xs"
  by (cases x) (auto simp: vset_ok_def velems_def)

lemma setOperand_simps [simp]:
  "setOperand (Set xs) i = Inr xs"
  "\<not> is_set x \<Longrightarrow> setOperand x i = Inl (OperandTypeErr i x [''set''])"
  by (auto simp: setOperand_def is_set_def split: val.splits)

lemma setUnion_loop_elems:
  assumes "vkeys r" and "list_all vset_ok xs"
  shows "\<exists>s. setUnion_loop xs r = Inr s \<and> vkeys s \<and> canon ` set s = canon ` set r \<union> (\<Union>x \<in> set xs. velems x)"
  using assms
proof (induction xs arbitrary: r)
  case (Cons x xs)
  have "vset_ok x" using Cons.prems(2) by simp
  then obtain ys where ys: "x = Set ys" "vkeys ys" "velems x = canon ` set ys" using vset_okD by blast
  have "list_all hashable (vset_sorted ys)" using ys(2) by (simp add: vkeys_def list_all_iff)
  note put = set_put_all [OF Cons.prems(1) this]
  obtain s where "setUnion_loop xs (fold set_put (vset_sorted ys) r) = Inr s" "vkeys s"
      "canon ` set s = canon ` set (fold set_put (vset_sorted ys) r) \<union> (\<Union>x \<in> set xs. velems x)"
    using Cons.IH [OF put [THEN conjunct1]] Cons.prems(2) by auto
  then show ?case using put ys by auto
qed simp

lemma intersection_loop_elems:
  assumes "vkeys r" and "list_all vset_ok xs"
  shows "\<exists>s. intersection_loop xs (Some r) = Inr (Some s) \<and> vkeys s \<and>
    canon ` set s = canon ` set r \<inter> (\<Inter>x \<in> set xs. velems x)"
  using assms
proof (induction xs arbitrary: r)
  case (Cons x xs)
  have "vset_ok x" using Cons.prems(2) by simp
  then obtain ys where ys: "x = Set ys" "vkeys ys" "velems x = canon ` set ys" using vset_okD by blast
  note both = vset_intersect_canon [OF Cons.prems(1) ys(2)]
  obtain s where "intersection_loop xs (Some (vset_intersect r ys)) = Inr (Some s)" "vkeys s"
      "canon ` set s = canon ` set (vset_intersect r ys) \<inter> (\<Inter>x \<in> set xs. velems x)"
    using Cons.IH [OF both [THEN conjunct1]] Cons.prems(2) by auto
  then show ?case using both ys by auto
qed simp

text \<open>The loops stop at the first element that is no set.\<close>

lemma setUnion_loop_error:
  "list_ex (\<lambda>x. \<not> is_set x) xs \<Longrightarrow>
     setUnion_loop xs r = Inl (OperandTypeErr 1 (hd (filter (\<lambda>x. \<not> is_set x) xs)) [''set''])"
  by (induction xs arbitrary: r) (auto simp: is_set_def split: val.splits)

lemma intersection_loop_error:
  "list_ex (\<lambda>x. \<not> is_set x) xs \<Longrightarrow>
     intersection_loop xs r = Inl (OperandTypeErr 1 (hd (filter (\<lambda>x. \<not> is_set x) xs)) [''set''])"
  by (induction xs arbitrary: r) (auto simp: is_set_def split: val.splits)

lemma hd_filter_sorted:
  assumes "list_ex P xs"
  shows "hd (filter P (vset_sorted xs)) \<in> set xs \<and> P (hd (filter P (vset_sorted xs))) \<and>
    (\<forall>y \<in> set xs. P y \<longrightarrow> compare (hd (filter P (vset_sorted xs))) y \<le> 0)"
proof -
  have "filter P (vset_sorted xs) \<noteq> []" using assms by (auto simp: filter_empty_conv list_ex_iff)
  then obtain y ys where f: "filter P (vset_sorted xs) = y # ys" by (cases "filter P (vset_sorted xs)") auto
  have set: "set (y # ys) = {z \<in> set xs. P z}" unfolding f [symmetric] by simp
  have "sorted (map canon (vset_sorted xs))" by (simp add: vset_sorted_def sort_by_compare)
  then have "sorted (map canon (y # ys))" unfolding f [symmetric] by (rule sorted_filter)
  then have "\<forall>z \<in> set (y # ys). compare y z \<le> 0" by (auto simp: compare_le)
  then show ?thesis using set f by auto
qed

text \<open>
  C32.  The built-ins on sets return the difference of two sets, and the union and the intersection of a set
  of sets, up to \<open>Compare\<close>; the intersection of no sets is the empty set.
\<close>

theorem set_builtins_algebra:
  assumes "vset_ok a" and "vset_ok b" and "list_all vset_ok xs"
  shows "(\<exists>r. builtinSetDiff a b = Iter r \<and> vset_ok r \<and> velems r = velems a - velems b) \<and>
    (\<exists>r. builtinSetUnion (Set xs) = Iter r \<and> vset_ok r \<and> velems r = (\<Union>x \<in> set xs. velems x)) \<and>
    (\<exists>r. builtinSetIntersection (Set xs) = Iter r \<and> vset_ok r \<and>
       velems r = (if xs = [] then {} else \<Inter>x \<in> set xs. velems x))"
proof (intro conjI)
  obtain s t where st: "a = Set s" "vkeys s" "b = Set t" "vkeys t"
    using vset_okD [OF assms(1)] vset_okD [OF assms(2)] by auto
  have "builtinSetDiff a b = Iter (Set (vset_diff s t))" by (simp add: builtinSetDiff_def with_operand_def st)
  then show "\<exists>r. builtinSetDiff a b = Iter r \<and> vset_ok r \<and> velems r = velems a - velems b"
    using vset_diff_canon [OF st(2,4)] by (simp add: st vset_ok_def velems_def)
next
  have ok: "list_all vset_ok (vset_sorted xs)" using assms(3) by (simp add: list_all_iff)
  obtain s where "setUnion_loop (vset_sorted xs) [] = Inr s" "vkeys s" "canon ` set s = (\<Union>x \<in> set xs. velems x)"
    using setUnion_loop_elems [OF vs.inv_emp ok] by auto
  then show "\<exists>r. builtinSetUnion (Set xs) = Iter r \<and> vset_ok r \<and> velems r = (\<Union>x \<in> set xs. velems x)"
    by (simp add: builtinSetUnion_def with_operand_def vset_ok_def velems_def)
  show "\<exists>r. builtinSetIntersection (Set xs) = Iter r \<and> vset_ok r \<and>
      velems r = (if xs = [] then {} else \<Inter>x \<in> set xs. velems x)"
  proof (cases "vset_sorted xs")
    case Nil
    then have "xs = []" using set_vset_sorted(2) [of xs] by simp
    then show ?thesis using vs.inv_emp by (simp add: builtinSetIntersection_def with_operand_def vset_ok_def velems_def)
  next
    case (Cons y ys)
    then have ne: "xs \<noteq> []" by (auto simp: vset_sorted_def)
    have y: "vset_ok y" "list_all vset_ok ys" using ok Cons by simp_all
    obtain r where r: "y = Set r" "vkeys r" "velems y = canon ` set r" using vset_okD [OF y(1)] by blast
    obtain s where s: "intersection_loop ys (Some r) = Inr (Some s)" "vkeys s"
        "canon ` set s = canon ` set r \<inter> (\<Inter>x \<in> set ys. velems x)"
      using intersection_loop_elems [OF r(2) y(2)] by blast
    have "set xs = insert y (set ys)" using set_vset_sorted(1) [of xs] Cons by simp
    then have "canon ` set s = (\<Inter>x \<in> set xs. velems x)" using s(3) r(3) by simp
    then show ?thesis using Cons r(1) s(1,2) ne
      by (simp add: builtinSetIntersection_def with_operand_def vset_ok_def velems_def)
  qed
qed

theorem set_builtins_algebra_witness:
  "\<exists>r. builtinSetUnion (Set [Set [String ''a''], Set [String ''b'']]) = Iter r \<and>
     velems r = {canon (String ''a''), canon (String ''b'')}"
proof -
  let ?a = "Set [String ''a'']" and ?b = "Set [String ''b'']"
  have "vset_ok ?a" "vset_ok ?b" by (simp_all add: vset_ok_def vkeys_def hashable_String)
  then have "\<exists>r. builtinSetUnion (Set [?a, ?b]) = Iter r \<and> vset_ok r \<and> velems r = (\<Union>x \<in> set [?a, ?b]. velems x)"
    by (intro set_builtins_algebra [of ?a ?b "[?a, ?b]", THEN conjunct2, THEN conjunct1]) simp_all
  then show ?thesis by (auto simp: velems_def)
qed

text \<open>
  C31.  The union and the intersection of a set fail exactly when an element is no set; the error reports the
  least such element.
\<close>

theorem set_builtins_error:
  "(\<exists>e. builtinSetUnion (Set xs) = BErr e) = list_ex (\<lambda>x. \<not> is_set x) xs \<and>
   (\<exists>e. builtinSetIntersection (Set xs) = BErr e) = list_ex (\<lambda>x. \<not> is_set x) xs \<and>
   builtinSetIntersection (Set xs) \<noteq> BPanic \<and>
   (builtinSetUnion (Set xs) = BErr e \<or> builtinSetIntersection (Set xs) = BErr e \<longrightarrow>
     (\<exists>x \<in> set xs. e = OperandTypeErr 1 x [''set''] \<and> \<not> is_set x \<and>
       (\<forall>y \<in> set xs. is_set y \<or> compare x y \<le> 0)))"
proof (cases "list_ex (\<lambda>x. \<not> is_set x) xs")
  case True
  let ?x = "hd (filter (\<lambda>x. \<not> is_set x) (vset_sorted xs))"
  have sorted: "list_ex (\<lambda>x. \<not> is_set x) (vset_sorted xs)" using True by (simp add: list_ex_iff)
  have "builtinSetUnion (Set xs) = BErr (OperandTypeErr 1 ?x [''set''])"
    using setUnion_loop_error [OF sorted] by (simp add: builtinSetUnion_def with_operand_def)
  moreover have "builtinSetIntersection (Set xs) = BErr (OperandTypeErr 1 ?x [''set''])"
    using intersection_loop_error [OF sorted] True by (auto simp: builtinSetIntersection_def with_operand_def)
  ultimately show ?thesis using hd_filter_sorted [OF True] True by auto
next
  case False
  have union: "list_all is_set ys \<Longrightarrow> \<exists>s. setUnion_loop ys r = Inr s" for ys r
    by (induction ys arbitrary: r) (auto simp: is_set_def split: val.splits)
  have inter: "list_all is_set ys \<Longrightarrow> \<exists>s. intersection_loop ys (Some r) = Inr (Some s)" for ys r
    by (induction ys arbitrary: r) (auto simp: is_set_def split: val.splits)
  have all: "list_all is_set (vset_sorted xs)" using False by (simp add: list_all_iff list_ex_iff)
  have "\<exists>s. intersection_loop (vset_sorted xs) None = Inr (Some s)" if "length (vset_sorted xs) \<noteq> 0"
    using all inter that by (cases "vset_sorted xs") (auto simp: is_set_def split: val.splits)
  then show ?thesis using union [OF all, of "[]"] False
    by (auto simp: builtinSetUnion_def builtinSetIntersection_def with_operand_def)
qed

theorem set_builtins_error_witness:
  "builtinSetUnion (Set [Set [], Null]) = BErr (OperandTypeErr 1 Null [''set''])"
proof -
  have ex: "\<exists>e. builtinSetUnion (Set [Set [], Null]) = BErr e"
    using set_builtins_error [of "[Set [], Null]"] by (simp add: is_set_def)
  then obtain e where e: "builtinSetUnion (Set [Set [], Null]) = BErr e" ..
  then have "e = OperandTypeErr 1 Null [''set'']"
    using set_builtins_error [of "[Set [], Null]" e] by (auto simp: is_set_def)
  then show ?thesis using e by simp
qed

section \<open>What the built-ins on arrays compute\<close>

text \<open>
  C30.  The clamps of \<open>array.slice\<close> keep the bounds inside the array whatever the indices are, so that the
  slice expression never panics; the result is the part of the array from the start index to before
  the stop index.
\<close>

theorem array_slice_bounds:
  "builtinArraySlice a b c \<noteq> BPanic \<and>
   (num_int64 m = Some i \<longrightarrow> num_int64 n = Some j \<longrightarrow>
     builtinArraySlice (Array xs) (Number m) (Number n) = Iter (Array (drop (nat i) (take (nat j) xs))))"
proof
  have clamp: "0 \<le> clamp_start p (clamp_stop q (int l)) \<and> clamp_start p (clamp_stop q (int l)) \<le> clamp_stop q (int l) \<and>
      clamp_stop q (int l) \<le> int l" for p q l
    by (auto simp: clamp_start_def clamp_stop_def)
  then show "builtinArraySlice a b c \<noteq> BPanic"
    by (auto simp: builtinArraySlice_def with_operand_def slice_of_def Let_def split: sum.splits)
  let ?stop = "clamp_stop j (int (length xs))" and ?start = "clamp_start i (clamp_stop j (int (length xs)))"
  have "take (nat ?stop - nat ?start) (drop (nat ?start) xs) = drop (nat i) (take (nat j) xs)"
    by (auto simp: clamp_start_def clamp_stop_def drop_take nat_le_iff)
  then show "num_int64 m = Some i \<longrightarrow> num_int64 n = Some j \<longrightarrow>
      builtinArraySlice (Array xs) (Number m) (Number n) = Iter (Array (drop (nat i) (take (nat j) xs)))"
    using clamp [of i j "length xs"]
    by (simp add: builtinArraySlice_def with_operand_def arrayOperand_def intOperand_def slice_of_def Let_def)
qed

theorem array_slice_bounds_witness:
  "builtinArraySlice (Array [Null, Boolean True, Boolean False]) (Number (intNumber 1)) (Number (intNumber 7)) =
     Iter (Array [Boolean True, Boolean False])"
proof -
  have "num_int64 (intNumber 1) = Some 1" "num_int64 (intNumber 7) = Some 7"
    by (simp_all add: num_int64_intNumber int64_min_def int64_max_def)
  then have "builtinArraySlice (Array [Null, Boolean True, Boolean False]) (Number (intNumber 1)) (Number (intNumber 7)) =
      Iter (Array (drop (nat 1) (take (nat 7) [Null, Boolean True, Boolean False])))"
    using array_slice_bounds by blast
  then show ?thesis by simp
qed

lemma array_reverse: "builtinArrayReverse (Array xs) = Iter (Array (rev xs))"
  by (auto simp: builtinArrayReverse_def with_operand_def arrayOperand_def rev_nth intro!: nth_equalityI)

section \<open>Extremes and sorting\<close>

lemma fold_max:
  "canon (fold max_step xs m) = fold max (map canon xs) (canon m) \<and> fold max_step xs m \<in> insert m (set xs)"
  by (induction xs arbitrary: m) (auto simp: max_step_def compare_le max_def)

definition greatest_of :: "val \<Rightarrow> val list \<Rightarrow> bool" where
  "greatest_of m xs \<longleftrightarrow> m \<in> set xs \<and> (\<forall>x \<in> set xs. compare x m \<le> 0)"

definition least_of :: "val \<Rightarrow> val list \<Rightarrow> bool" where
  "least_of m xs \<longleftrightarrow> m \<in> set xs \<and> (\<forall>x \<in> set xs. compare m x \<le> 0)"

lemma fold_min:
  "canon (fold min_step xs m) = fold min (map canon xs) (canon m) \<and> fold min_step xs m \<in> insert m (set xs)"
  by (induction xs arbitrary: m) (auto simp: min_step_def compare_le min_def)

lemma fold_max_greatest:
  assumes "xs \<noteq> []"
  shows "greatest_of (fold max_step xs Null) xs"
proof -
  obtain y ys where xs: "xs = y # ys" using assms by (cases xs) auto
  then have first: "fold max_step xs Null = fold max_step ys y" using compare_Null [of y] by (simp add: max_step_def compare_le)
  have "canon (fold max_step xs Null) = Max (canon ` set xs)"
    unfolding first using fold_max [of ys y] by (simp add: xs flip: Max.set_eq_fold)
  moreover have "fold max_step xs Null \<in> set xs" unfolding first using fold_max [of ys y] by (simp add: xs)
  ultimately show ?thesis by (auto simp: greatest_of_def compare_le)
qed

lemma fold_min_least:
  assumes "m \<in> set xs"
  shows "least_of (fold min_step xs m) xs"
proof -
  have "canon (fold min_step xs m) = Min (canon ` insert m (set xs))"
    using fold_min [of xs m] Min.set_eq_fold [of "canon m" "map canon xs"] by simp
  then have "canon (fold min_step xs m) = Min (canon ` set xs)" using assms by (simp add: insert_absorb)
  moreover have "fold min_step xs m \<in> set xs" using fold_min [of xs m] assms by auto
  ultimately show ?thesis by (auto simp: least_of_def compare_le)
qed

lemma canon_Null: "canon x = canon Null \<longleftrightarrow> x = Null"
  using root_order_canon [of x] root_order_canon [of Null] by (cases x) auto

lemma compare_Null_eq: "compare x Null = 0 \<longleftrightarrow> x = Null"
  unfolding compare_eq_canon by (rule canon_Null)

lemma min_set_fold:
  "m \<noteq> Null \<Longrightarrow> Null \<notin> set xs \<Longrightarrow> fold min_set_step xs m = fold min_step xs m"
  by (induction xs arbitrary: m) (auto simp: min_set_step_def min_step_def compare_Null_eq)

text \<open>The minimum of a set is the least of its elements other than null.\<close>

lemma min_set_least:
  assumes "vkeys xs" and "filter (\<lambda>x. x \<noteq> Null) xs \<noteq> []"
  shows "least_of (fold min_set_step (vset_sorted xs) Null) (filter (\<lambda>x. x \<noteq> Null) xs)"
proof -
  let ?P = "\<lambda>x. x \<noteq> Null"
  have dist: "distinct (vset_sorted xs)" using vset_sorted_keys [OF assms(1)] by (auto simp: vkeys_def distinct_map)
  have sorted: "sorted (map canon (vset_sorted xs))" by (simp add: vset_sorted_def sort_by_compare)
  have "filter ?P (vset_sorted xs) \<noteq> []" using assms(2) by (auto simp: filter_empty_conv)
  then obtain y ys where f: "filter ?P (vset_sorted xs) = y # ys" by (cases "filter ?P (vset_sorted xs)") auto
  have ne: "y \<noteq> Null" "Null \<notin> set ys" using arg_cong [OF f, of set] by auto
  have "vset_sorted xs = y # ys \<or> vset_sorted xs = Null # y # ys"
  proof (cases "vset_sorted xs")
    case (Cons z zs)
    show ?thesis
    proof (cases "Null \<in> set zs")
      case True
      then have "canon z \<le> canon Null" using sorted Cons by auto
      then have "z = Null" using compare_Null [of z] canon_Null by auto
      then show ?thesis using True dist Cons by simp
    next
      case False
      then have "filter ?P zs = zs" by (auto simp: filter_id_conv)
      then show ?thesis using f Cons by (cases "z = Null") auto
    qed
  qed (use f in simp)
  then have "fold min_set_step (vset_sorted xs) Null = fold min_step ys y"
    using min_set_fold [OF ne] by (auto simp: min_set_step_def compare_Null_eq)
  also have "\<dots> = fold min_step (y # ys) y" by (simp add: min_step_def)
  finally have "least_of (fold min_set_step (vset_sorted xs) Null) (y # ys)" using fold_min_least [of y "y # ys"] by simp
  then show ?thesis unfolding least_of_def f [symmetric] by simp
qed

text \<open>
  On a non-empty array \<open>max\<close> and \<open>min\<close> return a greatest and a least element, and \<open>sort\<close> a sorted
  permutation.  On a set \<open>max\<close> returns the greatest element, but \<open>min\<close> the least one other than null.
\<close>

theorem extremes_and_sort:
  assumes "xs \<noteq> []" and "vkeys ys" and "filter (\<lambda>y. y \<noteq> Null) ys \<noteq> []"
  shows "(\<exists>m. builtinMax (Array xs) = Iter m \<and> greatest_of m xs) \<and>
    (\<exists>m. builtinMin (Array xs) = Iter m \<and> least_of m xs) \<and>
    (\<exists>m. builtinMax (Set ys) = Iter m \<and> greatest_of m ys) \<and>
    (\<exists>m. builtinMin (Set ys) = Iter m \<and> least_of m (filter (\<lambda>y. y \<noteq> Null) ys)) \<and>
    (\<exists>zs. builtinSort (Array xs) = Iter (Array zs) \<and> mset zs = mset xs \<and> sorted_wrt (\<lambda>a b. compare a b \<le> 0) zs)"
proof (intro conjI)
  have ys: "ys \<noteq> []" "vset_sorted ys \<noteq> []" using assms(3) by (auto simp: vset_sorted_def dest: arg_cong [where f = length])
  show "\<exists>m. builtinMax (Array xs) = Iter m \<and> greatest_of m xs"
    using fold_max_greatest [OF assms(1)] assms(1) by (simp add: builtinMax_def)
  show "\<exists>m. builtinMin (Array xs) = Iter m \<and> least_of m xs"
    using fold_min_least [of "hd xs" xs] assms(1) by (cases xs) (simp_all add: builtinMin_def)
  show "\<exists>m. builtinMax (Set ys) = Iter m \<and> greatest_of m ys"
    using fold_max_greatest [OF ys(2)] ys(1) by (simp add: builtinMax_def greatest_of_def)
  show "\<exists>m. builtinMin (Set ys) = Iter m \<and> least_of m (filter (\<lambda>y. y \<noteq> Null) ys)"
    using min_set_least [OF assms(2,3)] ys(1) by (simp add: builtinMin_def)
  have "sorted_wrt (\<lambda>a b. compare a b \<le> 0) (sort_by compare xs)"
    using sorted_sort_key [of canon xs] by (simp add: compare_le sort_by_compare sorted_map)
  then show "\<exists>zs. builtinSort (Array xs) = Iter (Array zs) \<and> mset zs = mset xs \<and> sorted_wrt (\<lambda>a b. compare a b \<le> 0) zs"
    by (simp add: builtinSort_def)
qed

theorem extremes_and_sort_witness:
  "\<exists>m. builtinMin (Set [String ''b'', Null, String ''a'']) = Iter m \<and> least_of m [String ''b'', String ''a'']"
proof -
  have "vkeys [String ''b'', Null, String ''a'']"
    by (simp add: vkeys_def hashable_String canon_Null [of "String _", simplified] hashable_def key_canonical_def node_def)
  then show ?thesis
    using extremes_and_sort [of "[Null]" "[String ''b'', Null, String ''a'']"] by simp
qed

text \<open>\<open>min\<close> of a set skips null, which is its least element; \<open>min\<close> of the array of the same elements does not.\<close>

theorem min_set_skips_null:
  "builtinMin (Set [Null, Boolean True]) = Iter (Boolean True) \<and> builtinMin (Array [Null, Boolean True]) = Iter Null"
  by code_simp

section \<open>What the subset built-in decides\<close>

lemma set_subset_correct:
  assumes "vkeys super" and "list_all hashable sub"
  shows "setSubset super sub \<longleftrightarrow> canon ` set sub \<subseteq> canon ` set super"
  using assms(2) set_contains_canon [OF assms(1)] by (auto simp: setSubset_def list_all_iff)

text \<open>An occurrence of an array in another, up to \<open>Compare\<close>, at a position.\<close>

definition occurs_at :: "val list \<Rightarrow> val list \<Rightarrow> nat \<Rightarrow> bool" where
  "occurs_at super sub p \<longleftrightarrow>
     p + length sub \<le> length super \<and> (\<forall>i < length sub. canon (super ! (p + i)) = canon (sub ! i))"

lemma array_scan_occurs:
  assumes "k \<le> length sub" and "c + k \<le> length super" and "\<forall>i < k. canon (super ! (c + i)) = canon (sub ! i)"
  shows "array_scan super sub c k \<longleftrightarrow> (\<exists>p \<ge> c. occurs_at super sub p)"
  using assms
proof (induction super sub c k rule: array_scan.induct)
  case (1 super sub c k)
  consider (found) "k = length sub" | (out) "k \<noteq> length sub" "c + k \<ge> length super"
    | (same) "k \<noteq> length sub" "c + k < length super" "compare (super ! (c + k)) (sub ! k) = 0"
    | (diff) "k \<noteq> length sub" "c + k < length super" "compare (super ! (c + k)) (sub ! k) \<noteq> 0"
    by linarith
  then show ?case
  proof cases
    case found
    then have "occurs_at super sub c" using "1.prems" by (simp add: occurs_at_def)
    then show ?thesis using found by (subst array_scan.simps) auto
  next
    case out
    then have "\<not> occurs_at super sub p" if "p \<ge> c" for p using that "1.prems" by (auto simp: occurs_at_def)
    then show ?thesis using out by (subst array_scan.simps) auto
  next
    case same
    have "\<forall>i < Suc k. canon (super ! (c + i)) = canon (sub ! i)"
      using "1.prems"(3) same(3) by (simp add: less_Suc_eq compare_eq_canon)
    then have "array_scan super sub c (Suc k) \<longleftrightarrow> (\<exists>p \<ge> c. occurs_at super sub p)"
      using "1.IH"(1) same "1.prems" by auto
    then show ?thesis using same by (subst array_scan.simps) auto
  next
    case diff
    have "k < length sub" using diff(1) "1.prems"(1) by simp
    then have "\<not> occurs_at super sub c" using diff(3) by (auto simp: occurs_at_def compare_eq_canon)
    then have "(\<exists>p \<ge> c. occurs_at super sub p) \<longleftrightarrow> (\<exists>p \<ge> Suc c. occurs_at super sub p)"
      by (metis Suc_leD le_antisym not_less_eq_eq)
    then have "array_scan super sub (Suc c) 0 \<longleftrightarrow> (\<exists>p \<ge> c. occurs_at super sub p)"
      using "1.IH"(2) diff by auto
    then show ?thesis using diff by (subst array_scan.simps) auto
  qed
qed

lemma occurs_sublist: "(\<exists>p. occurs_at super sub p) \<longleftrightarrow> sublist (map canon sub) (map canon super)"
proof
  assume "\<exists>p. occurs_at super sub p"
  then obtain p where p: "p + length sub \<le> length super" "\<forall>i < length sub. canon (super ! (p + i)) = canon (sub ! i)"
    by (auto simp: occurs_at_def)
  then have "map canon sub = take (length sub) (drop p (map canon super))" by (auto intro!: nth_equalityI)
  then show "sublist (map canon sub) (map canon super)" by (metis sublist_take sublist_drop sublist_order.order_trans)
next
  assume "sublist (map canon sub) (map canon super)"
  then obtain ps ss where eq: "map canon super = ps @ map canon sub @ ss" by (auto simp: sublist_def)
  have len: "length super = length ps + length sub + length ss" using arg_cong [OF eq, of length] by simp
  have "canon (super ! (length ps + i)) = canon (sub ! i)" if "i < length sub" for i
    using arg_cong [OF eq, of "\<lambda>zs. zs ! (length ps + i)"] that len by (simp add: nth_append)
  then show "\<exists>p. occurs_at super sub p" using len by (auto simp: occurs_at_def intro!: exI [of _ "length ps"])
qed

lemma array_subset_correct: "arraySubset super sub \<longleftrightarrow> sublist (map canon sub) (map canon super)"
proof -
  have "array_scan super sub 0 0 \<longleftrightarrow> sublist (map canon sub) (map canon super)"
    using array_scan_occurs [of 0 sub 0 super] occurs_sublist by simp
  moreover have "map canon sub = map canon super" if "compare (Array sub) (Array super) = 0"
    using that by (simp add: compare_eq_canon node_def)
  moreover have "\<not> sublist (map canon sub) (map canon super)" if "length sub > length super"
    using that sublist_length_le [of "map canon sub" "map canon super"] by auto
  ultimately show ?thesis by (auto simp: arraySubset_def)
qed

text \<open>On an array without repetitions the count of unmatched elements is right, unless the array is empty.\<close>

lemma arraySet_loop_count:
  "0 < u \<Longrightarrow> arraySet_loop sub super u \<longleftrightarrow> u \<le> int (length (filter (set_contains sub) super))"
proof (induction super arbitrary: u)
  case (Cons t ts)
  show ?case
  proof (cases "u = 1 \<and> set_contains sub t")
    case False
    then have "0 < (if set_contains sub t then u - 1 else u)" using Cons.prems by auto
    then show ?thesis using Cons.IH by (auto simp: Let_def)
  qed simp
qed simp

lemma array_set_subset_correct:
  assumes "vkeys super" and "vkeys sub"
  shows "arraySetSubset super sub \<longleftrightarrow> super \<noteq> [] \<and> canon ` set sub \<subseteq> canon ` set super"
proof (cases "sub = []")
  case True
  then show ?thesis by (cases super) (auto simp: arraySetSubset_def set_contains_def set_get_def)
next
  case False
  let ?f = "filter (set_contains sub) super"
  have f: "canon ` set ?f = canon ` set super \<inter> canon ` set sub"
    using assms(1) set_contains_canon [OF assms(2)] by (auto simp: vkeys_def list_all_iff)
  have "card (canon ` set ?f) = length ?f"
    using distinct_card [of "map canon ?f"] assms(1) by (simp add: vkeys_def distinct_map_filter)
  moreover have "card (canon ` set sub) = length sub" using distinct_card [of "map canon sub"] assms(2) by (simp add: vkeys_def)
  ultimately have "length sub \<le> length ?f \<longleftrightarrow> card (canon ` set sub) \<le> card (canon ` set super \<inter> canon ` set sub)"
    using f by simp
  also have "\<dots> \<longleftrightarrow> canon ` set sub \<subseteq> canon ` set super"
    by (metis Int_lower2 List.finite_set card_mono card_seteq finite_Int finite_imageI inf.absorb_iff2)
  finally show ?thesis using arraySet_loop_count [of "int (length sub)" sub super] False by (auto simp: arraySetSubset_def)
qed

lemma oabs_Some:
  assumes "okeys kvs"
  shows "oabs kvs x = Some w \<longleftrightarrow> (\<exists>k. (k, w) \<in> set kvs \<and> canon k = x)"
proof -
  have "distinct (map fst (map (\<lambda>(k, v). (canon k, v)) kvs))" using assms by (simp add: okeys_def case_prod_beta o_def)
  then show ?thesis by (force simp: oabs_def)
qed

text \<open>The values that may stand below the same key of an object and of its superset.\<close>

definition value_subset :: "val \<Rightarrow> val \<Rightarrow> bool" where
  "value_subset v w \<longleftrightarrow> canon w = canon v \<or>
     (case w of
        Object b \<Rightarrow> (case v of Object a \<Rightarrow> objectSubset a b | _ \<Rightarrow> False)
      | Set b \<Rightarrow> (case v of Set a \<Rightarrow> setSubset a b | _ \<Rightarrow> False)
      | Array b \<Rightarrow> (case v of Array a \<Rightarrow> arraySubset a b | _ \<Rightarrow> False)
      | _ \<Rightarrow> False)"

lemma object_subset_correct:
  assumes "okeys super" and "okeys sub"
  shows "objectSubset super sub \<longleftrightarrow>
    (\<forall>x w. oabs sub x = Some w \<longrightarrow> (\<exists>v. oabs super x = Some v \<and> value_subset v w))"
proof -
  have "objectSubset super sub \<longleftrightarrow>
      (\<forall>(k, w) \<in> set sub. case object_get super k of None \<Rightarrow> False | Some v \<Rightarrow> value_subset v w)"
    by (subst objectSubset.simps)
      (simp only: value_subset_def term_equal_compare compare_eq_canon list_all_iff set_object_sorted
        cong: option.case_cong)
  also have "\<dots> \<longleftrightarrow> (\<forall>(k, w) \<in> set sub. \<exists>v. oabs super (canon k) = Some v \<and> value_subset v w)"
    using assms by (intro ball_cong) (auto simp: object_get_oabs okeys_def list_all_iff split: option.splits)
  also have "\<dots> \<longleftrightarrow> (\<forall>x w. oabs sub x = Some w \<longrightarrow> (\<exists>v. oabs super x = Some v \<and> value_subset v w))"
    by (simp only: oabs_Some [OF assms(2)]) fast
  finally show ?thesis .
qed



text \<open>
  A repeated element of the array is counted twice, so that an array counts as a superset of a set it
  does not include; and the empty array does not count as a superset of the empty set.
\<close>

theorem array_set_subset_counts:
  "builtinObjectSubset (Array [Boolean True, Boolean True]) (Set [Boolean True, Null]) = Iter (Boolean True) \<and>
   builtinObjectSubset (Array []) (Set []) = Iter (Boolean False)"
  by code_simp

section \<open>What the built-ins on objects compute\<close>

text \<open>The value that \<open>object.union\<close> gives a key of both objects.\<close>

definition overwrite_values :: "val \<Rightarrow> val \<Rightarrow> val option" where
  "overwrite_values v w =
     (case v of
        Object a \<Rightarrow> (case w of Object b \<Rightarrow> Some (Object (mergeWithOverwrite a b)) | _ \<Rightarrow> Some w)
      | _ \<Rightarrow> Some w)"

lemma overwrite_values_total: "overwrite_values v w \<noteq> None"
  by (auto simp: overwrite_values_def split: val.splits)

lemma mergeWithOverwrite_oabs:
  assumes "okeys a" and "okeys b"
  shows "okeys (mergeWithOverwrite a b) \<and> oabs (mergeWithOverwrite a b) = omerge overwrite_values (oabs a) (oabs b)"
proof -
  have "mergeWithOverwrite a b = (case object_mergeWith overwrite_values a b of None \<Rightarrow> [] | Some r \<Rightarrow> r)"
    unfolding mergeWithOverwrite.simps [of a b] overwrite_values_def by (rule refl)
  then show ?thesis using object_mergeWith_oabs [OF assms, of overwrite_values] overwrite_values_total
    by (cases "object_mergeWith overwrite_values a b") auto
qed

text \<open>The keys that an array, a set or an object gives as a parameter.\<close>

definition param_keys :: "val \<Rightarrow> val list option" where
  "param_keys x = (case x of Array xs \<Rightarrow> Some xs | Set xs \<Rightarrow> Some xs | Object kvs \<Rightarrow> Some (map fst kvs) | _ \<Rightarrow> None)"

lemma getObjectKeysParam_keys:
  assumes "param_keys x = Some ks" and "list_all hashable ks"
  shows "\<exists>r. getObjectKeysParam x = Inr r \<and> vkeys r \<and> canon ` set r = canon ` set ks"
proof -
  have "list_all hashable (vset_sorted ks)" using assms(2) by (simp add: list_all_iff)
  note sorted = set_put_all [OF vs.inv_emp this]
  show ?thesis
  proof (cases x)
    case (Array xs)
    then show ?thesis using set_put_all [OF vs.inv_emp assms(2)] assms(1) by (simp add: param_keys_def getObjectKeysParam_def)
  next
    case (Set xs)
    then show ?thesis using sorted assms(1) by (simp add: param_keys_def getObjectKeysParam_def)
  next
    case (Object kvs)
    then have "list_all hashable (map fst (object_sorted kvs))" using assms by (force simp: param_keys_def list_all_iff)
    note put = set_put_all [OF vs.inv_emp this]
    moreover have "ks = map fst kvs" using Object assms(1) by (simp add: param_keys_def)
    ultimately show ?thesis by (simp add: Object getObjectKeysParam_def)
  qed (use assms(1) in \<open>simp_all add: param_keys_def\<close>)
qed

lemma object_remove_oabs:
  assumes "okeys obj" and "vkeys keys"
  shows "let r = fold (\<lambda>(k, v) r. if \<not> set_contains keys k then object_put k v r else r) (object_sorted obj) []
    in okeys r \<and> oabs r = (\<lambda>x. if x \<in> canon ` set keys then None else oabs obj x)"
proof -
  note sorted = object_sorted_oabs [OF assms(1)]
  let ?r = "fold (\<lambda>(k, v) r. if \<not> set_contains keys k then object_put k v r else r) (object_sorted obj) []"
  have "filter (\<lambda>(k, v). \<not> set_contains keys k) (object_sorted obj) = filter (\<lambda>(k, v). canon k \<notin> canon ` set keys) (object_sorted obj)"
    using assms(1) set_contains_canon [OF assms(2)] by (intro filter_cong) (auto simp: okeys_def list_all_iff)
  then have f: "oabs (filter (\<lambda>(k, v). \<not> set_contains keys k) (object_sorted obj)) x =
      (if x \<notin> canon ` set keys then oabs obj x else None)" for x
    using oabs_filter [OF sorted(1), of "\<lambda>y. y \<notin> canon ` set keys" x] sorted(2) by simp
  have "okeys ?r \<and> oabs ?r = (\<lambda>x. case oabs [] x of Some v \<Rightarrow> Some v
      | None \<Rightarrow> oabs (filter (\<lambda>(k, v). \<not> set_contains keys k) (object_sorted obj)) x)"
    by (rule put_fold [OF okeys_nil(1) sorted(1)]) simp
  then show ?thesis unfolding f by (auto simp: Let_def fun_eq_iff)
qed

text \<open>
  C33.  The built-ins on objects as operations on maps from keys, up to \<open>Compare\<close>, to values: \<open>object.union\<close>
  prefers the second object and merges values that are both objects, \<open>object.remove\<close> drops the given
  keys, \<open>object.keys\<close> is the domain, and \<open>object.get\<close> of a key that is no array looks it up or gives the
  default.
\<close>

theorem object_builtins_correct:
  assumes "okeys a" and "okeys b" and "param_keys p = Some ks" and "list_all hashable ks"
    and "hashable k" and "sortOrder k \<noteq> sortOrder (Array [])"
  shows "(\<exists>r. builtinObjectUnion (Object a) (Object b) = Iter (Object r) \<and> okeys r \<and>
      oabs r = omerge overwrite_values (oabs a) (oabs b)) \<and>
    (\<exists>r. builtinObjectRemove (Object a) p = Iter (Object r) \<and> okeys r \<and>
      oabs r = (\<lambda>x. if x \<in> canon ` set ks then None else oabs a x)) \<and>
    (\<exists>r. builtinObjectKeys (Object a) = Iter r \<and> vset_ok r \<and> velems r = dom (oabs a)) \<and>
    builtinObjectGet (Object a) k d = Iter (case oabs a (canon k) of None \<Rightarrow> d | Some v \<Rightarrow> v)"
proof (intro conjI)
  show "\<exists>r. builtinObjectUnion (Object a) (Object b) = Iter (Object r) \<and> okeys r \<and>
      oabs r = omerge overwrite_values (oabs a) (oabs b)"
    using mergeWithOverwrite_oabs [OF assms(1,2)] by (simp add: builtinObjectUnion_def with_operand_def objectOperand_def)
  obtain r where r: "getObjectKeysParam p = Inr r" "vkeys r" "canon ` set r = canon ` set ks"
    using getObjectKeysParam_keys [OF assms(3,4)] by blast
  then show "\<exists>r. builtinObjectRemove (Object a) p = Iter (Object r) \<and> okeys r \<and>
      oabs r = (\<lambda>x. if x \<in> canon ` set ks then None else oabs a x)"
    using object_remove_oabs [OF assms(1) r(2)] by (simp add: builtinObjectRemove_def with_operand_def objectOperand_def Let_def)
  have "list_all hashable (map fst (object_sorted a))" using assms(1) by (simp add: okeys_def list_all_iff)
  from set_put_all [OF vs.inv_emp this]
  show "\<exists>r. builtinObjectKeys (Object a) = Iter r \<and> vset_ok r \<and> velems r = dom (oabs a)"
    by (simp add: builtinObjectKeys_def with_operand_def objectOperand_def vset_ok_def velems_def oabs_dom image_image)
  show "builtinObjectGet (Object a) k d = Iter (case oabs a (canon k) of None \<Rightarrow> d | Some v \<Rightarrow> v)"
    using object_get_oabs [OF assms(1,5)] assms(6)
    by (cases k) (simp_all add: builtinObjectGet_def with_operand_def objectOperand_def option.case_eq_if)
qed

theorem object_builtins_correct_witness:
  "builtinObjectGet (Object [(String ''a'', Boolean True)]) (String ''b'') Null = Iter Null"
proof -
  let ?a = "[(String ''a'', Boolean True)]"
  have "okeys ?a" by (simp add: okeys_def hashable_String)
  then have "builtinObjectGet (Object ?a) (String ''b'') Null =
      Iter (case oabs ?a (canon (String ''b'')) of None \<Rightarrow> Null | Some v \<Rightarrow> v)"
    by (intro object_builtins_correct [where b = "[]" and p = "Array []" and ks = "[]",
          THEN conjunct2, THEN conjunct2, THEN conjunct2])
      (simp_all add: param_keys_def hashable_String)
  then show ?thesis by (simp add: oabs_def)
qed

section \<open>The types of the built-ins\<close>

text \<open>
  A result of the given type when the operands are right, an operand error otherwise.  The types are
  those of \<open>type_name\<close>.
\<close>

definition has_type :: "val \<Rightarrow> string \<Rightarrow> bool" where
  "has_type v t \<longleftrightarrow> builtinTypeName v = Iter (String t)"

definition typed :: "builtin_result \<Rightarrow> string \<Rightarrow> bool \<Rightarrow> bool" where
  "typed res t ok =
     (case res of Iter v \<Rightarrow> ok \<and> has_type v t | BErr _ \<Rightarrow> \<not> ok | _ \<Rightarrow> False)"

definition is_int64 :: "val \<Rightarrow> bool" where
  "is_int64 v = (case v of Number n \<Rightarrow> num_int64 n \<noteq> None | _ \<Rightarrow> False)"

lemma has_type_simps [simp]:
  "has_type Null t \<longleftrightarrow> t = ''null''"
  "has_type (Boolean b) t \<longleftrightarrow> t = ''boolean''"
  "has_type (Number n) t \<longleftrightarrow> t = ''number''"
  "has_type (String s) t \<longleftrightarrow> t = ''string''"
  "has_type (Array xs) t \<longleftrightarrow> t = ''array''"
  "has_type (Object kvs) t \<longleftrightarrow> t = ''object''"
  "has_type (Set ys) t \<longleftrightarrow> t = ''set''"
  "\<not> has_type (Var x) t" "\<not> has_type (Ref r) t" "\<not> has_type (ArrayComprehension v es) t"
  "\<not> has_type (ObjectComprehension v w es) t" "\<not> has_type (SetComprehension v es) t" "\<not> has_type (Call vs) t"
  by (auto simp: has_type_def builtinTypeName_def)

lemma has_type_iff:
  "has_type v ''array'' \<longleftrightarrow> (\<exists>xs. v = Array xs)" "has_type v ''set'' \<longleftrightarrow> (\<exists>xs. v = Set xs)"
  "has_type v ''object'' \<longleftrightarrow> (\<exists>kvs. v = Object kvs)" "has_type v ''string'' \<longleftrightarrow> (\<exists>s. v = String s)"
  by (cases v; simp)+

lemma operands_typed:
  "setOperand v i = Inr xs \<longleftrightarrow> v = Set xs" "setOperand v i = Inl e \<longleftrightarrow> \<not> has_type v ''set'' \<and> e = OperandTypeErr i v [''set'']"
  "arrayOperand v i = Inr xs \<longleftrightarrow> v = Array xs"
  "arrayOperand v i = Inl e \<longleftrightarrow> \<not> has_type v ''array'' \<and> e = OperandTypeErr i v [''array'']"
  "objectOperand v i = Inr kvs \<longleftrightarrow> v = Object kvs"
  "objectOperand v i = Inl e \<longleftrightarrow> \<not> has_type v ''object'' \<and> e = OperandTypeErr i v [''object'']"
  by (cases v; auto simp: setOperand_def arrayOperand_def objectOperand_def)+

lemma intOperand_typed:
  "(\<exists>i. intOperand v pos = Inr i) \<longleftrightarrow> is_int64 v" "(\<exists>e. intOperand v pos = Inl e) \<longleftrightarrow> \<not> is_int64 v"
  by (cases v; auto simp: intOperand_def is_int64_def split: option.splits)+

lemma getObjectKeysParam_typed:
  "(\<exists>ks. getObjectKeysParam v = Inr ks) \<longleftrightarrow> has_type v ''array'' \<or> has_type v ''set'' \<or> has_type v ''object''"
  "(\<exists>e. getObjectKeysParam v = Inl e) \<longleftrightarrow> \<not> (has_type v ''array'' \<or> has_type v ''set'' \<or> has_type v ''object'')"
  by (cases v; simp add: getObjectKeysParam_def)+

lemma slice_typed:
  "typed (builtinArraySlice a b c) ''array'' (has_type a ''array'' \<and> is_int64 b \<and> is_int64 c)"
proof -
  have inside: "(slice_of xs (clamp_start i (clamp_stop j (int (length xs)))) (clamp_stop j (int (length xs))) = None) = False"
    for xs :: "val list" and i j
    by (auto simp: slice_of_def clamp_start_def clamp_stop_def)
  show ?thesis
    using intOperand_typed [of b 2] intOperand_typed [of c 3]
    by (auto simp: inside typed_def builtinArraySlice_def with_operand_def Let_def operands_typed split: sum.splits option.splits)
qed


text \<open>The predicates \<open>is_number\<close> and so on agree with \<open>type_name\<close>.\<close>

lemma type_predicates:
  "builtinIsNumber v = Iter (Boolean (has_type v ''number''))" "builtinIsString v = Iter (Boolean (has_type v ''string''))"
  "builtinIsBoolean v = Iter (Boolean (has_type v ''boolean''))" "builtinIsArray v = Iter (Boolean (has_type v ''array''))"
  "builtinIsSet v = Iter (Boolean (has_type v ''set''))" "builtinIsObject v = Iter (Boolean (has_type v ''object''))"
  "builtinIsNull v = Iter (Boolean (has_type v ''null''))"
  by (cases v; simp add: builtinIsNumber_def builtinIsString_def builtinIsBoolean_def builtinIsArray_def builtinIsSet_def
      builtinIsObject_def builtinIsNull_def)+

end
