(* ===== verification/Topdown_Graphs.thy ===== *)
theory Topdown_Graphs
  imports Topdown_Collections
begin

text \<open>
  The built-in functions on graphs and trees: \<open>graph.reachable\<close> and \<open>graph.reachable_paths\<close>
  (topdown/reachable.go) and \<open>walk\<close> (topdown/walk.go).

  A graph is an object from nodes to arrays or sets of neighbours.  The loop of \<open>graph.reachable\<close> is a
  partial function: that it returns is proved, not built in.
\<close>

section \<open>Reachable nodes\<close>

text \<open>The vertices that \<open>foreachVertex\<close> visits, in its order.\<close>

definition foreachVertex :: "val \<Rightarrow> val list" where
  "foreachVertex collection = (case collection of Set xs \<Rightarrow> vset_sorted xs | Array xs \<Rightarrow> xs | _ \<Rightarrow> [])"

definition numberOfEdges :: "val \<Rightarrow> nat" where
  "numberOfEdges collection = (case collection of Set xs \<Rightarrow> length xs | Array xs \<Rightarrow> length xs | _ \<Rightarrow> 0)"

definition initial_vertices :: "val \<Rightarrow> builtin_error + val list" where
  "initial_vertices initial =
     (case initial of
        Array _ \<Rightarrow> Inr (foreachVertex initial)
      | Set _ \<Rightarrow> Inr (foreachVertex initial)
      | _ \<Rightarrow> Inl (OperandTypeErr 2 initial [''{array, set}'']))"

partial_function (option) reach_loop :: "kvs \<Rightarrow> val list \<Rightarrow> val list \<Rightarrow> val list option" where
  "reach_loop graph queue reached =
     (case queue of
        [] \<Rightarrow> Some reached
      | n # rest \<Rightarrow>
          (case object_get graph n of
             None \<Rightarrow> reach_loop graph rest reached
           | Some edges \<Rightarrow>
               reach_loop graph (rest @ filter (\<lambda>neighbor. \<not> set_contains reached neighbor) (foreachVertex edges))
                 (set_put n reached)))"

declare reach_loop.simps [code]

text \<open>\<open>None\<close> stands for a loop that does not end.\<close>

definition builtinReachable :: "val \<Rightarrow> val \<Rightarrow> builtin_result option" where
  "builtinReachable a b =
     (case objectOperand a 1 of
        Inl e \<Rightarrow> Some (BErr e)
      | Inr graph \<Rightarrow>
          (case initial_vertices b of
             Inl e \<Rightarrow> Some (BErr e)
           | Inr queue \<Rightarrow>
               (case reach_loop graph queue [] of None \<Rightarrow> None | Some reached \<Rightarrow> Some (Iter (Set reached)))))"

section \<open>Reachable paths\<close>

text \<open>
  The loop over the neighbours of a root that \<open>pathBuilder\<close> runs, with the calls of \<open>pathBuilder\<close> for the
  neighbours unfolded.  \<open>paths\<close> is the slice that the closure of the loop appends to; the sets of results
  and of reached nodes are shared by all calls.
\<close>

partial_function (option) edge_loop ::
  "kvs \<Rightarrow> val \<Rightarrow> val list \<Rightarrow> val list \<Rightarrow> val list \<Rightarrow> val list \<Rightarrow> val list \<Rightarrow> (val list \<times> val list) option" where
  "edge_loop graph start path ns paths edgeRslt reached =
     (case ns of
        [] \<Rightarrow> Some (edgeRslt, reached)
      | neighbor # rest \<Rightarrow>
          if set_contains reached neighbor
          then edge_loop graph start path rest (paths @ path) (set_put (Array (paths @ path)) edgeRslt) reached
          else
            case object_get graph neighbor of
              None \<Rightarrow> edge_loop graph start path rest paths (set_put (Array path) edgeRslt) (set_put start reached)
            | Some edges \<Rightarrow>
                if numberOfEdges edges \<ge> 1
                then Option.bind
                  (edge_loop graph neighbor (path @ [neighbor]) (foreachVertex edges) [] edgeRslt (set_put start reached))
                  (\<lambda>(edgeRslt, reached). edge_loop graph start path rest paths edgeRslt reached)
                else edge_loop graph start path rest paths (set_put (Array (path @ [neighbor])) edgeRslt) (set_put start reached))"

declare edge_loop.simps [code]

definition pathBuilder :: "kvs \<Rightarrow> val \<Rightarrow> val list \<Rightarrow> val list \<Rightarrow> val list \<Rightarrow> (val list \<times> val list) option" where
  "pathBuilder graph start path edgeRslt reached =
     (case object_get graph start of
        None \<Rightarrow> Some (set_put (Array path) edgeRslt, reached)
      | Some edges \<Rightarrow>
          if numberOfEdges edges \<ge> 1
          then edge_loop graph start (path @ [start]) (foreachVertex edges) [] edgeRslt reached
          else Some (set_put (Array (path @ [start])) edgeRslt, reached))"

text \<open>The loops of \<open>builtinReachablePaths\<close>; every neighbour of an initial node starts with a new set of reached nodes.\<close>

fun neighbor_loop :: "kvs \<Rightarrow> val \<Rightarrow> val list \<Rightarrow> val list \<Rightarrow> val list option" where
  "neighbor_loop graph n [] traceResult = Some traceResult"
| "neighbor_loop graph n (neighbor # ns) traceResult =
     Option.bind (pathBuilder graph neighbor [n] traceResult [n]) (\<lambda>(r, _). neighbor_loop graph n ns r)"

fun initial_loop :: "kvs \<Rightarrow> val list \<Rightarrow> val list \<Rightarrow> val list option" where
  "initial_loop graph [] traceResult = Some traceResult"
| "initial_loop graph (n # queue) traceResult =
     (case object_get graph n of
        None \<Rightarrow> initial_loop graph queue traceResult
      | Some edges \<Rightarrow>
          if numberOfEdges edges \<ge> 1
          then Option.bind (neighbor_loop graph n (foreachVertex edges) traceResult) (initial_loop graph queue)
          else initial_loop graph queue (set_put (Array [n]) traceResult))"

definition builtinReachablePaths :: "val \<Rightarrow> val \<Rightarrow> builtin_result option" where
  "builtinReachablePaths a b =
     (case objectOperand a 1 of
        Inl e \<Rightarrow> Some (BErr e)
      | Inr graph \<Rightarrow>
          (case initial_vertices b of
             Inl e \<Rightarrow> Some (BErr e)
           | Inr queue \<Rightarrow>
               (case initial_loop graph queue [] of None \<Rightarrow> None | Some r \<Rightarrow> Some (Iter (Set r)))))"

section \<open>Walking a value\<close>

text \<open>The switch of \<open>walk\<close>: the keys that are appended to the path, with the values below them.\<close>

definition walk_steps :: "val \<Rightarrow> (val \<times> val) list" where
  "walk_steps input =
     (case input of
        Array xs \<Rightarrow> map (\<lambda>i. (Number (intNumber (int i)), xs ! i)) [0..<length xs]
      | Object kvs \<Rightarrow> object_sorted kvs
      | Set xs \<Rightarrow> map (\<lambda>elem. (elem, elem)) (vset_sorted xs)
      | _ \<Rightarrow> [])"

lemma walk_steps_size: "(k, v) \<in> set (walk_steps input) \<Longrightarrow> size v < size input"
  by (cases input) (auto simp: walk_steps_def dest: size_pair_le size_elem_le intro!: size_elem_le)

text \<open>
  The pairs of a path and a value that \<open>walk\<close> passes to its continuation, in order; an error of the
  continuation ends the walk.  A filter that is absent and an empty filter are the same.
\<close>

function walk :: "val list \<Rightarrow> val list \<Rightarrow> val \<Rightarrow> (val list \<times> val) list" where
  "walk [] path input = (path, input) # concat (map (\<lambda>(k, v). walk [] (path @ [k]) v) (walk_steps input))"
| "walk (key # flt) path input =
     (if isGround key
      then case term_get input key of
             Some t \<Rightarrow> walk flt (path @ [key]) t
           | None \<Rightarrow> []
      else concat (map (\<lambda>(k, v). walk flt (path @ [k]) v) (walk_steps input)))"
  by pat_completeness auto

termination
  by (relation "measures [\<lambda>(flt, path, input). length flt, \<lambda>(flt, path, input). size input]")
    (auto dest: walk_steps_size)

declare walk.simps(1) [simp del]

fun walkNoPath :: "val \<Rightarrow> val list" where
  "walkNoPath (Object kvs) = Object kvs # concat (map (\<lambda>(k, v). walkNoPath v) (object_sorted kvs))"
| "walkNoPath (Array xs) = Array xs # concat (map walkNoPath xs)"
| "walkNoPath (Set xs) = Set xs # concat (map walkNoPath (vset_sorted xs))"
| "walkNoPath input = [input]"

definition isWildcard :: "string \<Rightarrow> bool" where
  "isWildcard v \<longleftrightarrow> prefix ''$'' v"

definition pathIsWildcard :: "val list \<Rightarrow> bool" where
  "pathIsWildcard operands =
     (case operands of
        [_, Array [Var v, _]] \<Rightarrow> isWildcard v
      | _ \<Rightarrow> False)"

definition getOutputPath :: "val list \<Rightarrow> val list" where
  "getOutputPath operands =
     (case operands of
        [_, Array [Array path, _]] \<Rightarrow> path
      | _ \<Rightarrow> [])"

text \<open>The terms that are passed to the continuation.\<close>

definition evalWalk :: "val list \<Rightarrow> val list" where
  "evalWalk operands =
     (if pathIsWildcard operands
      then map (\<lambda>v. Array [Array [], v]) (walkNoPath (hd operands))
      else map (\<lambda>(p, v). Array [Array p, v]) (walk (getOutputPath operands) [] (hd operands)))"

section \<open>What the search for reachable nodes computes\<close>

definition edge :: "kvs \<Rightarrow> (ctree \<times> ctree) set" where
  "edge graph = {(c, d). \<exists>edges. oabs graph c = Some edges \<and> d \<in> canon ` set (foreachVertex edges)}"

text \<open>The nodes, and their neighbours, are values that key equality identifies up to \<open>Compare\<close>.\<close>

definition graph_keys :: "kvs \<Rightarrow> bool" where
  "graph_keys graph \<longleftrightarrow> okeys graph \<and> (\<forall>(k, v) \<in> set graph. list_all hashable (foreachVertex v))"

definition reach_from :: "kvs \<Rightarrow> val list \<Rightarrow> ctree set" where
  "reach_from graph vs = {c. \<exists>v \<in> set vs. (canon v, c) \<in> (edge graph)\<^sup>*} \<inter> dom (oabs graph)"

text \<open>
  A node that has been reached is never appended again, so that a visit of a reached node pays for the
  neighbours it appends.
\<close>

definition visit_cost :: "kvs \<Rightarrow> ctree set \<Rightarrow> val \<Rightarrow> nat" where
  "visit_cost graph R n =
     (if canon n \<in> R then (case oabs graph (canon n) of None \<Rightarrow> 1 | Some edges \<Rightarrow> Suc (length (foreachVertex edges))) else 1)"

definition queue_cost :: "kvs \<Rightarrow> ctree set \<Rightarrow> val list \<Rightarrow> nat" where
  "queue_cost graph R queue = sum_list (map (visit_cost graph R) queue)"

lemma graph_keys_edges:
  assumes "graph_keys graph" and "oabs graph c = Some edges"
  shows "list_all hashable (foreachVertex edges)"
proof -
  obtain k where "(k, edges) \<in> set graph" using assms oabs_Some by (auto simp: graph_keys_def)
  then show ?thesis using assms(1) by (auto simp: graph_keys_def)
qed

lemma unreached_cost:
  assumes "vkeys reached" and "list_all hashable vs"
  shows "queue_cost graph (canon ` set reached) (filter (\<lambda>v. \<not> set_contains reached v) vs) \<le> length vs"
  using assms(2)
  by (induction vs) (auto simp: queue_cost_def visit_cost_def set_contains_canon [OF assms(1)])

text \<open>The invariant of the loop: what is reached, and what is still to be visited.\<close>

definition reach_inv :: "kvs \<Rightarrow> val list \<Rightarrow> val list \<Rightarrow> val list \<Rightarrow> bool" where
  "reach_inv graph vs queue reached \<longleftrightarrow> vkeys reached \<and> list_all hashable queue \<and>
     canon ` set reached \<subseteq> reach_from graph vs \<and>
     canon ` set queue \<subseteq> {c. \<exists>v \<in> set vs. (canon v, c) \<in> (edge graph)\<^sup>*} \<and>
     canon ` set vs \<inter> dom (oabs graph) \<subseteq> canon ` set reached \<union> canon ` set queue \<and>
     edge graph `` (canon ` set reached) \<inter> dom (oabs graph) \<subseteq> canon ` set reached \<union> canon ` set queue"

lemma reach_inv_end:
  assumes "reach_inv graph vs [] reached"
  shows "canon ` set reached = reach_from graph vs"
proof
  show "canon ` set reached \<subseteq> reach_from graph vs" using assms by (simp add: reach_inv_def)
  have closed: "edge graph `` (canon ` set reached) \<inter> dom (oabs graph) \<subseteq> canon ` set reached"
    and start: "canon ` set vs \<inter> dom (oabs graph) \<subseteq> canon ` set reached"
    using assms by (simp_all add: reach_inv_def)
  have step: "d \<in> dom (oabs graph) \<longrightarrow> d \<in> canon ` set reached"
    if "(c, d) \<in> (edge graph)\<^sup>*" "c \<in> canon ` set vs" for c d
    using that
  proof (induction rule: rtrancl_induct)
    case base
    then show ?case using start by blast
  next
    case (step y z)
    then have "y \<in> canon ` set reached" by (auto simp: edge_def)
    then show ?case using step(2) closed by blast
  qed
  show "reach_from graph vs \<subseteq> canon ` set reached" using step unfolding reach_from_def by blast
qed

lemma reach_invD:
  assumes "reach_inv graph vs queue reached"
  shows "vkeys reached" and "list_all hashable queue" and "canon ` set reached \<subseteq> reach_from graph vs"
    and "canon ` set queue \<subseteq> {c. \<exists>v \<in> set vs. (canon v, c) \<in> (edge graph)\<^sup>*}"
    and "canon ` set vs \<inter> dom (oabs graph) \<subseteq> canon ` set reached \<union> canon ` set queue"
    and "edge graph `` (canon ` set reached) \<inter> dom (oabs graph) \<subseteq> canon ` set reached \<union> canon ` set queue"
  using assms unfolding reach_inv_def by simp_all

lemma reach_step_missing:
  assumes "reach_inv graph vs (n # rest) reached" and "oabs graph (canon n) = None"
  shows "reach_inv graph vs rest reached"
proof -
  note inv = reach_invD [OF assms(1)]
  have n: "canon n \<notin> dom (oabs graph)" using assms(2) by auto
  have "canon ` set vs \<inter> dom (oabs graph) \<subseteq> canon ` set reached \<union> canon ` set rest" using inv(5) n by auto
  moreover have "edge graph `` (canon ` set reached) \<inter> dom (oabs graph) \<subseteq> canon ` set reached \<union> canon ` set rest"
    using inv(6) n unfolding list.set image_insert by blast
  moreover have "canon ` set rest \<subseteq> {c. \<exists>v \<in> set vs. (canon v, c) \<in> (edge graph)\<^sup>*}" using inv(4) by auto
  moreover have "list_all hashable rest" using inv(2) by simp
  ultimately show ?thesis unfolding reach_inv_def using inv(1,3) by (intro conjI)
qed

lemma reach_step_found:
  assumes "graph_keys graph" and "reach_inv graph vs (n # rest) reached" and "oabs graph (canon n) = Some edges"
  shows "reach_inv graph vs (rest @ filter (\<lambda>v. \<not> set_contains reached v) (foreachVertex edges)) (set_put n reached)"
proof -
  let ?new = "filter (\<lambda>v. \<not> set_contains reached v) (foreachVertex edges)"
  note inv = reach_invD [OF assms(2)]
  have n: "hashable n" and rest: "list_all hashable rest" using inv(2) by simp_all
  have edges: "list_all hashable (foreachVertex edges)" by (rule graph_keys_edges [OF assms(1,3)])
  have put: "vkeys (set_put n reached)" "canon ` set (set_put n reached) = insert (canon n) (canon ` set reached)"
    using set_put_all [OF inv(1), of "[n]"] n by auto
  have new: "canon ` set (foreachVertex edges) \<subseteq> canon ` set reached \<union> canon ` set ?new"
    using edges set_contains_canon [OF inv(1)] by (auto simp: list_all_iff)
  have out: "edge graph `` {canon n} = canon ` set (foreachVertex edges)" using assms(3) by (auto simp: edge_def)
  obtain v where v: "v \<in> set vs" "(canon v, canon n) \<in> (edge graph)\<^sup>*" using inv(4) by auto
  have "(canon v, canon w) \<in> (edge graph)\<^sup>*" if "w \<in> set (foreachVertex edges)" for w
  proof -
    have "(canon n, canon w) \<in> edge graph" using that out by blast
    with v(2) show ?thesis by (rule rtrancl.rtrancl_into_rtrancl)
  qed
  then have "canon ` set ?new \<subseteq> {c. \<exists>v \<in> set vs. (canon v, c) \<in> (edge graph)\<^sup>*}" using v(1) by auto
  then have queue: "canon ` set (rest @ ?new) \<subseteq> {c. \<exists>v \<in> set vs. (canon v, c) \<in> (edge graph)\<^sup>*}"
    using inv(4) by auto
  have split: "edge graph `` (canon ` set (set_put n reached)) = edge graph `` (canon ` set reached) \<union> canon ` set (foreachVertex edges)"
    unfolding put(2) using out by blast
  have closed: "edge graph `` (canon ` set (set_put n reached)) \<inter> dom (oabs graph)
      \<subseteq> canon ` set (set_put n reached) \<union> canon ` set (rest @ ?new)"
  proof -
    have "(A \<union> B) \<inter> D \<subseteq> insert m R \<union> (Q \<union> N)" if "A \<inter> D \<subseteq> R \<union> insert m Q" "B \<subseteq> R \<union> N" for A B D R Q N :: "ctree set" and m
      using that by blast
    from this [OF inv(6) [unfolded list.set image_insert] new] show ?thesis
      unfolding split [unfolded put(2)] put(2) set_append image_Un .
  qed
  have start: "canon ` set vs \<inter> dom (oabs graph) \<subseteq> canon ` set (set_put n reached) \<union> canon ` set (rest @ ?new)"
    using inv(5) unfolding put(2) list.set image_insert set_append image_Un by blast
  have "canon n \<in> reach_from graph vs" using v assms(3) by (auto simp: reach_from_def)
  then have sound: "canon ` set (set_put n reached) \<subseteq> reach_from graph vs" using inv(3) unfolding put(2) by blast
  have "list_all hashable (rest @ ?new)" using rest edges by (auto simp: list_all_iff)
  then show ?thesis unfolding reach_inv_def using put(1) sound queue start closed by (intro conjI)
qed

lemma reach_loop_result:
  assumes "graph_keys graph" and "reach_inv graph vs queue reached"
  shows "\<exists>r. reach_loop graph queue reached = Some r \<and> reach_inv graph vs [] r"
  using assms(2)
proof (induction "(card (dom (oabs graph) - canon ` set reached), queue_cost graph (canon ` set reached) queue)"
    arbitrary: queue reached rule: wf_induct_rule [OF wf_lex_prod [OF wf_less_than wf_less_than]])
  case (1 queue reached)
  show ?case
  proof (cases queue)
    case Nil
    then show ?thesis using 1(2) by (subst reach_loop.simps) simp
  next
    case (Cons n rest)
    have R: "vkeys reached" and n: "hashable n" using 1(2) Cons by (simp_all add: reach_inv_def)
    have get: "object_get graph n = oabs graph (canon n)" using assms(1) n by (simp add: graph_keys_def object_get_oabs)
    show ?thesis
    proof (cases "oabs graph (canon n)")
      case None
      have "queue_cost graph (canon ` set reached) rest < queue_cost graph (canon ` set reached) queue"
        by (simp add: Cons queue_cost_def visit_cost_def None)
      then have "\<exists>r. reach_loop graph rest reached = Some r \<and> reach_inv graph vs [] r"
        using 1(1) [of reached rest] reach_step_missing [OF 1(2) [unfolded Cons] None] by simp
      then show ?thesis unfolding Cons by (subst reach_loop.simps) (simp add: get None)
    next
      case (Some edges)
      let ?queue = "rest @ filter (\<lambda>v. \<not> set_contains reached v) (foreachVertex edges)"
      have put: "canon ` set (set_put n reached) = insert (canon n) (canon ` set reached)"
        using set_put_all [OF R, of "[n]"] n by auto
      have "((card (dom (oabs graph) - canon ` set (set_put n reached)), queue_cost graph (canon ` set (set_put n reached)) ?queue),
          (card (dom (oabs graph) - canon ` set reached), queue_cost graph (canon ` set reached) queue)) \<in> less_than <*lex*> less_than"
      proof (cases "canon n \<in> canon ` set reached")
        case True
        then have same: "canon ` set (set_put n reached) = canon ` set reached" using put by auto
        have "queue_cost graph (canon ` set reached) ?queue < queue_cost graph (canon ` set reached) queue"
          using unreached_cost [OF R graph_keys_edges [OF assms(1) Some], of graph] True
          by (simp add: Cons queue_cost_def visit_cost_def Some)
        then show ?thesis unfolding same by simp
      next
        case False
        have "dom (oabs graph) - canon ` set (set_put n reached) \<subset> dom (oabs graph) - canon ` set reached"
          using False Some put by auto
        then have "card (dom (oabs graph) - canon ` set (set_put n reached)) < card (dom (oabs graph) - canon ` set reached)"
          by (intro psubset_card_mono) (simp_all add: oabs_dom)
        then show ?thesis by simp
      qed
      then have "\<exists>r. reach_loop graph ?queue (set_put n reached) = Some r \<and> reach_inv graph vs [] r"
        using 1(1) reach_step_found [OF assms(1) 1(2) [unfolded Cons] Some] by blast
      then show ?thesis unfolding Cons by (subst reach_loop.simps) (simp add: get Some)
    qed
  qed
qed

text \<open>
  C13.  \<open>graph.reachable\<close> returns on every graph and gives exactly the nodes of the graph that can be reached
  from an initial node; neighbours that are no nodes are left out.
\<close>

theorem reachable_builtin_correct:
  assumes "graph_keys graph" and "initial_vertices b = Inr vs" and "list_all hashable vs"
  shows "\<exists>r. builtinReachable (Object graph) b = Some (Iter r) \<and> vset_ok r \<and> velems r = reach_from graph vs"
proof -
  have "reach_inv graph vs vs []" using assms(3) vs.inv_emp by (auto simp: reach_inv_def)
  then obtain r where r: "reach_loop graph vs [] = Some r" "reach_inv graph vs [] r"
    using reach_loop_result [OF assms(1)] by blast
  then show ?thesis using assms(2) reach_inv_end [OF r(2)]
    by (auto simp: builtinReachable_def objectOperand_def vset_ok_def velems_def reach_inv_def)
qed

theorem reachable_builtin_correct_witness:
  "\<exists>r. builtinReachable (Object [(String ''a'', Array [String ''a'', String ''b''])]) (Array [String ''a'']) = Some (Iter r) \<and>
     canon (String ''a'') \<in> velems r \<and> canon (String ''b'') \<notin> velems r"
proof -
  let ?g = "[(String ''a'', Array [String ''a'', String ''b''])]"
  have "graph_keys ?g" by (simp add: graph_keys_def okeys_def foreachVertex_def hashable_String)
  then obtain r where r: "builtinReachable (Object ?g) (Array [String ''a'']) = Some (Iter r)" "velems r = reach_from ?g [String ''a'']"
    using reachable_builtin_correct [of ?g "Array [String ''a'']" "[String ''a'']"]
    by (auto simp: initial_vertices_def foreachVertex_def hashable_String)
  have "canon (String ''a'') \<in> reach_from ?g [String ''a'']" "canon (String ''b'') \<notin> reach_from ?g [String ''a'']"
    by (simp_all add: reach_from_def oabs_def)
  then show ?thesis using r by auto
qed

section \<open>The search for paths returns\<close>

text \<open>
  A recursive call adds its start to the reached nodes, or its start was reached already and the start
  of the next call is not.
\<close>

definition edge_cost :: "kvs \<Rightarrow> val \<Rightarrow> val list \<Rightarrow> nat" where
  "edge_cost graph start reached =
     2 * card (dom (oabs graph) - canon ` set reached) + (if canon start \<in> canon ` set reached then 1 else 0)"

lemma edge_cost_put:
  assumes "vkeys reached" and "hashable start" and "canon start \<in> dom (oabs graph)"
    and "vkeys r" and "insert (canon start) (canon ` set reached) \<subseteq> canon ` set r"
  shows "edge_cost graph start r \<le> edge_cost graph start reached"
    and "canon n \<notin> canon ` set reached \<Longrightarrow> canon ` set r = insert (canon start) (canon ` set reached) \<Longrightarrow>
      edge_cost graph n r < edge_cost graph start reached"
proof -
  have fin: "finite (dom (oabs graph))" by (simp add: oabs_dom)
  let ?k = "card (dom (oabs graph) - canon ` set reached)" and ?l = "card (dom (oabs graph) - canon ` set r)"
  have le: "?l \<le> ?k" using assms(5) fin by (intro card_mono) auto
  have less: "?l < ?k" if "canon start \<notin> canon ` set reached"
    using that assms(3,5) fin by (intro psubset_card_mono) auto
  show "edge_cost graph start r \<le> edge_cost graph start reached"
    using le less assms(5) by (auto simp: edge_cost_def)
  show "edge_cost graph n r < edge_cost graph start reached"
    if "canon n \<notin> canon ` set reached" "canon ` set r = insert (canon start) (canon ` set reached)"
  proof (cases "canon start \<in> canon ` set reached")
    case True
    then have "canon n \<notin> canon ` set r" using that by auto
    then show ?thesis using le True by (simp add: edge_cost_def)
  next
    case False
    then show ?thesis using less by (simp add: edge_cost_def)
  qed
qed

lemma edge_loop_returns:
  assumes "graph_keys graph" and "vkeys reached" and "hashable start" and "canon start \<in> dom (oabs graph)"
    and "list_all hashable ns"
  shows "\<exists>e r. edge_loop graph start path ns paths edgeRslt reached = Some (e, r) \<and> vkeys r \<and>
    canon ` set reached \<subseteq> canon ` set r"
  using assms(2-)
proof (induction "(edge_cost graph start reached, length ns)" arbitrary: start path ns paths edgeRslt reached
    rule: wf_induct_rule [OF wf_lex_prod [OF wf_less_than wf_less_than]])
  case (1 start ns reached path paths edgeRslt)
  note IH = 1(1) and prems = 1(2-)
  show ?case
  proof (cases ns)
    case Nil
    then show ?thesis using prems(1) by (subst edge_loop.simps) simp
  next
    case (Cons n rest)
    have n: "hashable n" and rest: "list_all hashable rest" using prems(4) Cons by simp_all
    have put: "vkeys (set_put start reached)" "canon ` set (set_put start reached) = insert (canon start) (canon ` set reached)"
      using set_put_all [OF prems(1), of "[start]"] prems(2) by auto
    have cont: "\<exists>e r. edge_loop graph start path rest ps es R = Some (e, r) \<and> vkeys r \<and> canon ` set reached \<subseteq> canon ` set r"
      if R: "vkeys R" "insert (canon start) (canon ` set reached) \<subseteq> canon ` set R \<or> R = reached" for ps es R
    proof -
      have "edge_cost graph start R \<le> edge_cost graph start reached"
        using R edge_cost_put(1) [OF prems(1-3) R(1)] by auto
      then have "((edge_cost graph start R, length rest), (edge_cost graph start reached, length ns)) \<in> less_than <*lex*> less_than"
        by (auto simp: Cons)
      then have "\<exists>e r. edge_loop graph start path rest ps es R = Some (e, r) \<and> vkeys r \<and> canon ` set R \<subseteq> canon ` set r"
        by (rule IH [OF _ R(1) prems(2,3) rest])
      moreover have "canon ` set reached \<subseteq> canon ` set R" using R(2) by auto
      ultimately show ?thesis by blast
    qed
    show ?thesis
    proof (cases "set_contains reached n")
      case True
      then show ?thesis unfolding Cons using cont [of reached] prems(1) by (subst edge_loop.simps) simp
    next
      case False
      then have new: "canon n \<notin> canon ` set reached" using set_contains_canon [OF prems(1) n] by simp
      have get: "object_get graph n = oabs graph (canon n)" using assms(1) n by (simp add: graph_keys_def object_get_oabs)
      show ?thesis
      proof (cases "\<exists>edges. oabs graph (canon n) = Some edges \<and> numberOfEdges edges \<ge> 1")
        case True
        then obtain edges where edges: "oabs graph (canon n) = Some edges" "numberOfEdges edges \<ge> 1" by blast
        have "edge_cost graph n (set_put start reached) < edge_cost graph start reached"
          using edge_cost_put(2) [OF prems(1-3) put(1) _ new put(2)] put(2) by simp
        then have "((edge_cost graph n (set_put start reached), length (foreachVertex edges)),
            (edge_cost graph start reached, length ns)) \<in> less_than <*lex*> less_than" by simp
        moreover have "canon n \<in> dom (oabs graph)" using edges(1) by blast
        ultimately obtain e r where er: "edge_loop graph n (path @ [n]) (foreachVertex edges) [] edgeRslt (set_put start reached) = Some (e, r)"
            "vkeys r" "canon ` set (set_put start reached) \<subseteq> canon ` set r"
          using IH [OF _ put(1) n _ graph_keys_edges [OF assms(1) edges(1)]] by blast
        then show ?thesis unfolding Cons using cont [of r paths e] False edges put(2)
          by (subst edge_loop.simps) (simp add: get)
      next
        case none: False
        then show ?thesis unfolding Cons using cont [of "set_put start reached"] put False
          by (subst edge_loop.simps) (auto simp: get split: option.splits)
      qed
    qed
  qed
qed

lemma pathBuilder_returns:
  assumes "graph_keys graph" and "vkeys reached" and "hashable start"
  shows "\<exists>e r. pathBuilder graph start path edgeRslt reached = Some (e, r)"
proof (cases "oabs graph (canon start)")
  case None
  then show ?thesis using assms by (simp add: pathBuilder_def graph_keys_def object_get_oabs)
next
  case (Some edges)
  have "\<exists>e r. edge_loop graph start (path @ [start]) (foreachVertex edges) [] edgeRslt reached = Some (e, r)"
    using edge_loop_returns [OF assms _ graph_keys_edges [OF assms(1) Some]] Some by blast
  then show ?thesis using Some assms by (auto simp: pathBuilder_def graph_keys_def object_get_oabs)
qed

lemma neighbor_loop_returns:
  assumes "graph_keys graph" and "hashable n" and "list_all hashable ns"
  shows "\<exists>r. neighbor_loop graph n ns traceResult = Some r"
  using assms(3)
proof (induction ns arbitrary: traceResult)
  case (Cons m ns)
  have "vkeys [n]" using assms(2) by (simp add: vkeys_def)
  then obtain e r where "pathBuilder graph m [n] traceResult [n] = Some (e, r)"
    using pathBuilder_returns [OF assms(1)] Cons.prems by (meson list.pred_inject(2))
  then show ?case using Cons by simp
qed simp

lemma initial_loop_returns:
  assumes "graph_keys graph" and "list_all hashable vs"
  shows "\<exists>r. initial_loop graph vs traceResult = Some r"
  using assms(2)
proof (induction vs arbitrary: traceResult)
  case (Cons n vs)
  have get: "object_get graph n = oabs graph (canon n)" using assms(1) Cons.prems by (simp add: graph_keys_def object_get_oabs)
  show ?case
  proof (cases "oabs graph (canon n)")
    case None
    then show ?thesis using Cons get by simp
  next
    case (Some edges)
    obtain r where "neighbor_loop graph n (foreachVertex edges) traceResult = Some r"
      using neighbor_loop_returns [OF assms(1) _ graph_keys_edges [OF assms(1) Some]] Cons.prems by fastforce
    then show ?thesis using Cons Some get by simp
  qed
qed simp

text \<open>
  C40.  \<open>graph.reachable_paths\<close> returns on every graph, also on one with cycles.
\<close>

theorem reachable_paths_returns:
  assumes "graph_keys graph" and "initial_vertices b = Inr vs" and "list_all hashable vs"
  shows "\<exists>r. builtinReachablePaths (Object graph) b = Some (Iter (Set r))"
  using initial_loop_returns [OF assms(1,3), of "[]"] assms(2)
  by (auto simp: builtinReachablePaths_def objectOperand_def)

theorem reachable_paths_returns_witness:
  "\<exists>r. builtinReachablePaths (Object [(String ''a'', Array [String ''a''])]) (Array [String ''a'']) = Some (Iter (Set r))"
proof -
  have "graph_keys [(String ''a'', Array [String ''a''])]" by (simp add: graph_keys_def okeys_def foreachVertex_def hashable_String)
  then show ?thesis
    using reachable_paths_returns [of _ "Array [String ''a'']" "[String ''a'']"]
    by (simp add: initial_vertices_def foreachVertex_def hashable_String)
qed

text \<open>
  The slice \<open>paths\<close> is not emptied between two neighbours that have been reached, so that the second one
  adds a path that repeats the first: in a graph with the edges null to false, false to true, true to
  null and true to false.
\<close>

theorem reachable_paths_repeats:
  "case builtinReachablePaths
      (Object [(Null, Array [Boolean False]), (Boolean False, Array [Boolean True]),
               (Boolean True, Array [Null, Boolean False])]) (Array [Null]) of
     Some (Iter (Set ps)) \<Rightarrow>
       Array [Null, Boolean False, Boolean True, Null, Boolean False, Boolean True] \<in> set ps
   | _ \<Rightarrow> False"
  by code_simp

text \<open>A node with an edge to itself is listed twice in its path.\<close>

theorem reachable_paths_self_loop:
  "builtinReachablePaths (Object [(Null, Array [Boolean True]), (Boolean True, Array [Boolean True])]) (Array [Null]) =
     Some (Iter (Set [Array [Null, Boolean True, Boolean True]]))"
  by code_simp

text \<open>
  The reached nodes are shared by the branches, so that a path that meets a node of an earlier branch
  ends there: of the edges a to b, b to c, b to d, c to e, d to e and e to f only the branch through c
  goes on to e.
\<close>

theorem reachable_paths_truncates:
  "builtinReachablePaths
     (Object [(String ''a'', Array [String ''b'']), (String ''b'', Array [String ''c'', String ''d'']),
              (String ''c'', Array [String ''e'']), (String ''d'', Array [String ''e'']),
              (String ''e'', Array [String ''f''])]) (Array [String ''a'']) =
     Some (Iter (Set [Array [String ''a'', String ''b'', String ''c'', String ''e''],
                      Array [String ''a'', String ''b'', String ''d'']]))"
  by code_simp

section \<open>What a walk visits\<close>

text \<open>A value below another, with the keys that lead to it.\<close>

inductive path_to :: "val \<Rightarrow> val list \<Rightarrow> val \<Rightarrow> bool" where
  path_here: "path_to x [] x"
| path_step: "(k, y) \<in> set (walk_steps x) \<Longrightarrow> path_to y p v \<Longrightarrow> path_to x (k # p) v"

inductive_simps path_to_simps: "path_to x [] v" "path_to x (k # p) v"

text \<open>The paths that a filter lets through: its ground keys fix the keys of the path.\<close>

fun path_matches :: "val list \<Rightarrow> val list \<Rightarrow> bool" where
  "path_matches [] p = True"
| "path_matches (key # flt) [] = False"
| "path_matches (key # flt) (k # p) = ((isGround key \<longrightarrow> k = key) \<and> path_matches flt p)"

text \<open>
  Documents: objects and sets have distinct keys that key equality identifies up to \<open>Compare\<close>, arrays
  are shorter than the range of indices, and there are no calls.
\<close>

definition level_ok :: "val \<Rightarrow> bool" where
  "level_ok x =
     (case x of
        Array xs \<Rightarrow> int (length xs) \<le> int64_max
      | Object kvs \<Rightarrow> okeys kvs
      | Set xs \<Rightarrow> vkeys xs
      | Call _ \<Rightarrow> False
      | _ \<Rightarrow> True)"

function data_ok :: "val \<Rightarrow> bool" where
  "data_ok x = (level_ok x \<and> list_all (\<lambda>(k, v). data_ok v) (walk_steps x))"
  by pat_completeness auto

termination
  by (relation "measure size") (auto dest: walk_steps_size)

declare data_ok.simps [simp del]

lemma data_ok_step: "data_ok x \<Longrightarrow> (k, v) \<in> set (walk_steps x) \<Longrightarrow> data_ok v"
  by (subst (asm) data_ok.simps) (auto simp: list_all_iff)

lemma data_ok_level: "data_ok x \<Longrightarrow> level_ok x"
  by (subst (asm) data_ok.simps) simp

lemma term_get_find:
  assumes "term_get x key = Some t"
  shows "find x (key # q) = find t q"
  using assms by (cases x) (auto simp: term_get_def array_get_def split: val.splits option.splits if_splits)

lemma walk_steps_get:
  assumes "level_ok x" and "(k, v) \<in> set (walk_steps x)"
  shows "term_get x k = Some v"
proof (cases x)
  case (Array xs)
  then obtain i where i: "i < length xs" "k = Number (intNumber (int i))" "v = xs ! i" using assms(2) by (auto simp: walk_steps_def)
  then have "int64_min \<le> int i" "int i \<le> int64_max" using assms(1) Array by (auto simp: level_ok_def int64_min_def)
  then show ?thesis using Array i by (simp add: term_get_def array_get_def num_int64_intNumber)
next
  case (Object kvs)
  then have kvs: "okeys kvs" "(k, v) \<in> set kvs" using assms by (simp_all add: level_ok_def walk_steps_def)
  then have "hashable k" by (auto simp: okeys_def list_all_iff)
  then show ?thesis using kvs Object oabs_Some [OF kvs(1), of "canon k" v] by (auto simp: term_get_def object_get_oabs)
next
  case (Set xs)
  then have xs: "vkeys xs" "k \<in> set xs" "v = k" using assms by (auto simp: level_ok_def walk_steps_def)
  then have "set_contains xs k" using set_contains_canon [OF xs(1), of k] by (auto simp: vkeys_def list_all_iff)
  then show ?thesis using Set xs by (simp add: term_get_def)
qed (use assms(2) in \<open>simp_all add: walk_steps_def\<close>)

lemma term_get_data_ok:
  assumes "data_ok x" and "data_ok key" and "term_get x key = Some t"
  shows "data_ok t"
proof (cases x)
  case (Array xs)
  then obtain i where "0 \<le> i" "i < int (length xs)" "t = xs ! nat i"
    using assms(3) by (auto simp: term_get_def array_get_def split: val.splits option.splits if_splits)
  then have "(Number (intNumber (int (nat i))), t) \<in> (\<lambda>i. (Number (intNumber (int i)), xs ! i)) ` {0..<length xs}"
    by (intro image_eqI [of _ _ "nat i"]) auto
  then have "(Number (intNumber (int (nat i))), t) \<in> set (walk_steps x)" using Array by (simp add: walk_steps_def)
  then show ?thesis using data_ok_step [OF assms(1)] by blast
next
  case (Object kvs)
  then obtain k where "(k, t) \<in> set (walk_steps x)"
    using assms(3) by (auto simp: term_get_def object_get_def walk_steps_def find_Some_iff) (metis nth_mem)
  then show ?thesis using data_ok_step [OF assms(1)] by blast
next
  case (Set xs)
  then show ?thesis using assms(2,3) by (auto simp: term_get_def split: if_splits)
qed (use assms(3) in \<open>simp_all add: term_get_def\<close>)

lemma walk_here:
  "(p, v) \<in> set (walk [] path x) \<longleftrightarrow>
     p = path \<and> v = x \<or> (\<exists>k y. (k, y) \<in> set (walk_steps x) \<and> (p, v) \<in> set (walk [] (path @ [k]) y))"
  by (subst walk.simps(1)) auto

lemma walk_find:
  assumes "(p, v) \<in> set (walk flt path x)" and "data_ok x" and "list_all data_ok flt"
  shows "\<exists>q. p = path @ q \<and> path_matches flt q \<and> find x q = Some v"
  using assms
proof (induction flt path x rule: walk.induct)
  case (1 path x)
  have "find x [] = Some x" using data_ok_level [OF 1(3)] by (cases x) (simp_all add: level_ok_def)
  moreover have "\<exists>q. p = path @ q \<and> find x q = Some v" if "(k, y) \<in> set (walk_steps x)" "(p, v) \<in> set (walk [] (path @ [k]) y)" for k y
    using 1(1) [OF that(1) refl that(2) data_ok_step [OF 1(3) that(1)]]
      term_get_find [OF walk_steps_get [OF data_ok_level [OF 1(3)] that(1)]] by auto
  ultimately show ?case using 1(2) unfolding walk_here [of p v path x] by auto
next
  case (2 key flt path x)
  show ?case
  proof (cases "isGround key")
    case True
    then obtain t where t: "term_get x key = Some t" "(p, v) \<in> set (walk flt (path @ [key]) t)"
      using 2(3) by (cases "term_get x key") auto
    then obtain q where "p = path @ key # q" "path_matches flt q" "find t q = Some v"
      using 2(1) [OF True t(1) t(2) term_get_data_ok [OF 2(4) _ t(1)]] 2(5) by auto
    then show ?thesis using term_get_find [OF t(1)] by (intro exI [of _ "key # q"]) simp
  next
    case False
    then obtain k y where ky: "(k, y) \<in> set (walk_steps x)" "(p, v) \<in> set (walk flt (path @ [k]) y)" using 2(3) by auto
    then obtain q where "p = path @ k # q" "path_matches flt q" "find y q = Some v"
      using 2(2) [OF False ky(1) refl ky(2) data_ok_step [OF 2(4) ky(1)]] 2(5) by auto
    then show ?thesis
      using False term_get_find [OF walk_steps_get [OF data_ok_level [OF 2(4)] ky(1)]] by (intro exI [of _ "k # q"]) simp
  qed
qed

lemma walk_extends: "(p, v) \<in> set (walk flt path x) \<Longrightarrow> \<exists>q. p = path @ q"
proof (induction flt path x rule: walk.induct)
  case (1 path x)
  have "\<exists>q. p = path @ q" if "(k, y) \<in> set (walk_steps x)" "(p, v) \<in> set (walk [] (path @ [k]) y)" for k y
    using 1(1) [OF that(1) refl that(2)] by auto
  then show ?case using 1(2) unfolding walk_here [of p v path x] by auto
next
  case (2 key flt path x)
  have "\<exists>q. p = path @ q" if "\<not> isGround key" "(k, y) \<in> set (walk_steps x)" "(p, v) \<in> set (walk flt (path @ [k]) y)" for k y
    using 2(2) [OF that(1,2) refl that(3)] by auto
  moreover have "\<exists>q. p = path @ q" if "isGround key" "term_get x key = Some t" "(p, v) \<in> set (walk flt (path @ [key]) t)" for t
    using 2(1) [OF that] by auto
  ultimately show ?case using 2(3) by (cases "isGround key"; cases "term_get x key") auto
qed

lemma walk_path_to: "(path @ p, v) \<in> set (walk [] path x) \<longleftrightarrow> path_to x p v"
proof (induction p arbitrary: path x)
  case Nil
  have "(path, v) \<notin> set (walk [] (path @ [k]) y)" for k y using walk_extends [of path v "[]" "path @ [k]" y] by auto
  then show ?case using walk_here [of path v path x] by (auto simp: path_to_simps)
next
  case (Cons k p)
  have "(path @ k # p, v) \<in> set (walk [] (path @ [j]) y) \<longleftrightarrow> j = k \<and> path_to y p v" for j y
    using Cons [of "path @ [k]" y] walk_extends [of "path @ k # p" v "[]" "path @ [j]" y] by auto
  then show ?case unfolding walk_here [of "path @ k # p" v path x] by (auto simp: path_to_simps)
qed

lemma walk_complete:
  assumes "path_to x p v" and "path_matches flt p" and "data_ok x"
  shows "(path @ p, v) \<in> set (walk flt path x)"
  using assms
proof (induction flt arbitrary: path p x)
  case Nil
  then show ?case by (simp only: walk_path_to)
next
  case (Cons key flt)
  obtain k p' where p: "p = k # p'" using Cons.prems(2) by (cases p) simp_all
  then obtain y where y: "(k, y) \<in> set (walk_steps x)" "path_to y p' v" using Cons.prems(1) by (auto simp: path_to_simps)
  have "(path @ p, v) \<in> set (walk flt (path @ [k]) y)"
    using Cons.IH [OF y(2) _ data_ok_step [OF Cons.prems(3) y(1)], of "path @ [k]"] Cons.prems(2) p by simp
  then show ?case
    using y(1) walk_steps_get [OF data_ok_level [OF Cons.prems(3)] y(1)] Cons.prems(2) p by force
qed

lemma walkNoPath_steps: "walkNoPath x = x # concat (map (\<lambda>(k, v). walkNoPath v) (walk_steps x))"
proof (cases x)
  case (Array xs)
  have "map walkNoPath xs = map (\<lambda>i. walkNoPath (xs ! i)) [0..<length xs]" by (auto intro: nth_equalityI)
  then show ?thesis by (simp add: Array walk_steps_def o_def)
qed (simp_all add: walk_steps_def o_def)

lemma walk_values: "map snd (walk [] path x) = walkNoPath x"
proof (induction "size x" arbitrary: path x rule: less_induct)
  case less
  have "map (map snd \<circ> (\<lambda>(k, v). walk [] (path @ [k]) v)) (walk_steps x) = map (\<lambda>(k, v). walkNoPath v) (walk_steps x)"
    using less walk_steps_size by (intro map_cong) auto
  then show ?case by (subst walkNoPath_steps, subst walk.simps(1)) (simp only: map_concat list.map map_map snd_conv)
qed

text \<open>
  C34.  Without a filter \<open>walk\<close> visits every value of a document with its path, and the walk without paths
  visits the same values in the same order.  With a filter it visits the values whose path the filter
  lets through, and every visited value is the one that \<open>Find\<close> gives for its path.
\<close>

theorem walk_correct:
  assumes "data_ok x" and "list_all data_ok flt"
  shows "((p, v) \<in> set (walk [] [] x) \<longleftrightarrow> path_to x p v) \<and>
    map snd (walk [] [] x) = walkNoPath x \<and>
    (path_to x p v \<and> path_matches flt p \<longrightarrow> (p, v) \<in> set (walk flt [] x)) \<and>
    ((p, v) \<in> set (walk flt [] x) \<longrightarrow> path_matches flt p \<and> find x p = Some v)"
  using walk_path_to [of "[]" p v x] walk_values [of "[]" x] walk_complete [OF _ _ assms(1), of p v flt "[]"]
    walk_find [OF _ assms, of p v "[]"]
  by auto

theorem walk_correct_witness:
  "([Number (intNumber 0)], Boolean True) \<in> set (walk [Var ''x''] [] (Array [Boolean True]))"
proof -
  let ?x = "Array [Boolean True]" and ?p = "[Number (intNumber 0)]"
  have "data_ok ?x" "list_all data_ok [Var ''x'']"
    by (simp_all add: data_ok.simps level_ok_def walk_steps_def int64_max_def)
  moreover have "path_to ?x ?p (Boolean True)" by (simp add: path_to_simps walk_steps_def)
  moreover have "path_matches [Var ''x''] ?p" by simp
  ultimately show ?thesis using walk_correct [of ?x "[Var ''x'']" ?p "Boolean True"] by blast
qed

end
