(* ===== verification/Semver.thy ===== *)
theory Semver
  imports Go_Decimal
begin

text \<open>
  Semantic versions (internal/semver/semver.go): parsing, printing and comparison.

  The three numbers are int64 values; parsing is the only operation that makes them and keeps them in
  range.  Strings are compared by bytes.
\<close>

section \<open>Operations\<close>

record version =
  v_major :: int
  v_minor :: int
  v_patch :: int
  v_preRelease :: string
  v_metadata :: string

datatype semver_error =
    NotDottedTri string
  | BadPreRelease string
  | BadMetadata string
  | BadNumber string

text \<open>A string cut at the first occurrence of a byte.\<close>

fun cut_at :: "char \<Rightarrow> string \<Rightarrow> (string \<times> string) option" where
  "cut_at c [] = None"
| "cut_at c (x # xs) = (if x = c then Some ([], xs) else map_option (\<lambda>(a, b). (x # a, b)) (cut_at c xs))"

text \<open>The rest of the input and what follows the delimiter, which is empty when there is none.\<close>

definition splitOff :: "string \<Rightarrow> char \<Rightarrow> string \<times> string" where
  "splitOff input delim = (case cut_at delim input of None \<Rightarrow> (input, []) | Some parts \<Rightarrow> parts)"

text \<open>\<open>strings.SplitN\<close> for a separator of one byte and a positive count.\<close>

fun splitN :: "string \<Rightarrow> char \<Rightarrow> nat \<Rightarrow> string list" where
  "splitN s c (Suc (Suc n)) = (case cut_at c s of None \<Rightarrow> [s] | Some (a, b) \<Rightarrow> a # splitN b c (Suc n))"
| "splitN s c _ = [s]"

text \<open>The match of \<open>reIdentifier\<close>: non-empty parts of letters, digits and hyphens, separated by dots.\<close>

definition identifier_char :: "char \<Rightarrow> bool" where
  "identifier_char c \<longleftrightarrow> alphanumeric c \<or> c = CHR ''-''"

definition validateIdentifier :: "string \<Rightarrow> bool" where
  "validateIdentifier s \<longleftrightarrow>
     s = [] \<or> list_all (\<lambda>part. part \<noteq> [] \<and> list_all identifier_char part) (split_on CHR ''.'' s)"

fun parse_parts :: "string list \<Rightarrow> semver_error + int list" where
  "parse_parts [] = Inr []"
| "parse_parts (p # ps) =
     (case parse_int64 p of
        None \<Rightarrow> Inl (BadNumber p)
      | Some i \<Rightarrow> (case parse_parts ps of Inl e \<Rightarrow> Inl e | Inr is \<Rightarrow> Inr (i # is)))"

definition version_set :: "string \<Rightarrow> semver_error + version" where
  "version_set s =
     (let (s1, metadata) = splitOff s CHR ''+'';
          (s2, preRelease) = splitOff s1 CHR ''-'';
          dotParts = splitN s2 CHR ''.'' 3
      in if length dotParts \<noteq> 3 then Inl (NotDottedTri s2)
         else if \<not> validateIdentifier preRelease then Inl (BadPreRelease preRelease)
         else if \<not> validateIdentifier metadata then Inl (BadMetadata metadata)
         else case parse_parts dotParts of
                Inl e \<Rightarrow> Inl e
              | Inr parsed \<Rightarrow>
                  Inr \<lparr>v_major = parsed ! 0, v_minor = parsed ! 1, v_patch = parsed ! 2,
                       v_preRelease = preRelease, v_metadata = metadata\<rparr>)"

definition newVersion :: "string \<Rightarrow> semver_error + version" where
  "newVersion s = version_set s"

definition version_string :: "version \<Rightarrow> string" where
  "version_string v =
     int_text (v_major v) @ ''.'' @ int_text (v_minor v) @ ''.'' @ int_text (v_patch v) @
     (if v_preRelease v \<noteq> [] then CHR ''-'' # v_preRelease v else []) @
     (if v_metadata v \<noteq> [] then CHR ''+'' # v_metadata v else [])"

definition version_slice :: "version \<Rightarrow> int list" where
  "version_slice v = [v_major v, v_minor v, v_patch v]"

definition preRelease_slice :: "string \<Rightarrow> string list" where
  "preRelease_slice p = split_on CHR ''.'' p"

text \<open>The second list is never shorter than the first: \<open>version_slice\<close> has three elements.\<close>

fun recursiveCompare :: "int list \<Rightarrow> int list \<Rightarrow> int" where
  "recursiveCompare (a # as) (b # bs) = (if a > b then 1 else if a < b then -1 else recursiveCompare as bs)"
| "recursiveCompare _ _ = 0"

fun recursivePreReleaseCompare :: "string list \<Rightarrow> string list \<Rightarrow> int" where
  "recursivePreReleaseCompare [] bs = (if length bs > 0 then -1 else 0)"
| "recursivePreReleaseCompare (a # as) [] = 1"
| "recursivePreReleaseCompare (a # as) (b # bs) =
     (case (parse_int64 a, parse_int64 b) of
        (Some aI, None) \<Rightarrow> -1
      | (None, Some bI) \<Rightarrow> 1
      | (Some aI, Some bI) \<Rightarrow>
          if aI > bI then 1 else if aI < bI then -1
          else if a > b then 1 else if a < b then -1 else recursivePreReleaseCompare as bs
      | (None, None) \<Rightarrow> if a > b then 1 else if a < b then -1 else recursivePreReleaseCompare as bs)"

definition preReleaseCompare :: "version \<Rightarrow> version \<Rightarrow> int" where
  "preReleaseCompare va vb =
     (let a = v_preRelease va; b = v_preRelease vb
      in if length a = 0 \<and> length b > 0 then 1
         else if length b = 0 \<and> length a > 0 then -1
         else recursivePreReleaseCompare (preRelease_slice a) (preRelease_slice b))"

definition version_compare :: "version \<Rightarrow> version \<Rightarrow> int" where
  "version_compare va vb =
     (let c = recursiveCompare (version_slice va) (version_slice vb)
      in if c \<noteq> 0 then c else preReleaseCompare va vb)"

section \<open>The order of versions\<close>

text \<open>What the comparison of an identifier sees: numeric identifiers come first, by value.\<close>

definition identifier_key :: "string \<Rightarrow> nat \<times> int \<times> string" where
  "identifier_key s = (case parse_int64 s of Some i \<Rightarrow> (0, i, s) | None \<Rightarrow> (1, 0, s))"

lemma identifier_key_inj: "identifier_key a = identifier_key b \<longleftrightarrow> a = b"
  by (auto simp: identifier_key_def split: option.splits)

lemma recursiveCompare_cmpi: "length as = length bs \<Longrightarrow> recursiveCompare as bs = cmpi as bs"
  by (induction as bs rule: recursiveCompare.induct) (auto simp: cmpi_def)

lemma recursivePreReleaseCompare_cmpi:
  "recursivePreReleaseCompare as bs = cmpi (map identifier_key as) (map identifier_key bs)"
proof (induction as bs rule: recursivePreReleaseCompare.induct)
  case (3 a as b bs)
  have "recursivePreReleaseCompare (a # as) (b # bs) =
      (if identifier_key b < identifier_key a then 1 else if identifier_key a < identifier_key b then -1
       else recursivePreReleaseCompare as bs)"
    by (auto simp: identifier_key_def split: option.splits)
  moreover have "recursivePreReleaseCompare as bs = cmpi (map identifier_key as) (map identifier_key bs)"
    if "a = b"
    using 3 that by (cases "parse_int64 b") auto
  ultimately show ?case by (auto simp: cmpi_def identifier_key_inj)
next
  case (1 bs)
  then show ?case by (cases bs) (auto simp: cmpi_def)
qed (auto simp: cmpi_def)

text \<open>A version without a pre-release is above all its pre-releases.\<close>

definition version_key :: "version \<Rightarrow> int list \<times> bool \<times> (nat \<times> int \<times> string) list" where
  "version_key v =
     (version_slice v, v_preRelease v = [], map identifier_key (preRelease_slice (v_preRelease v)))"

lemma version_compare_cmpi: "version_compare a b = cmpi (version_key a) (version_key b)"
proof -
  have "recursiveCompare (version_slice a) (version_slice b) = cmpi (version_slice a) (version_slice b)"
    by (rule recursiveCompare_cmpi) (simp add: version_slice_def)
  then show ?thesis
    by (auto simp: version_compare_def preReleaseCompare_def Let_def version_key_def recursivePreReleaseCompare_cmpi cmpi_def)
qed

lemma version_key_eq:
  "version_key a = version_key b \<longleftrightarrow>
     v_major a = v_major b \<and> v_minor a = v_minor b \<and> v_patch a = v_patch b \<and> v_preRelease a = v_preRelease b"
proof -
  have "preRelease_slice x = preRelease_slice y \<longleftrightarrow> x = y" for x y
    unfolding preRelease_slice_def by (metis join_split)
  moreover have "map identifier_key xs = map identifier_key ys \<longleftrightarrow> xs = ys" for xs ys
    by (rule inj_map_eq_map) (simp add: inj_def identifier_key_inj)
  ultimately show ?thesis by (auto simp: version_key_def version_slice_def)
qed

text \<open>The comparison of versions keeps the contract of comparison functions.\<close>

interpretation ver: total_cmp version_compare "\<lambda>_. True"
  by unfold_locales (auto simp: version_compare_cmpi cmpi_def split: if_splits)

text \<open>
  C21.  Versions are totally ordered; two versions are equal exactly when they differ in the metadata at
  most, and a release is above every pre-release with the same numbers.
\<close>

theorem semver_total_order:
  "version_compare b a = - version_compare a b \<and>
   (version_compare a b \<le> 0 \<longrightarrow> version_compare b c \<le> 0 \<longrightarrow> version_compare a c \<le> 0) \<and>
   (version_compare a b = 0 \<longleftrightarrow> a\<lparr>v_metadata := []\<rparr> = b\<lparr>v_metadata := []\<rparr>) \<and>
   (version_slice a = version_slice b \<longrightarrow> v_preRelease a = [] \<longrightarrow> v_preRelease b \<noteq> [] \<longrightarrow> version_compare a b = 1)"
proof -
  have "cmpi x y = 0 \<longleftrightarrow> x = y" for x y :: "int list \<times> bool \<times> (nat \<times> int \<times> string) list" by (auto simp: cmpi_def)
  then have "version_compare a b = 0 \<longleftrightarrow> a\<lparr>v_metadata := []\<rparr> = b\<lparr>v_metadata := []\<rparr>"
    by (cases a; cases b) (simp add: version_compare_cmpi version_key_eq)
  moreover have "version_compare a b = 1" if "version_slice a = version_slice b" "v_preRelease a = []" "v_preRelease b \<noteq> []"
    using that by (auto simp: version_compare_cmpi version_key_def cmpi_def)
  moreover have "version_compare b a = - version_compare a b" by (rule ver.cmp_swap) simp_all
  moreover have "version_compare a c \<le> 0" if "version_compare a b \<le> 0" "version_compare b c \<le> 0"
    using that by (rule ver.cmp_trans [rotated 3]) simp_all
  ultimately show ?thesis by blast
qed

theorem semver_total_order_witness:
  "version_compare (\<lparr>v_major = 1, v_minor = 0, v_patch = 0, v_preRelease = [], v_metadata = []\<rparr>)
     (\<lparr>v_major = 1, v_minor = 0, v_patch = 0, v_preRelease = ''rc'', v_metadata = []\<rparr>) = 1"
  using semver_total_order [of "\<lparr>v_major = 1, v_minor = 0, v_patch = 0, v_preRelease = ''rc'', v_metadata = []\<rparr>"
      "\<lparr>v_major = 1, v_minor = 0, v_patch = 0, v_preRelease = [], v_metadata = []\<rparr>"]
  by (simp add: version_slice_def)

section \<open>Parsing what was printed\<close>

definition semver_ok :: "version \<Rightarrow> bool" where
  "semver_ok v \<longleftrightarrow> list_all (\<lambda>i. 0 \<le> i \<and> i < 2 ^ 63) (version_slice v) \<and>
     validateIdentifier (v_preRelease v) \<and> validateIdentifier (v_metadata v)"

lemma cut_at_append: "c \<notin> set s \<Longrightarrow> cut_at c (s @ c # t) = Some (s, t)"
  by (induction s) auto

lemma cut_at_None: "cut_at c s = None \<longleftrightarrow> c \<notin> set s"
  by (induction s) auto

lemma cut_at_Some: "cut_at c s = Some (a, b) \<Longrightarrow> s = a @ c # b \<and> c \<notin> set a"
  by (induction s arbitrary: a) (auto split: if_splits)

lemma splitOff_append: "c \<notin> set s \<Longrightarrow> splitOff (s @ c # t) c = (s, t)"
  by (simp add: splitOff_def cut_at_append)

lemma splitOff_none: "c \<notin> set s \<Longrightarrow> splitOff s c = (s, [])"
  using cut_at_None [of c s] by (simp add: splitOff_def)

lemma splitOff_optional: "c \<notin> set s \<Longrightarrow> splitOff (s @ (if t \<noteq> [] then c # t else [])) c = (s, t)"
  by (simp add: splitOff_append splitOff_none)

lemma splitOff_rest: "splitOff s c = (r, t) \<Longrightarrow> c \<notin> set r \<and> set r \<subseteq> set s"
  by (auto simp: splitOff_def cut_at_None split: option.splits dest: cut_at_Some)

lemma splitN_parts: "p \<in> set (splitN s c n) \<Longrightarrow> set p \<subseteq> set s"
  by (induction s c n rule: splitN.induct) (fastforce split: option.splits dest: cut_at_Some)+

lemma identifier_no_plus: "validateIdentifier s \<Longrightarrow> CHR ''+'' \<notin> set s"
proof -
  have plus: "\<not> identifier_char CHR ''+''" by code_simp
  have "x \<in> set (join_with c ss) \<Longrightarrow> x = c \<or> (\<exists>t \<in> set ss. x \<in> set t)" for x c ss
    by (induction c ss rule: join_with.induct) auto
  from this [of "CHR ''+''" "CHR ''.''" "split_on CHR ''.'' s"]
  show "validateIdentifier s \<Longrightarrow> CHR ''+'' \<notin> set s"
    using plus by (auto simp: validateIdentifier_def list_all_iff join_split)
qed

lemma digits_plain: "CHR ''.'' \<notin> set (nat_digits n)" "CHR ''-'' \<notin> set (nat_digits n)" "CHR ''+'' \<notin> set (nat_digits n)"
proof -
  have "\<not> between CHR ''0'' CHR ''9'' CHR ''.''" "\<not> between CHR ''0'' CHR ''9'' CHR ''-''" "\<not> between CHR ''0'' CHR ''9'' CHR ''+''"
    by code_simp+
  then show "CHR ''.'' \<notin> set (nat_digits n)" "CHR ''-'' \<notin> set (nat_digits n)" "CHR ''+'' \<notin> set (nat_digits n)"
    using nat_digits_chars [of n] by (auto simp: list_all_iff)
qed

lemma parse_parts_Inr: "parse_parts ps = Inr xs \<Longrightarrow> list_all2 (\<lambda>p i. parse_int64 p = Some i) ps xs"
  by (induction ps arbitrary: xs) (auto split: option.splits sum.splits)

lemma newVersion_ok:
  assumes "newVersion s = Inr v"
  shows "semver_ok v"
proof -
  obtain s1 metadata s2 preRelease where split: "splitOff s CHR ''+'' = (s1, metadata)" "splitOff s1 CHR ''-'' = (s2, preRelease)"
    by (metis surj_pair)
  let ?parts = "splitN s2 CHR ''.'' 3"
  obtain xs where xs: "parse_parts ?parts = Inr xs" "length ?parts = 3" "validateIdentifier preRelease" "validateIdentifier metadata"
      "v = \<lparr>v_major = xs ! 0, v_minor = xs ! 1, v_patch = xs ! 2, v_preRelease = preRelease, v_metadata = metadata\<rparr>"
    using assms split by (auto simp: newVersion_def version_set_def Let_def split: if_splits sum.splits)
  have parts: "list_all2 (\<lambda>p i. parse_int64 p = Some i) ?parts xs" using parse_parts_Inr [OF xs(1)] .
  have "length xs = 3" using parts xs(2) by (simp add: list_all2_lengthD)
  moreover have "0 \<le> xs ! k \<and> xs ! k < 2 ^ 63" if "k < 3" for k
  proof -
    have p: "parse_int64 (?parts ! k) = Some (xs ! k)" using parts that xs(2) by (simp add: list_all2_conv_all_nth)
    have "set (?parts ! k) \<subseteq> set s2" using splitN_parts [OF nth_mem] that xs(2) by simp
    then have "CHR ''-'' \<notin> set (?parts ! k)" using splitOff_rest [OF split(2)] by auto
    then show ?thesis using parse_int64_unsigned [OF p] parse_int64_range [OF p] by simp
  qed
  ultimately show ?thesis using xs(3,4) by (simp add: xs(5) semver_ok_def version_slice_def)
qed

lemma newVersion_string:
  assumes "semver_ok v"
  shows "newVersion (version_string v) = Inr v"
proof -
  let ?t = "\<lambda>i. nat_digits (nat i)"
  let ?nums = "?t (v_major v) @ CHR ''.'' # ?t (v_minor v) @ CHR ''.'' # ?t (v_patch v)"
  let ?pre = "if v_preRelease v \<noteq> [] then CHR ''-'' # v_preRelease v else []"
  let ?meta = "if v_metadata v \<noteq> [] then CHR ''+'' # v_metadata v else []"
  have range: "0 \<le> v_major v" "0 \<le> v_minor v" "0 \<le> v_patch v" "v_major v < 2 ^ 63" "v_minor v < 2 ^ 63" "v_patch v < 2 ^ 63"
    and ids: "validateIdentifier (v_preRelease v)" "validateIdentifier (v_metadata v)"
    using assms by (simp_all add: semver_ok_def version_slice_def)
  have printed: "version_string v = (?nums @ ?pre) @ ?meta" using range by (simp add: version_string_def int_text_def)
  have nums: "CHR ''-'' \<notin> set ?nums" "CHR ''+'' \<notin> set ?nums" by (simp_all add: digits_plain)
  have "CHR ''+'' \<notin> set (?nums @ ?pre)" using nums(2) identifier_no_plus [OF ids(1)] by auto
  then have meta: "splitOff (version_string v) CHR ''+'' = (?nums @ ?pre, v_metadata v)"
    unfolding printed by (rule splitOff_optional)
  have pre: "splitOff (?nums @ ?pre) CHR ''-'' = (?nums, v_preRelease v)"
    using nums(1) by (rule splitOff_optional)
  have parts: "splitN ?nums CHR ''.'' 3 = [?t (v_major v), ?t (v_minor v), ?t (v_patch v)]"
    by (simp add: numeral_3_eq_3 cut_at_append digits_plain)
  have parsed: "parse_parts [?t (v_major v), ?t (v_minor v), ?t (v_patch v)] = Inr [v_major v, v_minor v, v_patch v]"
    using range by (simp add: parse_int64_digits nat_less_iff)
  show ?thesis unfolding newVersion_def version_set_def Let_def meta pre prod.case parts parsed using ids by simp
qed

text \<open>
  C22.  Parsing accepts only non-negative int64 numbers with valid identifiers, and it reads every such
  version back from its text.
\<close>

theorem semver_print_parse:
  "(newVersion s = Inr v \<longrightarrow> semver_ok v) \<and> (semver_ok v \<longrightarrow> newVersion (version_string v) = Inr v)"
  using newVersion_ok newVersion_string by blast

theorem semver_print_parse_witness:
  "newVersion (version_string \<lparr>v_major = 1, v_minor = 2, v_patch = 3, v_preRelease = [], v_metadata = []\<rparr>) =
     Inr \<lparr>v_major = 1, v_minor = 2, v_patch = 3, v_preRelease = [], v_metadata = []\<rparr>"
  using semver_print_parse by (simp add: semver_ok_def version_slice_def validateIdentifier_def)

text \<open>An empty pre-release after the hyphen and leading zeros are accepted.\<close>

theorem semver_lenient:
  "newVersion ''1.0.0-'' = Inr \<lparr>v_major = 1, v_minor = 0, v_patch = 0, v_preRelease = [], v_metadata = []\<rparr> \<and>
   newVersion ''01.0.0'' = Inr \<lparr>v_major = 1, v_minor = 0, v_patch = 0, v_preRelease = [], v_metadata = []\<rparr>"
  by code_simp

end
