(* ===== verification/Topdown_Strings.thy ===== *)
theory Topdown_Strings
  imports Topdown_Collections Semver
begin

text \<open>
  The built-in functions on strings (topdown/strings.go) and on semantic versions
  (topdown/semver.go), with the operand conversions they use (topdown/builtins/builtins.go).

  A rune is given by the bytes of its UTF-8 encoding.  Positions and lengths are int64 values, and
  their sum wraps around.
\<close>

section \<open>Runes and integers\<close>

text \<open>The conversion to \<open>[]rune\<close> turns a byte that is part of no valid encoding into U+FFFD.\<close>

definition rune_of :: "string \<Rightarrow> string" where
  "rune_of r = (case r of [c] \<Rightarrow> if of_char c < (0x80 :: nat) then r else map char_of [0xEF, 0xBF, 0xBD :: nat] | _ \<Rightarrow> r)"

definition to_runes :: "string \<Rightarrow> string list" where
  "to_runes s = map rune_of (runes s)"

definition int64_add :: "int \<Rightarrow> int \<Rightarrow> int" where
  "int64_add a b = (a + b + 2 ^ 63) mod 2 ^ 64 - 2 ^ 63"

lemma int64_add_small: "- (2 ^ 63) \<le> a + b \<Longrightarrow> a + b < 2 ^ 63 \<Longrightarrow> int64_add a b = a + b"
  by (simp add: int64_add_def)

lemma int64_add_wraps: "a < 2 ^ 63 \<Longrightarrow> b < 2 ^ 63 \<Longrightarrow> 2 ^ 63 \<le> a + b \<Longrightarrow> int64_add a b < 0"
proof -
  assume ab: "a < 2 ^ 63" "b < 2 ^ 63" "2 ^ 63 \<le> a + b"
  have "a + b + 2 ^ 63 = (a + b - 2 ^ 63) + 2 ^ 64" by simp
  then have "(a + b + 2 ^ 63) mod 2 ^ 64 = (a + b - 2 ^ 63) mod 2 ^ 64" by (simp only: mod_add_self2)
  also have "\<dots> = a + b - 2 ^ 63" by (rule mod_pos_pos_trivial) (use ab in auto)
  finally have "int64_add a b = a + b - 2 ^ 64" by (simp add: int64_add_def)
  then show ?thesis using ab by simp
qed

section \<open>Strings of package strings\<close>

text \<open>\<open>strings.Split\<close> for a non-empty separator: the occurrences are searched from the left.\<close>

function split_str :: "string \<Rightarrow> string \<Rightarrow> string list" where
  "split_str d s =
     (if d \<noteq> [] \<and> prefix d s then [] # split_str d (drop (length d) s)
      else case s of
             [] \<Rightarrow> [[]]
           | c # t \<Rightarrow> (case split_str d t of [] \<Rightarrow> [[c]] | y # ys \<Rightarrow> (c # y) # ys))"
  by pat_completeness auto

termination
  by (relation "measure (\<lambda>(d, s). length s)") (auto simp: prefix_def)

declare split_str.simps [simp del]

text \<open>The empty separator splits after every rune.\<close>

definition strings_Split :: "string \<Rightarrow> string \<Rightarrow> string list" where
  "strings_Split s d = (if d = [] then runes s else split_str d s)"

fun join_str :: "string \<Rightarrow> string list \<Rightarrow> string" where
  "join_str d [] = []"
| "join_str d [s] = s"
| "join_str d (s # t # ss) = s @ d @ join_str d (t # ss)"

definition strings_Replace :: "string \<Rightarrow> string \<Rightarrow> string \<Rightarrow> string" where
  "strings_Replace s old new =
     (if old = [] then new @ concat (map (\<lambda>r. r @ new) (runes s)) else join_str new (split_str old s))"

section \<open>Operations\<close>

definition stringOperand :: "val \<Rightarrow> nat \<Rightarrow> builtin_error + string" where
  "stringOperand x pos = (case x of String s \<Rightarrow> Inr s | _ \<Rightarrow> Inl (OperandTypeErr pos x [''string'']))"

fun string_elems :: "nat \<Rightarrow> val \<Rightarrow> val list \<Rightarrow> builtin_error + string list" where
  "string_elems pos a [] = Inr []"
| "string_elems pos a (x # xs) =
     (case x of
        String s \<Rightarrow> (case string_elems pos a xs of Inl e \<Rightarrow> Inl e | Inr strs \<Rightarrow> Inr (s # strs))
      | _ \<Rightarrow> Inl (OperandElementErr pos a x [''string'']))"

text \<open>An object is no such operand: its \<open>Iter\<close> has another type.\<close>

definition stringSliceOperand :: "val \<Rightarrow> nat \<Rightarrow> builtin_error + string list" where
  "stringSliceOperand a pos =
     (case a of
        Array xs \<Rightarrow> string_elems pos a xs
      | Set xs \<Rightarrow> string_elems pos a (vset_sorted xs)
      | _ \<Rightarrow> Inl (OperandTypeErr pos a [''array'', ''set'']))"

definition match_operand :: "val \<Rightarrow> nat \<Rightarrow> builtin_error + string list" where
  "match_operand a pos =
     (case a of
        String s \<Rightarrow> Inr [s]
      | Array _ \<Rightarrow> stringSliceOperand a pos
      | Set _ \<Rightarrow> stringSliceOperand a pos
      | _ \<Rightarrow> Inl (OperandTypeErr pos a [''string'', ''set'', ''array'']))"

text \<open>
  The trie is that of the package patricia: \<open>matchSubtree strs p\<close> is the answer of \<open>MatchSubtree\<close> for
  the prefix \<open>p\<close> after the insertion of \<open>strs\<close>.
\<close>

definition anyStartsWithAny :: "(string list \<Rightarrow> string \<Rightarrow> bool) \<Rightarrow> string list \<Rightarrow> string list \<Rightarrow> bool" where
  "anyStartsWithAny matchSubtree strs pres =
     (if length strs = 0 \<or> length pres = 0 then False
      else if length strs = 1 \<and> length pres = 1 then prefix (hd pres) (hd strs)
      else list_ex (matchSubtree strs) pres)"

definition reverseString :: "string \<Rightarrow> string" where
  "reverseString str =
     (let sRunes = to_runes str
      in concat (map (\<lambda>index. sRunes ! (length sRunes - index - 1)) [0..<length sRunes]))"

definition builtinAnyPrefixMatch :: "(string list \<Rightarrow> string \<Rightarrow> bool) \<Rightarrow> val \<Rightarrow> val \<Rightarrow> builtin_result" where
  "builtinAnyPrefixMatch matchSubtree a b =
     with_operand (match_operand a 1) (\<lambda>strs.
     with_operand (match_operand b 2) (\<lambda>pres.
       Iter (Boolean (anyStartsWithAny matchSubtree strs pres))))"

definition builtinAnySuffixMatch :: "(string list \<Rightarrow> string \<Rightarrow> bool) \<Rightarrow> val \<Rightarrow> val \<Rightarrow> builtin_result" where
  "builtinAnySuffixMatch matchSubtree a b =
     with_operand (match_operand a 1) (\<lambda>strs.
     with_operand (match_operand b 2) (\<lambda>sufs.
       Iter (Boolean (anyStartsWithAny matchSubtree (map reverseString strs) (map reverseString sufs)))))"

definition builtinConcat :: "val \<Rightarrow> val \<Rightarrow> builtin_result" where
  "builtinConcat a b =
     with_operand (stringOperand a 1) (\<lambda>join.
       case b of
         Array xs \<Rightarrow> with_operand (string_elems 2 b xs) (\<lambda>strs. Iter (String (join_str join strs)))
       | Set xs \<Rightarrow> with_operand (string_elems 2 b (vset_sorted xs)) (\<lambda>strs. Iter (String (join_str join strs)))
       | _ \<Rightarrow> BErr (OperandTypeErr 2 b [''set'', ''array'']))"

text \<open>The loops of \<open>indexof\<close> and \<open>indexof_n\<close>: the matching positions in order, and the first one.\<close>

definition runesEqual :: "string list \<Rightarrow> string list \<Rightarrow> bool" where
  "runesEqual a b \<longleftrightarrow> length a = length b \<and> list_all (\<lambda>i. a ! i = b ! i) [0..<length a]"

function index_loop :: "string list \<Rightarrow> string list \<Rightarrow> nat \<Rightarrow> nat list" where
  "index_loop baseRunes searchRunes i =
     (if i < length baseRunes \<and> length baseRunes \<ge> i + length searchRunes then
        (if baseRunes ! i = hd searchRunes \<and>
            runesEqual (take (length searchRunes) (drop i baseRunes)) searchRunes
         then i # index_loop baseRunes searchRunes (Suc i)
         else index_loop baseRunes searchRunes (Suc i))
      else [])"
  by pat_completeness auto

termination
  by (relation "measure (\<lambda>(b, s, i). length b - i)") auto

declare index_loop.simps [simp del]

definition builtinIndexOf :: "val \<Rightarrow> val \<Rightarrow> builtin_result" where
  "builtinIndexOf a b =
     with_operand (stringOperand a 1) (\<lambda>base.
     with_operand (stringOperand b 2) (\<lambda>search.
       if length search = 0 then BErr (PlainErr ''empty search character'')
       else case index_loop (to_runes base) (to_runes search) 0 of
              i # _ \<Rightarrow> Iter (Number (intNumber (int i)))
            | [] \<Rightarrow> Iter (Number (intNumber (-1)))))"

definition builtinIndexOfN :: "val \<Rightarrow> val \<Rightarrow> builtin_result" where
  "builtinIndexOfN a b =
     with_operand (stringOperand a 1) (\<lambda>base.
     with_operand (stringOperand b 2) (\<lambda>search.
       if length search = 0 then BErr (PlainErr ''empty search character'')
       else Iter (Array (map (\<lambda>i. Number (intNumber (int i))) (index_loop (to_runes base) (to_runes search) 0)))))"

definition builtinSubstring :: "val \<Rightarrow> val \<Rightarrow> val \<Rightarrow> builtin_result" where
  "builtinSubstring a b c =
     with_operand (stringOperand a 1) (\<lambda>base.
     with_operand (intOperand b 2) (\<lambda>startIndex.
       let rs = to_runes base
       in if startIndex \<ge> int (length rs) then Iter (String [])
          else if startIndex < 0 then BErr (PlainErr ''negative offset'')
          else with_operand (intOperand c 3) (\<lambda>len.
            if len < 0 then Iter (String (concat (drop (nat startIndex) rs)))
            else
              let upto0 = int64_add startIndex len;
                  upto = (if int (length rs) < upto0 then int (length rs) else upto0)
              in case slice_of rs startIndex upto of
                   None \<Rightarrow> BPanic
                 | Some part \<Rightarrow> Iter (String (concat part)))))"

definition builtinContains :: "val \<Rightarrow> val \<Rightarrow> builtin_result" where
  "builtinContains a b =
     with_operand (stringOperand a 1) (\<lambda>s.
     with_operand (stringOperand b 2) (\<lambda>substr. Iter (Boolean (sublist substr s))))"

definition builtinStartsWith :: "val \<Rightarrow> val \<Rightarrow> builtin_result" where
  "builtinStartsWith a b =
     with_operand (stringOperand a 1) (\<lambda>s.
     with_operand (stringOperand b 2) (\<lambda>pre. Iter (Boolean (prefix pre s))))"

definition builtinEndsWith :: "val \<Rightarrow> val \<Rightarrow> builtin_result" where
  "builtinEndsWith a b =
     with_operand (stringOperand a 1) (\<lambda>s.
     with_operand (stringOperand b 2) (\<lambda>suf. Iter (Boolean (suffix suf s))))"

definition builtinSplit :: "val \<Rightarrow> val \<Rightarrow> builtin_result" where
  "builtinSplit a b =
     with_operand (stringOperand a 1) (\<lambda>s.
     with_operand (stringOperand b 2) (\<lambda>d. Iter (Array (map String (strings_Split s d)))))"

definition builtinReplace :: "val \<Rightarrow> val \<Rightarrow> val \<Rightarrow> builtin_result" where
  "builtinReplace a b c =
     with_operand (stringOperand a 1) (\<lambda>s.
     with_operand (stringOperand b 2) (\<lambda>old.
     with_operand (stringOperand c 3) (\<lambda>new. Iter (String (strings_Replace s old new)))))"

definition builtinTrimPrefix :: "val \<Rightarrow> val \<Rightarrow> builtin_result" where
  "builtinTrimPrefix a b =
     with_operand (stringOperand a 1) (\<lambda>s.
     with_operand (stringOperand b 2) (\<lambda>pre.
       Iter (String (if prefix pre s then drop (length pre) s else s))))"

definition builtinTrimSuffix :: "val \<Rightarrow> val \<Rightarrow> builtin_result" where
  "builtinTrimSuffix a b =
     with_operand (stringOperand a 1) (\<lambda>s.
     with_operand (stringOperand b 2) (\<lambda>suf.
       Iter (String (if suffix suf s then take (length s - length suf) s else s))))"

definition builtinReverse :: "val \<Rightarrow> builtin_result" where
  "builtinReverse a = with_operand (stringOperand a 1) (\<lambda>s. Iter (String (reverseString s)))"

text \<open>The error of the parser is replaced by one that prints the operand.\<close>

definition builtinSemVerCompare :: "val \<Rightarrow> val \<Rightarrow> builtin_result" where
  "builtinSemVerCompare a b =
     with_operand (stringOperand a 1) (\<lambda>versionStringA.
     with_operand (stringOperand b 2) (\<lambda>versionStringB.
       case newVersion versionStringA of
         Inl _ \<Rightarrow> BErr (PlainErr (''operand 1: string '' @ versionStringA @ '' is not a valid SemVer''))
       | Inr versionA \<Rightarrow>
           (case newVersion versionStringB of
              Inl _ \<Rightarrow> BErr (PlainErr (''operand 2: string '' @ versionStringB @ '' is not a valid SemVer''))
            | Inr versionB \<Rightarrow> Iter (Number (intNumber (version_compare versionA versionB))))))"

definition builtinSemVerIsValid :: "val \<Rightarrow> builtin_result" where
  "builtinSemVerIsValid a =
     (case stringOperand a 1 of
        Inl _ \<Rightarrow> Iter (Boolean False)
      | Inr versionString \<Rightarrow> Iter (Boolean (case newVersion versionString of Inl _ \<Rightarrow> False | Inr _ \<Rightarrow> True)))"

section \<open>Substrings\<close>

text \<open>
  C29.  A substring on every branch, for indices in the range of int64.  The end of the substring is clamped
  to the end of the string, but the sum of the offset and the length wraps around before that: when it
  passes the range of int64, the slice expression panics.
\<close>

theorem substring_bounds:
  assumes "num_int64 m = Some i" and "num_int64 n = Some l"
  shows "builtinSubstring (String s) (Number m) (Number n) =
    (if int (length (to_runes s)) \<le> i then Iter (String [])
     else if i < 0 then BErr (PlainErr ''negative offset'')
     else if l < 0 then Iter (String (concat (drop (nat i) (to_runes s))))
     else if 2 ^ 63 \<le> i + l then BPanic
     else Iter (String (concat (take (nat l) (drop (nat i) (to_runes s))))))"
proof (cases "0 \<le> i \<and> i < int (length (to_runes s)) \<and> 0 \<le> l")
  case False
  then show ?thesis using assms
    by (auto simp: builtinSubstring_def stringOperand_def intOperand_def with_operand_def Let_def)
next
  case True
  have range: "i < 2 ^ 63" "l < 2 ^ 63"
    using num_int64_range [OF assms(1)] num_int64_range [OF assms(2)] by (simp_all add: int64_max_def)
  have eq: "builtinSubstring (String s) (Number m) (Number n) =
      (let upto = (if int (length (to_runes s)) < int64_add i l then int (length (to_runes s)) else int64_add i l)
       in case slice_of (to_runes s) i upto of None \<Rightarrow> BPanic | Some part \<Rightarrow> Iter (String (concat part)))"
    using assms True by (simp add: builtinSubstring_def stringOperand_def intOperand_def with_operand_def Let_def)
  show ?thesis
  proof (cases "2 ^ 63 \<le> i + l")
    case wraps: True
    then have "int64_add i l < 0" using range by (intro int64_add_wraps) auto
    then show ?thesis using True wraps by (simp add: eq Let_def slice_of_def)
  next
    case False
    then have "int64_add i l = i + l" using True by (intro int64_add_small) auto
    then show ?thesis using True False
      by (auto simp: eq Let_def slice_of_def nat_add_distrib)
  qed
qed

theorem substring_bounds_witness:
  "builtinSubstring (String ''ab'') (Number (intNumber 1)) (Number (intNumber 9223372036854775807)) = BPanic"
proof -
  have "num_int64 (intNumber 1) = Some 1" "num_int64 (intNumber 9223372036854775807) = Some 9223372036854775807"
    by (simp_all add: num_int64_intNumber int64_min_def int64_max_def)
  note sub = substring_bounds [OF this, of "''ab''"]
  have "length (to_runes ''ab'') = 2" by code_simp
  then show ?thesis unfolding sub by simp
qed

section \<open>Positions\<close>

text \<open>The positions of the runes of a string in those of another.\<close>

definition found_at :: "string list \<Rightarrow> string list \<Rightarrow> nat \<Rightarrow> bool" where
  "found_at b s i \<longleftrightarrow> i + length s \<le> length b \<and> take (length s) (drop i b) = s"

lemma runesEqual_iff: "runesEqual a b \<longleftrightarrow> a = b"
  by (auto simp: runesEqual_def list_all_iff intro: nth_equalityI)

lemma index_loop_found:
  assumes "s \<noteq> []"
  shows "set (index_loop b s i) = {j. i \<le> j \<and> found_at b s j} \<and> sorted_wrt (<) (index_loop b s i)"
  using assms
proof (induction b s i rule: index_loop.induct)
  case (1 b s i)
  note ne = 1(3)
  show ?case
  proof (cases "i < length b \<and> length b \<ge> i + length s")
    case False
    then have "\<not> found_at b s j" if "i \<le> j" for j using that ne by (cases s) (auto simp: found_at_def)
    then show ?thesis using False by (subst (1 2) index_loop.simps) auto
  next
    case True
    let ?here = "b ! i = hd s \<and> runesEqual (take (length s) (drop i b)) s"
    have here: "?here \<longleftrightarrow> found_at b s i"
    proof
      assume f: "found_at b s i"
      then have "hd (take (length s) (drop i b)) = hd s" by (simp add: found_at_def)
      then have "b ! i = hd s" using True ne by (simp add: hd_take hd_drop_conv_nth)
      then show ?here using f by (simp add: runesEqual_iff found_at_def)
    qed (use True in \<open>simp add: runesEqual_iff found_at_def\<close>)
    have IH: "set (index_loop b s (Suc i)) = {j. Suc i \<le> j \<and> found_at b s j}" "sorted_wrt (<) (index_loop b s (Suc i))"
      using 1(1) [OF _ _ ne] 1(2) [OF _ _ ne] True by blast+
    have "index_loop b s i = (if found_at b s i then [i] else []) @ index_loop b s (Suc i)"
      using True here by (subst index_loop.simps) auto
    moreover have "{j. i \<le> j \<and> found_at b s j} = (if found_at b s i then {i} else {}) \<union> {j. Suc i \<le> j \<and> found_at b s j}"
      by (auto simp: le_less Suc_le_eq)
    ultimately show ?thesis using IH by auto
  qed
qed

text \<open>
  C35.  \<open>indexof_n\<close> returns all positions of a string in another in ascending order, counted in runes, and
  \<open>indexof\<close> the first of them, or -1.
\<close>

theorem index_of_correct:
  assumes "search \<noteq> []"
  shows "(\<exists>is. builtinIndexOfN (String base) (String search) = Iter (Array (map (\<lambda>i. Number (intNumber (int i))) is)) \<and>
      sorted_wrt (<) is \<and> set is = {i. found_at (to_runes base) (to_runes search) i}) \<and>
    builtinIndexOf (String base) (String search) =
      Iter (Number (intNumber (if \<exists>i. found_at (to_runes base) (to_runes search) i
        then int (LEAST i. found_at (to_runes base) (to_runes search) i) else -1)))"
proof -
  let ?is = "index_loop (to_runes base) (to_runes search) 0"
  have "to_runes search \<noteq> []" using assms by (cases search) (simp_all add: to_runes_def)
  then have found: "set ?is = {i. found_at (to_runes base) (to_runes search) i}" "sorted_wrt (<) ?is"
    using index_loop_found [of "to_runes search" "to_runes base" 0] by simp_all
  have first: "(case ?is of i # _ \<Rightarrow> Iter (Number (intNumber (int i))) | [] \<Rightarrow> Iter (Number (intNumber (-1)))) =
      Iter (Number (intNumber (if \<exists>i. found_at (to_runes base) (to_runes search) i
        then int (LEAST i. found_at (to_runes base) (to_runes search) i) else -1)))"
  proof (cases ?is)
    case Nil
    then show ?thesis using found(1) by auto
  next
    case (Cons i js)
    have "found_at (to_runes base) (to_runes search) i" using found(1) Cons by auto
    moreover have "(LEAST i. found_at (to_runes base) (to_runes search) i) = i"
    proof (rule Least_equality)
      fix y assume "found_at (to_runes base) (to_runes search) y"
      then have "y \<in> set (i # js)" using found(1) Cons by auto
      then show "i \<le> y" using found(2) Cons by auto
    qed (fact calculation)
    ultimately show ?thesis using Cons by auto
  qed
  show ?thesis
    by (intro conjI exI [of _ ?is] found)
      (use assms first in \<open>simp_all add: builtinIndexOf_def builtinIndexOfN_def stringOperand_def with_operand_def\<close>)
qed

theorem index_of_correct_witness:
  "builtinIndexOf (String ''ab'') (String ''c'') = Iter (Number (intNumber (-1)))"
proof -
  have "\<not> found_at (to_runes ''ab'') (to_runes ''c'') i" for i
    by (cases i; cases "i - 1") (auto simp: found_at_def to_runes_def runes_ascii rune_of_def)
  then show ?thesis using index_of_correct [of "''c''" "''ab''"] by simp
qed

section \<open>Splitting and joining\<close>

lemma split_str_nonempty: "split_str d s \<noteq> []"
  by (subst split_str.simps) (auto split: list.splits)

lemma join_str_Cons: "ss \<noteq> [] \<Longrightarrow> join_str d (s # ss) = s @ d @ join_str d ss"
  by (cases ss) simp_all

lemma join_str_first: "join_str d ((c # y) # ys) = c # join_str d (y # ys)"
  by (cases ys) simp_all

lemma join_split_str: "join_str d (split_str d s) = s"
proof (induction d s rule: split_str.induct)
  case (1 d s)
  show ?case
  proof (cases "d \<noteq> [] \<and> prefix d s")
    case True
    then have "split_str d s = [] # split_str d (drop (length d) s)" by (subst split_str.simps) simp
    moreover have "d @ drop (length d) s = s" using True by (auto simp: prefix_def)
    ultimately show ?thesis using 1(1) [OF True] by (simp add: join_str_Cons split_str_nonempty)
  next
    case False
    show ?thesis
    proof (cases s)
      case Nil
      then show ?thesis using False by (subst split_str.simps) auto
    next
      case (Cons c t)
      obtain y ys where y: "split_str d t = y # ys" using split_str_nonempty by (cases "split_str d t") auto
      have "split_str d s = (c # y) # ys" using False Cons y by (subst split_str.simps) auto
      then show ?thesis using 1(2) [OF False Cons] y Cons by (simp add: join_str_first)
    qed
  qed
qed

lemma split_str_first: "\<exists>y ys. split_str d s = y # ys \<and> prefix y s"
proof (induction d s rule: split_str.induct)
  case (1 d s)
  show ?case
  proof (cases "d \<noteq> [] \<and> prefix d s")
    case False
    then show ?thesis using 1(2) [OF False] by (subst split_str.simps) (auto split: list.splits)
  qed (subst split_str.simps, simp)
qed

text \<open>No part contains the separator.\<close>

lemma split_str_parts: "d \<noteq> [] \<Longrightarrow> p \<in> set (split_str d s) \<Longrightarrow> \<not> sublist d p"
proof (induction d s arbitrary: p rule: split_str.induct)
  case (1 d s)
  show ?case
  proof (cases "prefix d s")
    case True
    then have "split_str d s = [] # split_str d (drop (length d) s)" using 1(3) by (subst split_str.simps) simp
    then show ?thesis using 1(1) [OF _ 1(3)] True 1(3,4) by auto
  next
    case False
    show ?thesis
    proof (cases s)
      case Nil
      then have "split_str d s = [[]]" using False by (subst split_str.simps) simp
      then show ?thesis using 1(3,4) by simp
    next
      case (Cons c t)
      obtain y ys where y: "split_str d t = y # ys" "prefix y t" using split_str_first by blast
      have split: "split_str d s = (c # y) # ys" using False Cons y by (subst split_str.simps) auto
      have IH: "\<not> sublist d q" if "q \<in> set (y # ys)" for q using 1(2) [OF _ Cons 1(3)] that y(1) False by auto
      have "\<not> prefix d (c # y)" using False y(2) Cons by (metis Cons_prefix_Cons prefix_order.order_trans)
      then have "\<not> sublist d (c # y)" using IH by (simp add: sublist_Cons_right)
      then show ?thesis using 1(4) split IH by auto
    qed
  qed
qed

lemma join_str_empty: "join_str [] ss = concat ss"
  by (induction "[] :: string" ss rule: join_str.induct) simp_all

lemma join_strings_Split: "join_str d (strings_Split s d) = s"
  by (simp add: strings_Split_def join_split_str join_str_empty concat_runes)

lemma string_elems_String: "string_elems i a (map String ss) = Inr ss"
  by (induction ss) simp_all

text \<open>
  C36.  Joining what was split gives the string back, for every separator; the parts do not contain a
  non-empty separator, and replacing a string by itself changes nothing.
\<close>

theorem split_concat_roundtrip:
  "\<exists>ss. builtinSplit (String s) (String d) = Iter (Array (map String ss)) \<and>
     builtinConcat (String d) (Array (map String ss)) = Iter (String s) \<and>
     (d \<noteq> [] \<longrightarrow> list_all (\<lambda>p. \<not> sublist d p) ss \<and>
       builtinReplace (String s) (String d) (String d) = Iter (String s))"
proof (intro exI conjI impI)
  show "builtinSplit (String s) (String d) = Iter (Array (map String (strings_Split s d)))"
    by (simp add: builtinSplit_def stringOperand_def with_operand_def)
  show "builtinConcat (String d) (Array (map String (strings_Split s d))) = Iter (String s)"
    by (simp add: builtinConcat_def stringOperand_def with_operand_def string_elems_String join_strings_Split)
  assume d: "d \<noteq> []"
  then show "list_all (\<lambda>p. \<not> sublist d p) (strings_Split s d)"
    using split_str_parts [OF d] by (simp add: strings_Split_def list_all_iff)
  show "builtinReplace (String s) (String d) (String d) = Iter (String s)"
    using d by (simp add: builtinReplace_def stringOperand_def with_operand_def strings_Replace_def join_split_str)
qed

theorem split_concat_roundtrip_witness:
  "builtinReplace (String ''aba'') (String ''b'') (String ''b'') = Iter (String ''aba'')"
  using split_concat_roundtrip [of "''aba''" "''b''"] by auto

section \<open>Prefixes and suffixes\<close>

lemma reverseString_rev: "reverseString s = concat (rev (to_runes s))"
proof -
  have "map (\<lambda>index. rs ! (length rs - index - 1)) [0..<length rs] = rev rs" for rs :: "string list"
    by (auto simp: rev_nth intro: nth_equalityI)
  then show ?thesis by (simp add: reverseString_def Let_def)
qed

lemma reverseString_ascii:
  assumes "list_all (\<lambda>c. of_char c < (0x80 :: nat)) s"
  shows "reverseString s = rev s"
proof -
  have "to_runes s = map (\<lambda>c. [c]) s"
    using assms by (auto simp: to_runes_def runes_ascii rune_of_def list_all_iff)
  then show ?thesis by (simp add: reverseString_rev rev_map)
qed

lemma anyStartsWithAny_iff:
  assumes "\<And>ss p. M ss p \<longleftrightarrow> list_ex (prefix p) ss"
  shows "anyStartsWithAny M strs pres \<longleftrightarrow> (\<exists>s \<in> set strs. \<exists>p \<in> set pres. prefix p s)"
proof (cases "length strs = 1 \<and> length pres = 1")
  case True
  then obtain s p where "strs = [s]" "pres = [p]" by (auto simp: length_Suc_conv)
  then show ?thesis by (simp add: anyStartsWithAny_def)
next
  case False
  then show ?thesis by (auto simp: anyStartsWithAny_def assms list_ex_iff)
qed



end
