(* ===== verification/Spec2Isabelle.thy ===== *)
theory Spec2Isabelle
  imports Union_Find Ast_Object_Ops Leb128 Bitvector Ast_Graph Storage_Store Topdown_Graphs
    Topdown_Strings
begin

text \<open>
  Verification development for the Open Policy Agent sources.

  \<^bold>\<open>The program.\<close>  A policy is parsed and compiled to the data structures of package \<open>ast\<close>; package
  \<open>topdown\<close> evaluates queries over them, with documents that package \<open>storage\<close> keeps.  Values are the common
  currency: the compiler, the evaluator, its built-in functions and the store compare them, hash them and
  keep them in sets, objects and maps.  The development follows that dependency: first the values and
  their order, then the containers, then the clients of the containers (the rule graph, copy
  propagation, the built-ins), and beside them the store and some self-contained codecs.

  \<^bold>\<open>Theories and sources.\<close>

  \<^item> \<^emph>\<open>Foundations.\<close>  \<open>Opa_Prelude\<close>: three-way comparisons, the lexicographic comparison loop, sorting by a
    comparison, the locale \<open>total_cmp\<close> of total orders and the named collections.  \<open>Ordered_Tree\<close>: the linear
    order on trees that values are mapped to.  \<open>Go_Strings\<close> and \<open>Go_Decimal\<close>: the functions of the Go
    packages \<open>strings\<close>, \<open>strconv\<close> and \<open>net/url\<close> that the code calls.
  \<^item> \<^emph>\<open>Values.\<close>  \<open>Ast_Number\<close>, \<open>Ast_Value\<close>: the types of ast/term.go and ast/policy.go and \<open>Compare\<close> of
    ast/compare.go.  \<open>Ast_Compare\<close>: \<open>Compare\<close> is the order of canonical trees, hence total, and does not see
    the order of key slices.  \<open>Ast_Hash\<close>: the \<open>Hash\<close> methods, consistent with \<open>Compare\<close>.  \<open>Ast_Term\<close>:
    equality, groundness, \<open>Find\<close> and the operations of \<open>Ref\<close>.
  \<^item> \<^emph>\<open>Containers.\<close>  \<open>Ast_Array\<close>: arrays with their cached hashes.  \<open>Hash_Table\<close> and \<open>Ast_Set\<close>: the
    linear-probing index and every operation of sets, against the contract \<open>Set_Contract\<close>.  \<open>Util_Hashmap\<close>
    (util/hashmap.go), \<open>Ast_Map\<close> (ast/map.go) and \<open>Ast_Object\<close>, \<open>Ast_Object_Ops\<close> (ast/term.go): chained tables,
    against the contract \<open>Map_Contract\<close>.  Invariants say that index, key slice, sort flag and counters agree;
    every operation keeps them and implements the abstract set or map.
  \<^item> \<^emph>\<open>Searches.\<close>  \<open>Util_Queue\<close> (util/queue.go): FIFO with linked cells and LIFO.  \<open>Util_Graph\<close>
    (util/graph.go): depth-first and breadth-first search and path search over any traversal.  \<open>Ast_Graph\<close>
    (ast/compile.go): the rule dependency graph and its topological sort.  \<open>Union_Find\<close>
    (topdown/copypropagation): union-find and the disjoint sets of a query.
  \<^item> \<^emph>\<open>The store.\<close>  \<open>Storage_Path\<close> (storage/path.go); \<open>Json_Doc\<close> (storage/internal/ptr, storage/errors.go);
    \<open>Storage_Txn\<close> (storage/inmem/txn.go): pending updates, reads, writes and commits, against the view of a
    transaction; \<open>Storage_Tree\<close> (internal/merge, truncation and directories of storage/inmem/inmem.go and
    storage/storage.go); \<open>Storage_Store\<close> (storage/inmem/inmem.go): transactions with the two locks as a step
    relation, with lock invariants, isolation of readers and freedom from deadlock by rule induction.
  \<^item> \<^emph>\<open>Built-in functions.\<close>  \<open>Topdown_Collections\<close> (topdown/sets.go, array.go, aggregates.go, subset.go,
    object.go, type.go, type_name.go, comparison.go): functional behaviour, result types and operand errors.
    \<open>Topdown_Graphs\<close> (topdown/reachable.go, walk.go).  \<open>Topdown_Strings\<close> (topdown/strings.go,
    topdown/semver.go).
  \<^item> \<^emph>\<open>Codecs.\<close>  \<open>Leb128\<close> (internal/leb128): round trips of the integer encodings.  \<open>Bitvector\<close>
    (internal/edittree/bitvector): a refinement to lists of bits.  \<open>Semver\<close> (internal/semver): parsing,
    printing and the order of versions.

  \<^bold>\<open>Conventions.\<close>  A struct with state is a record, passed and returned.  A nil pointer or interface is
  \<open>None\<close>; a Go error is a value of an error type; a panic is \<open>None\<close> where an operation can panic.  A Go
  string is the list of its bytes.  Machine integers are words, or integers with the range or the
  wrap-around written out.  A Go map whose iteration order matters is a list in that order, about which
  nothing is assumed.  Slices are values: where the code copies a slice before it changes it, the sharing of
  backing arrays is left out; the FIFO queue, whose nodes are shared, has an explicit store.

  \<^bold>\<open>Loops and fuel.\<close>  No definition runs on fuel.  Loops that end by a measure are total functions with a
  termination proof.  Loops that end only on well-formed data (probing of a full table, searches of an
  infinite graph, paths in a graph with cycles, the union-find parents) are partial functions to \<open>option\<close>,
  and the properties about them state that they return: probing because a table has fewer entries than
  there are hash codes, the searches because the reachable nodes are finite and each is visited once, the
  path built-ins because the set of reached nodes grows, the union-find because ranks of parents decrease.

  \<^bold>\<open>Parameters.\<close>  Code outside of the repository is an argument: the checksum (xxhash) and the conversion to float64
  of hash codes; the trie of package patricia, with its documented behaviour as a hypothesis of the prefix
  match.  The order in which Go ranges over a map is an argument as well.

  \<^bold>\<open>Deviations of the code.\<close>  Lemmas next to the models show by evaluation where the code departs from its
  comments or its intent: the hash of sorted arrays and of overwritten objects, the sign of LEB128 numbers
  of five or more bytes, indices in \<open>Path.Ref\<close>, replaced values of a pending write, escaped roots in \<open>Truncate\<close>,
  a reader committed twice, null in \<open>min\<close>, repetitions in \<open>object.subset\<close>, paths of \<open>graph.reachable_paths\<close>, and
  the wrap-around of \<open>substring\<close>.  The properties carry the hypotheses that exclude these cases.

  \<^bold>\<open>Not modelled.\<close>
  \<^item> The parser, the compiler stages other than the rule graph, the type checker, the rule index, partial evaluation,
    the evaluator of \<open>topdown/eval.go\<close> and the planner: their state is the whole AST with mutable shared
    nodes and callbacks, and a model of a part would replace what it calls by assumptions about it.
  \<^item> Built-ins whose meaning lies in libraries: cryptography, JWT, HTTP, time zones, regular expressions, globs,
    GraphQL, JSON schema, CIDR arithmetic, \<open>big.Float\<close> arithmetic, Unicode case mapping, \<open>sprintf\<close>.
  \<^item> Printing, JSON marshalling and source locations of the modelled types, which no modelled operation reads.
  \<^item> Store triggers, which are callbacks of clients, and the disk store, a client of the database badger.
  \<^item> Servers, plug-ins, bundles, command line, runtime, logging, metrics, SDK and test tooling: input and output,
    concurrency with timers and network, and configuration around the parts above.
  \<^item> The Wasm compiler, encoder and virtual machine, except for the integer encoding.
\<close>

end
